(* ===== verification/CMem.thy ===== *)
theory CMem
  imports Main "HOL-Library.Word"
begin

text \<open>
  The C memory model shared by both implementations of the string module.
  A C object (a \<open>char\<close> array, a string literal) is a block: a list of
  8-bit code units. Memory maps block numbers to blocks. A pointer is
  \<open>NULL\<close> or a block number with an offset. Every read and every write
  goes through \<open>load\<close> and \<open>store\<close>, which fail with \<open>Invalid_access\<close>
  outside an allocated block: that is where the C program has undefined
  behaviour. A failed \<open>assert\<close> is the other error, \<open>Assert_fail\<close>.
  A computation of the program is an \<open>'a result\<close>, threaded with \<open>bindE\<close>.
\<close>

named_theorems cmem_simps "evaluation rules of the C memory primitives"

type_synonym cchar = "8 word"
type_synonym size_t = "64 word"
type_synonym blk = nat

datatype ptr = NULL | Ptr blk nat

type_synonym mem = "blk \<rightharpoonup> cchar list"

datatype error = Assert_fail | Invalid_access

type_synonym 'a result = "error + 'a"

definition bindE :: "'a result \<Rightarrow> ('a \<Rightarrow> 'b result) \<Rightarrow> 'b result" where
  "bindE x f = (case x of Inl e \<Rightarrow> Inl e | Inr a \<Rightarrow> f a)"

text \<open>
  A computation that may also run forever: \<open>None\<close> is a run that does not
  return, \<open>Some r\<close> one that returns or faults with \<open>r\<close>.
\<close>

definition bindO :: "'a result option \<Rightarrow> ('a \<Rightarrow> 'b result option) \<Rightarrow> 'b result option" where
  "bindO x f = (case x of None \<Rightarrow> None | Some (Inl e) \<Rightarrow> Some (Inl e) | Some (Inr a) \<Rightarrow> f a)"

text \<open>\<open>assert(p)\<close> of \<open>assert.h\<close> on a pointer: it aborts on \<open>NULL\<close>.\<close>

definition assert_nonnull :: "ptr \<Rightarrow> unit result" where
  "assert_nonnull p = (if p = NULL then Inl Assert_fail else Inr ())"

text \<open>Pointer arithmetic \<open>p + n\<close> and \<open>p - q\<close> within one object.\<close>

fun ptr_add :: "ptr \<Rightarrow> nat \<Rightarrow> ptr" where
  "ptr_add NULL n = NULL"
| "ptr_add (Ptr b i) n = Ptr b (i + n)"

fun ptr_diff :: "ptr \<Rightarrow> ptr \<Rightarrow> int" where
  "ptr_diff (Ptr b i) (Ptr c j) = int i - int j"
| "ptr_diff _ _ = 0"

text \<open>\<open>*p\<close> as an rvalue and \<open>*p = c\<close>.\<close>

fun load :: "mem \<Rightarrow> ptr \<Rightarrow> cchar result" where
  "load m NULL = Inl Invalid_access"
| "load m (Ptr b i) =
     (case m b of None \<Rightarrow> Inl Invalid_access
      | Some xs \<Rightarrow> if i < length xs then Inr (xs ! i) else Inl Invalid_access)"

fun store :: "mem \<Rightarrow> ptr \<Rightarrow> cchar \<Rightarrow> mem result" where
  "store m NULL c = Inl Invalid_access"
| "store m (Ptr b i) c =
     (case m b of None \<Rightarrow> Inl Invalid_access
      | Some xs \<Rightarrow> if i < length xs then Inr (m(b \<mapsto> xs[i := c])) else Inl Invalid_access)"

text \<open>
  The promotion of a \<open>char\<close> to \<open>int\<close> in \<open>str1[i] - str2[i]\<close>: \<open>char\<close> is
  signed on the platforms the module targets (x86-64 and its System V ABI),
  so a code unit is read as two's complement.
\<close>

definition char_int :: "cchar \<Rightarrow> int" where
  "char_int c = sint c"

text \<open>
  Every C object is smaller than \<open>SIZE_MAX\<close>: a block has fewer than \<open>2^64\<close>
  units, so a \<open>size_t\<close> counter over a block does not wrap around.
\<close>

definition size_ok :: "mem \<Rightarrow> bool" where
  "size_ok m \<longleftrightarrow> (\<forall>b xs. m b = Some xs \<longrightarrow> length xs < 2 ^ LENGTH(64))"

text \<open>Bytes left in the block from a pointer on: what every loop of the module uses up.\<close>

fun remaining :: "mem \<Rightarrow> ptr \<Rightarrow> nat" where
  "remaining m NULL = 0"
| "remaining m (Ptr b i) = (case m b of None \<Rightarrow> 0 | Some xs \<Rightarrow> length xs - i)"

text \<open>Two memories with the same blocks of the same sizes: no operation allocates or frees.\<close>

definition same_shape :: "mem \<Rightarrow> mem \<Rightarrow> bool" where
  "same_shape m m' \<longleftrightarrow> (\<forall>b. map_option length (m' b) = map_option length (m b))"

subsection \<open>The result monad\<close>

lemma bindE_Inl [simp, cmem_simps]: "bindE (Inl e) f = Inl e"
  by (simp add: bindE_def)

lemma bindE_Inr [simp, cmem_simps]: "bindE (Inr a) f = f a"
  by (simp add: bindE_def)

lemma bindE_cong [fundef_cong]:
  "x = y \<Longrightarrow> (\<And>a. y = Inr a \<Longrightarrow> f a = g a) \<Longrightarrow> bindE x f = bindE y g"
  by (cases y) simp_all

text \<open>The body of a bind is rewritten only once its first step has a value.\<close>

lemma bindE_weak_cong [cong]: "x = y \<Longrightarrow> bindE x f = bindE y f"
  by simp

lemma bindE_eq_Inr:
  "bindE x f = Inr b \<longleftrightarrow> (\<exists>a. x = Inr a \<and> f a = Inr b)"
  by (cases x) simp_all

lemma bindE_eq_Inl:
  "bindE x f = Inl e \<longleftrightarrow> x = Inl e \<or> (\<exists>a. x = Inr a \<and> f a = Inl e)"
  by (cases x) simp_all

lemma bindO_simps [simp, cmem_simps]:
  "bindO None f = None"
  "bindO (Some (Inl e)) f = Some (Inl e)"
  "bindO (Some (Inr a)) f = f a"
  by (simp_all add: bindO_def)

lemma bindO_weak_cong [cong]: "x = y \<Longrightarrow> bindO x f = bindO y f"
  by simp

lemma assert_nonnull_simps [simp, cmem_simps]:
  "assert_nonnull NULL = Inl Assert_fail"
  "assert_nonnull (Ptr b i) = Inr ()"
  by (simp_all add: assert_nonnull_def)

subsection \<open>Pointers\<close>

lemma ptr_add_0 [simp]: "ptr_add p 0 = p"
  by (cases p) simp_all

lemma ptr_add_add [simp]: "ptr_add (ptr_add p i) j = ptr_add p (i + j)"
  by (cases p) simp_all

lemma ptr_add_eq_NULL [simp]: "ptr_add p n = NULL \<longleftrightarrow> p = NULL"
  by (cases p) simp_all

lemma ptr_diff_ptr_add [simp]: "p \<noteq> NULL \<Longrightarrow> ptr_diff (ptr_add p n) p = int n"
  by (cases p) simp_all

subsection \<open>Loads and stores\<close>

lemma load_Inr_iff:
  "load m p = Inr c \<longleftrightarrow> (\<exists>b i xs. p = Ptr b i \<and> m b = Some xs \<and> i < length xs \<and> c = xs ! i)"
  by (cases p) (auto split: option.splits)

lemma store_Inr_iff:
  "store m p c = Inr m' \<longleftrightarrow>
     (\<exists>b i xs. p = Ptr b i \<and> m b = Some xs \<and> i < length xs \<and> m' = m(b \<mapsto> xs[i := c]))"
  by (cases p) (auto split: option.splits)

lemma load_remaining_less:
  "load m (ptr_add p n) = Inr c \<Longrightarrow> remaining m (ptr_add p (Suc n)) < remaining m (ptr_add p n)"
  by (cases p) (auto split: option.splits if_splits)

lemma store_remaining_less:
  "store m (ptr_add p n) c = Inr m' \<Longrightarrow> remaining m (ptr_add p (Suc n)) < remaining m (ptr_add p n)"
  by (cases p) (auto split: option.splits if_splits)

lemma load_remaining_less_ptr:
  "load m p = Inr c \<Longrightarrow> remaining m (ptr_add p 1) < remaining m p"
  using load_remaining_less [of m p 0 c] by simp

lemma store_remaining_less_ptr:
  "store m p c = Inr m' \<Longrightarrow> remaining m (ptr_add p 1) < remaining m p"
  using store_remaining_less [of m p 0 c m'] by simp

lemma load_remaining_less_Suc0:
  "load m p = Inr c \<Longrightarrow> remaining m (ptr_add p (Suc 0)) < remaining m p"
  using load_remaining_less_ptr [of m p c] by simp

lemma store_remaining_less_Suc0:
  "store m p c = Inr m' \<Longrightarrow> remaining m (ptr_add p (Suc 0)) < remaining m p"
  using store_remaining_less_ptr [of m p c m'] by simp

lemma store_remaining:
  "store m p c = Inr m' \<Longrightarrow> remaining m' q = remaining m q"
  by (cases q) (auto simp: store_Inr_iff split: option.splits if_splits)

lemma load_store:
  "store m p c = Inr m' \<Longrightarrow> load m' q = (if q = p then Inr c else load m q)"
  by (cases q) (auto simp: store_Inr_iff nth_list_update split: option.splits if_splits)

lemma same_shape_refl [simp]: "same_shape m m"
  by (simp add: same_shape_def)

lemma same_shape_trans [trans]: "same_shape m m' \<Longrightarrow> same_shape m' m'' \<Longrightarrow> same_shape m m''"
  by (simp add: same_shape_def)

lemma store_same_shape: "store m p c = Inr m' \<Longrightarrow> same_shape m m'"
  by (auto simp: store_Inr_iff same_shape_def)

subsection \<open>Code units as C ints\<close>

lemma char_int_bounds: "- 128 \<le> char_int c \<and> char_int c < 128"
  using sint_ge [of c] sint_lt [of c] by (simp add: char_int_def)

lemma char_int_0 [simp]: "char_int 0 = 0"
  by (simp add: char_int_def)

lemma char_int_eq_iff [simp]: "char_int a = char_int b \<longleftrightarrow> a = b"
  by (auto simp: char_int_def intro: signed_word_eqI)

lemma char_int_eq_0_iff [simp]: "char_int a = 0 \<longleftrightarrow> a = 0"
  using char_int_eq_iff [of a 0] by simp

lemma char_int_sub_bounds: "- 255 \<le> char_int a - char_int b \<and> char_int a - char_int b \<le> 255"
  using char_int_bounds [of a] char_int_bounds [of b] by linarith

lemma char_int_abs_le [simp]:
  "\<bar>char_int a\<bar> \<le> 255" "\<bar>char_int a - char_int b\<bar> \<le> 255"
  using char_int_bounds [of a] char_int_sub_bounds [of a b] by linarith+

subsection \<open>Counters against size_t values\<close>

lemma unat_size_t_less: "unat (w :: size_t) < 2 ^ LENGTH(64)"
  using unsigned_less [of w] by simp

lemma unat_of_nat_size_t: "i < 2 ^ LENGTH(64) \<Longrightarrow> unat (of_nat i :: size_t) = i"
  by (rule of_nat_inverse) simp_all

lemma of_nat_eq_size_t_iff:
  "i \<le> unat (w :: size_t) \<Longrightarrow> (of_nat i = w) \<longleftrightarrow> i = unat w"
proof
  assume le: "i \<le> unat w" and eq: "of_nat i = w"
  have "i < 2 ^ LENGTH(64)"
    using le unat_size_t_less [of w] by linarith
  then show "i = unat w"
    using of_nat_inverse [OF eq] by simp
qed simp

lemma unat_size_t_add:
  "unat (a :: size_t) + unat b < 2 ^ LENGTH(64) \<Longrightarrow> unat (a + b) = unat a + unat b"
  by (rule unat_add_lem [THEN iffD1])

lemma unat_size_t_Suc: "w < (v :: size_t) \<Longrightarrow> unat (w + 1) = Suc (unat w)"
proof -
  assume "w < v"
  then have "unat w < unat v" by (simp add: word_less_nat_alt)
  then have "unat w + unat (1 :: size_t) < 2 ^ LENGTH(64)"
    using unat_size_t_less [of v] by simp
  then show ?thesis
    by (simp add: unat_size_t_add)
qed

lemma unat_of_char: "unat (of_char c :: cchar) = of_char c"
proof -
  have "unat (of_nat (of_char c) :: cchar) = of_char c"
    using nat_of_char_less_256 [of c] by (intro of_nat_inverse) simp_all
  then show ?thesis
    by (simp only: of_nat_of_char)
qed

lemma of_char_eq_0_iff: "(of_char c :: cchar) = 0 \<longleftrightarrow> c = CHR 0x00"
proof
  assume "(of_char c :: cchar) = 0"
  then have "unat (of_char c :: cchar) = 0" by simp
  then have "of_char c = (0::nat)" by (simp only: unat_of_char)
  then have "char_of (of_char c :: nat) = (char_of (0::nat) :: char)" by simp
  moreover have "char_of (0::nat) = CHR 0x00"
    by (simp add: char_of_def)
  ultimately show "c = CHR 0x00"
    by (simp add: char_of_char)
qed simp

lemma load_Inl: "load m p = Inl e \<Longrightarrow> e = Invalid_access"
  by (cases p) (auto split: option.splits if_splits)

lemma store_Inl: "store m p c = Inl e \<Longrightarrow> e = Invalid_access"
  by (cases p) (auto split: option.splits if_splits)

lemma same_shape_size_ok:
  assumes "same_shape m m'" and "size_ok m"
  shows "size_ok m'"
  unfolding size_ok_def
proof (intro allI impI)
  fix b xs
  assume "m' b = Some xs"
  moreover have "map_option length (m' b) = map_option length (m b)"
    using assms(1) by (simp add: same_shape_def)
  ultimately obtain ys where "m b = Some ys" and "length ys = length xs"
    by (cases "m b") auto
  moreover have "length ys < 2 ^ LENGTH(64)"
    using assms(2) \<open>m b = Some ys\<close> unfolding size_ok_def by blast
  ultimately show "length xs < 2 ^ LENGTH(64)"
    by simp
qed

text \<open>
  An access that succeeds on a memory whose blocks fit \<open>size_t\<close> is at an
  index below \<open>SIZE_MAX\<close>, so a \<open>size_t\<close> counter that made it does not
  wrap when incremented.
\<close>

lemma ptr_add_offset_bound:
  assumes "ptr_add p n = Ptr b i" and "i < length xs" and "m b = Some xs" and "size_ok m"
  shows "Suc n < 2 ^ LENGTH(64)"
proof -
  have "n \<le> i" using assms(1) by (cases p) auto
  moreover have "length xs < 2 ^ LENGTH(64)" using assms(3,4) by (simp add: size_ok_def)
  ultimately show ?thesis using assms(2) by linarith
qed
lemma load_ptr_add_bound:
  "load m (ptr_add p n) = Inr c \<Longrightarrow> size_ok m \<Longrightarrow> Suc n < 2 ^ LENGTH(64)"
  unfolding load_Inr_iff by (blast intro: ptr_add_offset_bound)
lemma store_ptr_add_bound:
  "store m (ptr_add p n) c = Inr m' \<Longrightarrow> size_ok m \<Longrightarrow> Suc n < 2 ^ LENGTH(64)"
  unfolding store_Inr_iff by (blast intro: ptr_add_offset_bound)
lemma store_size_ok: "store m p c = Inr m' \<Longrightarrow> size_ok m \<Longrightarrow> size_ok m'"
  by (rule same_shape_size_ok [OF store_same_shape])
lemma unat_size_t_Suc_less: "Suc (unat (w :: size_t)) < 2 ^ LENGTH(64) \<Longrightarrow> unat (w + 1) = Suc (unat w)"
  by (simp add: unat_size_t_add)
lemma unat_size_t_minus_Suc:
  "i \<noteq> (num :: size_t) \<Longrightarrow> unat (num - (i + 1)) < unat (num - i)"
proof -
  assume "i \<noteq> num"
  then have nz: "num - i \<noteq> 0" by simp
  have eq: "num - (i + 1) = (num - i) - 1" by simp
  have "unat (num - i - 1) = unat (num - i) - 1" by (rule unat_minus_one [OF nz])
  moreover have "0 < unat (num - i)" using nz by (simp add: unat_gt_0)
  ultimately show ?thesis unfolding eq by linarith
qed
text \<open>A deterministic relation reaches at most one final state.\<close>

lemma rtranclp_deterministic_final:
  assumes det: "\<And>s t u. r s t \<Longrightarrow> r s u \<Longrightarrow> t = u"
    and fin: "\<And>u. \<not> r a u" and fin': "\<And>u. \<not> r b u"
    and a: "r\<^sup>*\<^sup>* s a" and b: "r\<^sup>*\<^sup>* s b"
  shows "a = b"
  using a b
proof (induction rule: converse_rtranclp_induct)
  case base
  then show ?case using fin by (auto elim: converse_rtranclpE)
next
  case (step s s')
  from step.prems have "r\<^sup>*\<^sup>* s' b"
  proof (cases rule: converse_rtranclpE)
    case base
    then show ?thesis using step.hyps(1) fin' by blast
  next
    case (step s'')
    then show ?thesis using det [OF step.hyps(1)] by blast
  qed
  then show ?case using step.IH by blast
qed

text \<open>
  Runs of a step relation on pairs whose first component (the memory) is
  not observed at the end.
\<close>

lemma step_reaches_final: "r a (m', x) \<Longrightarrow> \<exists>m''. r\<^sup>*\<^sup>* a (m'', x)"
  by (blast intro: r_into_rtranclp)

lemma final_step_reaches: "r a (m', x) \<Longrightarrow> x = y \<Longrightarrow> \<exists>m''. r\<^sup>*\<^sup>* a (m'', y)"
  by (blast intro: r_into_rtranclp)

lemma step_then_reaches: "r a b \<Longrightarrow> \<exists>m'. r\<^sup>*\<^sup>* b (m', x) \<Longrightarrow> \<exists>m'. r\<^sup>*\<^sup>* a (m', x)"
  by (blast intro: converse_rtranclp_into_rtranclp)

lemma reaches_mono:
  "(\<And>s t. r s t \<Longrightarrow> r' s t) \<Longrightarrow> \<exists>m'. r\<^sup>*\<^sup>* a (m', x) \<Longrightarrow> \<exists>m'. r'\<^sup>*\<^sup>* a (m', x)"
  by (metis mono_rtranclp)

end
