(* ===== verification/CString.thy ===== *)
theory CString
  imports CMem "HOL-Library.List_Lexorder"
begin

text \<open>
  The abstract view of the module's data and the contracts of \<open>mystring.h\<close>.
  \<open>cstr_at m p\<close> is the null-terminated string at \<open>p\<close> (its code units
  before the first zero), or \<open>None\<close> when no terminator lies inside the
  block. \<open>write_bytes m p ws\<close> is memory after writing \<open>ws\<close> from \<open>p\<close> on.
  \<open>cmp_ref\<close> and \<open>search_ref\<close> are the list-level results promised by the
  header for comparison and search. The lemmas here relate \<open>cstr_at\<close> and
  \<open>write_bytes\<close> to single loads and stores; the loop proofs of both
  implementations are built from them.
\<close>

definition block_str :: "cchar list \<Rightarrow> cchar list option" where
  "block_str xs = (if 0 \<in> set xs then Some (takeWhile (\<lambda>c. c \<noteq> 0) xs) else None)"

fun cstr_at :: "mem \<Rightarrow> ptr \<Rightarrow> cchar list option" where
  "cstr_at m NULL = None"
| "cstr_at m (Ptr b i) = (case m b of None \<Rightarrow> None | Some xs \<Rightarrow> block_str (drop i xs))"

text \<open>The \<open>k\<close> units from \<open>p\<close> on, when they lie inside an allocated block.\<close>

fun units :: "mem \<Rightarrow> ptr \<Rightarrow> nat \<Rightarrow> cchar list option" where
  "units m NULL k = None"
| "units m (Ptr b i) k =
     (case m b of None \<Rightarrow> None | Some xs \<Rightarrow> if i + k \<le> length xs then Some (take k (drop i xs)) else None)"

text \<open>\<open>n\<close> bytes from \<open>p\<close> on lie inside an allocated block.\<close>

fun fits :: "mem \<Rightarrow> ptr \<Rightarrow> nat \<Rightarrow> bool" where
  "fits m NULL n = False"
| "fits m (Ptr b i) n = (case m b of None \<Rightarrow> False | Some xs \<Rightarrow> i + n \<le> length xs)"

text \<open>The ranges \<open>[p, p + n)\<close> and \<open>[q, q + k)\<close> do not overlap.\<close>

fun separate :: "ptr \<Rightarrow> nat \<Rightarrow> ptr \<Rightarrow> nat \<Rightarrow> bool" where
  "separate (Ptr b i) n (Ptr c j) k = (b \<noteq> c \<or> i + n \<le> j \<or> j + k \<le> i)"
| "separate _ _ _ _ = True"

definition splice :: "'a list \<Rightarrow> nat \<Rightarrow> 'a list \<Rightarrow> 'a list" where
  "splice xs i ws = take i xs @ ws @ drop (i + length ws) xs"

fun write_bytes :: "mem \<Rightarrow> ptr \<Rightarrow> cchar list \<Rightarrow> mem" where
  "write_bytes m NULL ws = m"
| "write_bytes m (Ptr b i) ws =
     (case m b of None \<Rightarrow> m
      | Some xs \<Rightarrow> if i + length ws \<le> length xs then m(b \<mapsto> splice xs i ws) else m)"

subsection \<open>Reference results of the header's contracts\<close>

text \<open>
  Comparison: the difference, as C ints, of the code units at the first
  position where the two terminated strings differ, the terminator counting
  as the unit 0.
\<close>

fun cmp_ref :: "cchar list \<Rightarrow> cchar list \<Rightarrow> int" where
  "cmp_ref [] [] = 0"
| "cmp_ref [] (y # ys) = - char_int y"
| "cmp_ref (x # xs) [] = char_int x"
| "cmp_ref (x # xs) (y # ys) = (if x = y then cmp_ref xs ys else char_int x - char_int y)"

text \<open>Search: the needle occurs at position \<open>i\<close> of the haystack.\<close>

definition match_at :: "cchar list \<Rightarrow> cchar list \<Rightarrow> nat \<Rightarrow> bool" where
  "match_at h n i \<longleftrightarrow> i + length n \<le> length h \<and> take (length n) (drop i h) = n"

definition search_ref :: "cchar list \<Rightarrow> cchar list \<Rightarrow> nat option" where
  "search_ref h n =
     (if length h < length n then None
      else find (match_at h n) [0..<Suc (length h - length n)])"

subsection \<open>Strings in a block\<close>

lemma takeWhile_nonzero_append: "0 \<notin> set s \<Longrightarrow> takeWhile (\<lambda>c. c \<noteq> 0) (s @ 0 # r) = s"
  by (induction s) auto

lemma drop_eq_Cons_iff:
  "drop i xs = c # r \<longleftrightarrow> i < length xs \<and> xs ! i = c \<and> drop (Suc i) xs = r"
  by (metis Cons_nth_drop_Suc drop_all list.distinct(1) list.inject not_le_imp_less)

lemma block_str_Some_iff:
  "block_str ys = Some s \<longleftrightarrow> 0 \<notin> set s \<and> (\<exists>r. ys = s @ 0 # r)"
proof
  assume h: "block_str ys = Some s"
  then have z: "0 \<in> set ys" and s: "s = takeWhile (\<lambda>c. c \<noteq> 0) ys"
    by (auto simp: block_str_def split: if_splits)
  obtain r where "dropWhile (\<lambda>c. c \<noteq> 0) ys = 0 # r"
    using z hd_dropWhile [of "\<lambda>c. c \<noteq> 0" ys] dropWhile_eq_Nil_conv [of "\<lambda>c. c \<noteq> 0" ys]
    by (cases "dropWhile (\<lambda>c. c \<noteq> 0) ys") auto
  then have "ys = s @ 0 # r"
    using takeWhile_dropWhile_id [of "\<lambda>c. c \<noteq> 0" ys] s by simp
  moreover have "0 \<notin> set s"
    using s by (auto dest: set_takeWhileD)
  ultimately show "0 \<notin> set s \<and> (\<exists>r. ys = s @ 0 # r)" by blast
next
  assume "0 \<notin> set s \<and> (\<exists>r. ys = s @ 0 # r)"
  then obtain r where "0 \<notin> set s" and "ys = s @ 0 # r" by blast
  then show "block_str ys = Some s"
    by (simp add: block_str_def takeWhile_nonzero_append)
qed

lemma cstr_at_Ptr_Some_iff:
  "cstr_at m (Ptr b i) = Some s \<longleftrightarrow>
     (\<exists>xs r. m b = Some xs \<and> 0 \<notin> set s \<and> drop i xs = s @ 0 # r)"
  by (auto simp: block_str_Some_iff split: option.splits)

text \<open>The two equations that read a string unit by unit, as every loop of the module does.\<close>

lemma cstr_at_Nil_iff: "cstr_at m p = Some [] \<longleftrightarrow> load m p = Inr 0"
proof (cases p)
  case (Ptr b i)
  then show ?thesis
    by (simp only: cstr_at_Ptr_Some_iff) (auto simp: drop_eq_Cons_iff split: option.splits)
qed simp

lemma cstr_at_Cons_iff:
  "cstr_at m p = Some (c # t) \<longleftrightarrow>
     load m p = Inr c \<and> c \<noteq> 0 \<and> cstr_at m (ptr_add p 1) = Some t"
proof (cases p)
  case (Ptr b i)
  then show ?thesis
    by (simp only: cstr_at_Ptr_Some_iff ptr_add.simps)
       (auto simp: drop_eq_Cons_iff split: option.splits)
qed simp

lemma cstr_at_not_NULL: "cstr_at m p = Some s \<Longrightarrow> p \<noteq> NULL"
  by auto

lemma cstr_at_load:
  "cstr_at m p = Some s \<Longrightarrow> k \<le> length s \<Longrightarrow> load m (ptr_add p k) = Inr ((s @ [0]) ! k)"
proof (induction s arbitrary: p k)
  case Nil
  then show ?case by (simp add: cstr_at_Nil_iff)
next
  case (Cons c t)
  show ?case
  proof (cases k)
    case 0
    with Cons.prems show ?thesis by (simp add: cstr_at_Cons_iff)
  next
    case (Suc k')
    with Cons.prems have "load m (ptr_add (ptr_add p 1) k') = Inr ((t @ [0]) ! k')"
      by (intro Cons.IH) (simp_all add: cstr_at_Cons_iff)
    with Suc show ?thesis by simp
  qed
qed

lemma cstr_at_length_less:
  assumes "cstr_at m p = Some s" and "size_ok m"
  shows "Suc (length s) < 2 ^ LENGTH(64)"
proof (cases p)
  case (Ptr b i)
  from assms(1) Ptr obtain xs r where xs: "m b = Some xs" and d: "drop i xs = s @ 0 # r"
    by (simp only: cstr_at_Ptr_Some_iff) blast
  from xs assms(2) have "length xs < 2 ^ LENGTH(64)"
    unfolding size_ok_def by blast
  moreover have "Suc (length s) \<le> length xs"
    using arg_cong [where f = length, OF d] by simp
  ultimately show ?thesis by simp
qed (use assms in simp)

lemma cstr_at_nonzero:
  assumes "cstr_at m p = Some s"
  shows "0 \<notin> set s"
proof (cases p)
  case (Ptr b i)
  with assms show ?thesis
    by (simp only: cstr_at_Ptr_Some_iff) blast
qed (use assms in simp)

lemma cstr_at_ptr_add:
  "cstr_at m p = Some s \<Longrightarrow> k \<le> length s \<Longrightarrow> cstr_at m (ptr_add p k) = Some (drop k s)"
proof (induction k arbitrary: p s)
  case 0
  then show ?case by simp
next
  case (Suc k)
  then obtain c t where s: "s = c # t" by (cases s) auto
  with Suc.prems have "cstr_at m (ptr_add p 1) = Some t" and "k \<le> length t"
    by (simp_all add: cstr_at_Cons_iff)
  from Suc.IH [OF this] s show ?case by simp
qed

subsection \<open>Writing bytes\<close>

lemma splice_single: "i < length xs \<Longrightarrow> splice xs i [c] = xs[i := c]"
  by (simp add: splice_def upd_conv_take_nth_drop)

lemma length_splice: "i + length ws \<le> length xs \<Longrightarrow> length (splice xs i ws) = length xs"
  by (simp add: splice_def)

lemma splice_append:
  "i + length ws + length vs \<le> length xs \<Longrightarrow>
     splice (splice xs i ws) (i + length ws) vs = splice xs i (ws @ vs)"
  by (cases ws) (auto simp: splice_def min_def algebra_simps)

lemma nth_splice:
  "i + length ws \<le> length xs \<Longrightarrow> k < length xs \<Longrightarrow>
     splice xs i ws ! k = (if i \<le> k \<and> k < i + length ws then ws ! (k - i) else xs ! k)"
  by (auto simp: splice_def nth_append min_def)

lemma drop_splice:
  "i + length ws \<le> length xs \<Longrightarrow> drop i (splice xs i ws) = ws @ drop (i + length ws) xs"
  by (simp add: splice_def)

lemma write_bytes_Nil [simp]: "write_bytes m p [] = m"
proof (cases p)
  case (Ptr b i)
  then show ?thesis
    by (auto simp: splice_def split: option.splits intro!: ext)
qed simp

lemma store_write_bytes: "fits m p 1 \<Longrightarrow> store m p c = Inr (write_bytes m p [c])"
  by (cases p) (auto simp: splice_single split: option.splits)

lemma write_bytes_append:
  "fits m p (length ws + length vs) \<Longrightarrow>
     write_bytes (write_bytes m p ws) (ptr_add p (length ws)) vs = write_bytes m p (ws @ vs)"
  by (cases p) (auto simp: splice_append length_splice split: option.splits)

lemma fits_write_bytes [simp]: "fits (write_bytes m p ws) q n = fits m q n"
proof (cases p)
  case (Ptr b i)
  then show ?thesis
    by (cases q) (auto simp: length_splice split: option.splits)
qed simp

lemma same_shape_write_bytes: "same_shape m (write_bytes m p ws)"
proof (cases p)
  case (Ptr b i)
  then show ?thesis
    by (auto simp: same_shape_def length_splice split: option.splits)
qed simp

lemma fits_mono: "fits m p n \<Longrightarrow> k \<le> n \<Longrightarrow> fits m p k"
  by (cases p) (auto split: option.splits)

lemma fits_ptr_add: "fits m p (Suc n) \<Longrightarrow> fits m (ptr_add p 1) n"
  by (cases p) (auto split: option.splits)

lemma fits_ptr_add_iff: "fits m (ptr_add p k) n \<longleftrightarrow> fits m p (k + n)"
  by (cases p) (auto split: option.splits)

lemma separate_shift:
  "separate p n q (Suc k) \<Longrightarrow> separate p n (ptr_add q 1) k"
  by (cases p; cases q) auto

lemma separate_shift_left:
  "separate p (Suc n) q k \<Longrightarrow> separate (ptr_add p 1) n q k"
  by (cases p; cases q) auto

lemma separate_sym: "separate p n q k \<Longrightarrow> separate q k p n"
  by (cases p; cases q) auto

lemma separate_mono: "separate p n q k \<Longrightarrow> n' \<le> n \<Longrightarrow> k' \<le> k \<Longrightarrow> separate p n' q k'"
  by (cases p; cases q) auto

lemma load_write_bytes_other:
  assumes "separate p (length ws) q 1"
  shows "load (write_bytes m p ws) q = load m q"
proof (cases p)
  case (Ptr b i)
  then show ?thesis
    using assms by (cases q) (auto simp: nth_splice length_splice split: option.splits)
qed simp

lemma load_write_bytes_same:
  "fits m p (length ws) \<Longrightarrow> k < length ws \<Longrightarrow> load (write_bytes m p ws) (ptr_add p k) = Inr (ws ! k)"
  by (cases p) (auto simp: nth_splice length_splice split: option.splits)

lemma cstr_at_write_bytes_other:
  "separate p (length ws) q (Suc (length s)) \<Longrightarrow> cstr_at m q = Some s \<Longrightarrow>
     cstr_at (write_bytes m p ws) q = Some s"
proof (induction s arbitrary: q)
  case Nil
  then show ?case
    by (simp add: cstr_at_Nil_iff load_write_bytes_other)
next
  case (Cons c t)
  have "separate p (length ws) q 1"
    using Cons.prems(1) by (rule separate_mono) simp_all
  moreover have "separate p (length ws) (ptr_add q 1) (Suc (length t))"
    using separate_shift [of p "length ws" q "Suc (length t)"] Cons.prems(1) by simp
  ultimately show ?case
    using Cons.prems(2) Cons.IH by (simp add: cstr_at_Cons_iff load_write_bytes_other)
qed

lemma cstr_at_write_bytes_self:
  assumes "fits m p (Suc (length s))" and "0 \<notin> set s"
  shows "cstr_at (write_bytes m p (s @ [0])) p = Some s"
proof (cases p)
  case (Ptr b i)
  then show ?thesis
    using assms by (simp only: cstr_at_Ptr_Some_iff) (auto simp: drop_splice split: option.splits)
qed (use assms in simp)

lemma cstr_at_write_bytes_prefix:
  assumes "fits m p (length s + Suc (length r))" and "0 \<notin> set s"
  shows "cstr_at (write_bytes m p (s @ 0 # r)) p = Some s"
proof (cases p)
  case (Ptr b i)
  then show ?thesis
    using assms by (simp only: cstr_at_Ptr_Some_iff) (auto simp: drop_splice split: option.splits)
qed (use assms in simp)

lemma cstr_at_write_bytes_append:
  assumes "cstr_at m p = Some d" and "fits m p (length d + Suc (length s))" and "0 \<notin> set s"
  shows "cstr_at (write_bytes m (ptr_add p (length d)) (s @ [0])) p = Some (d @ s)"
proof (cases p)
  case (Ptr b i)
  from assms(1) obtain xs r where xs: "m b = Some xs" "0 \<notin> set d" "drop i xs = d @ 0 # r"
    unfolding Ptr by (auto simp only: cstr_at_Ptr_Some_iff)
  have le: "i + length d + length (s @ [0]) \<le> length xs"
    using assms(2) xs(1) by (simp add: Ptr)
  have "drop i (splice xs (i + length d) (s @ [0])) = d @ s @ 0 # drop (i + length d + Suc (length s)) xs"
    using le xs(3) by (simp add: splice_def drop_take)
  moreover have "write_bytes m (ptr_add p (length d)) (s @ [0]) =
                   m(b \<mapsto> splice xs (i + length d) (s @ [0]))"
    using xs(1) le by (simp add: Ptr)
  ultimately show ?thesis
    using xs(2) assms(3) unfolding Ptr by (simp only: cstr_at_Ptr_Some_iff) auto
qed (use assms in simp)

lemma separate_step:
  "separate p (Suc n) q (Suc k) \<Longrightarrow> separate (ptr_add p 1) n (ptr_add q 1) k"
  "separate p (Suc n) q (Suc k) \<Longrightarrow> separate p 1 (ptr_add q 1) k"
  by (cases p; cases q; auto)+

lemma store_after_write_bytes:
  "fits m p (Suc (length ws)) \<Longrightarrow>
     store (write_bytes m p ws) (ptr_add p (length ws)) c = Inr (write_bytes m p (ws @ [c]))"
  using store_write_bytes [of "write_bytes m p ws" "ptr_add p (length ws)" c]
    write_bytes_append [of m p ws "[c]"]
  by (simp add: fits_ptr_add_iff)

lemma unat_length_cstr:
  "cstr_at m p = Some s \<Longrightarrow> size_ok m \<Longrightarrow> unat (of_nat (length s) :: size_t) = length s"
  using cstr_at_length_less [of m p s] unat_of_nat_size_t [of "length s"] by simp

lemma units_length: "units m p k = Some ys \<Longrightarrow> length ys = k"
  by (cases p) (auto split: option.splits if_splits)

lemma take_Suc_drop: "i < length xs \<Longrightarrow> take (Suc k) (drop i xs) = xs ! i # take k (drop (Suc i) xs)"
  by (metis Cons_nth_drop_Suc take_Suc_Cons)

lemma units_Suc:
  "units m p (Suc k) = Some (c # ys) \<longleftrightarrow> load m p = Inr c \<and> units m (ptr_add p 1) k = Some ys"
proof (cases p)
  case (Ptr b i)
  then show ?thesis
    by (auto simp: take_Suc_drop split: option.splits if_splits)
qed simp

lemma cstr_at_None_units: "cstr_at m p = None \<Longrightarrow> units m p k = Some ys \<Longrightarrow> 0 \<notin> set ys"
  by (cases p) (auto simp: block_str_def dest: in_set_takeD split: option.splits if_splits)

lemma units_write_bytes_other:
  assumes "separate p (length ws) q k"
  shows "units (write_bytes m p ws) q k = units m q k"
proof (cases p; cases q)
  fix b i c j
  assume P: "p = Ptr b i" and Q: "q = Ptr c j"
  show ?thesis
  proof (cases "m b")
    case (Some xs)
    show ?thesis
    proof (cases "i + length ws \<le> length xs \<and> b = c")
      case True
      have "take k (drop j (splice xs i ws)) = take k (drop j xs)" if "j + k \<le> length xs"
        using assms P Q True that by (intro nth_equalityI) (auto simp: nth_splice length_splice)
      then show ?thesis
        using Some True P Q by (auto simp: length_splice)
    next
      case False
      then show ?thesis
        using Some P Q by auto
    qed
  qed (simp add: P)
qed simp_all

subsection \<open>Properties of the reference results\<close>

lemma cmp_ref_antisym: "cmp_ref b a = - cmp_ref a b"
  by (induction a b rule: cmp_ref.induct) auto

lemma cmp_ref_refl: "cmp_ref a a = 0"
  by (induction a) auto

lemma cmp_ref_eq_0_iff: "0 \<notin> set a \<Longrightarrow> 0 \<notin> set b \<Longrightarrow> cmp_ref a b = 0 \<longleftrightarrow> a = b"
  by (induction a b rule: cmp_ref.induct) auto

lemma cmp_ref_neg_iff:
  "0 \<notin> set a \<Longrightarrow> 0 \<notin> set b \<Longrightarrow>
     cmp_ref a b < 0 \<longleftrightarrow> map char_int (a @ [0]) < map char_int (b @ [0])"
  by (induction a b rule: cmp_ref.induct) (auto simp: Cons_less_Cons)

lemma match_at_le: "match_at h n i \<Longrightarrow> i \<le> length h - length n"
  unfolding match_at_def by (elim conjE) linarith

lemma search_ref_Some_iff:
  "search_ref h n = Some i \<longleftrightarrow> match_at h n i \<and> (\<forall>j<i. \<not> match_at h n j)"
proof
  assume "search_ref h n = Some i"
  then show "match_at h n i \<and> (\<forall>j<i. \<not> match_at h n j)"
    by (auto simp: search_ref_def find_Some_iff simp del: upt_Suc split: if_splits)
next
  assume h: "match_at h n i \<and> (\<forall>j<i. \<not> match_at h n j)"
  then have "i < Suc (length h - length n)" and "\<not> length h < length n"
    by (auto simp: match_at_def)
  with h show "search_ref h n = Some i"
    by (auto simp: search_ref_def find_Some_iff simp del: upt_Suc)
qed

lemma search_ref_None_iff: "search_ref h n = None \<longleftrightarrow> (\<forall>i. \<not> match_at h n i)"
  by (auto simp: search_ref_def find_None_iff match_at_def)

lemma match_at_iff_nth:
  "i + length n \<le> length h \<Longrightarrow> match_at h n i \<longleftrightarrow> (\<forall>k<length n. h ! (i + k) = n ! k)"
  by (auto simp: match_at_def list_eq_iff_nth_eq)

lemma match_at_take:
  "i \<le> length h \<Longrightarrow> match_at h n i \<longleftrightarrow> take (length n) (drop i h) = n"
  by (auto simp: match_at_def dest: arg_cong [where f = length])

lemma find_append_single:
  "find P (xs @ [x]) = (case find P xs of None \<Rightarrow> (if P x then Some x else None) | Some y \<Rightarrow> Some y)"
  by (induction xs) auto

lemma find_upt_extend:
  "a \<le> b \<Longrightarrow> (\<forall>k. a \<le> k \<and> k < b \<longrightarrow> \<not> P k) \<Longrightarrow> find P [0..<b] = find P [0..<a]"
proof (induction b)
  case 0
  then show ?case by simp
next
  case (Suc b)
  show ?case
  proof (cases "a = Suc b")
    case False
    with Suc.prems have "a \<le> b" and "\<not> P b" by auto
    with Suc.IH Suc.prems show ?thesis
      by (simp add: find_append_single split: option.split)
  qed simp
qed

end
