(* ===== verification/Mystring_Ars.thy ===== *)
theory Mystring_Ars
  imports CString
begin

text \<open>
  The array-index implementation, \<open>src/mystring_ars.c\<close>. Each \<open>while\<close> or
  \<open>for\<close> loop of a function is a recursive function \<open>..._loop\<close> over the loop
  counter; the C function is a definition that runs the \<open>assert\<close>s, the
  loops and the code after them in the order of the source. The counters
  \<open>i\<close>, \<open>j\<close> and \<open>str_length\<close> are \<open>size_t\<close> in C and \<open>nat\<close> here: each
  loop indexes an allocated block with its counter, so the counter stays
  below the size of a block, and blocks are smaller than \<open>2^64\<close>
  (\<open>size_ok\<close>). Comparisons of a counter with a \<open>size_t\<close> argument are
  written on \<open>64 word\<close> (\<open>of_nat i \<noteq> num\<close>), as the C compares them.
  Every loop terminates because each iteration reads or writes one unit
  further into a finite block, and an access outside it ends the run with
  \<open>Invalid_access\<close>.
\<close>

subsection \<open>ms_length\<close>

function ms_length_ars_loop :: "mem \<Rightarrow> ptr \<Rightarrow> nat \<Rightarrow> nat result" where
  "ms_length_ars_loop m str n =
     bindE (load m (ptr_add str n)) (\<lambda>c.
       if c \<noteq> 0 then ms_length_ars_loop m str (Suc n) else Inr n)"
  by pat_completeness auto
termination
  by (relation "measure (\<lambda>(m, str, n). remaining m (ptr_add str n))")
     (auto dest: load_remaining_less)

definition ms_length_ars :: "mem \<Rightarrow> ptr \<Rightarrow> size_t result" where
  "ms_length_ars m str =
     bindE (assert_nonnull str) (\<lambda>_.
     bindE (ms_length_ars_loop m str 0) (\<lambda>n. Inr (of_nat n)))"

subsection \<open>ms_copy\<close>

text \<open>
  \<open>dest[i] = src[i]\<close> reads \<open>src[i]\<close> again after the loop test; nothing is
  written in between, so the model stores the unit the test read.
\<close>

function ms_copy_ars_loop :: "mem \<Rightarrow> ptr \<Rightarrow> ptr \<Rightarrow> nat \<Rightarrow> (mem \<times> nat) result" where
  "ms_copy_ars_loop m dest src i =
     bindE (load m (ptr_add src i)) (\<lambda>c.
       if c \<noteq> 0 then
         bindE (store m (ptr_add dest i) c) (\<lambda>m'. ms_copy_ars_loop m' dest src (Suc i))
       else Inr (m, i))"
  by pat_completeness auto
termination
  by (relation "measure (\<lambda>(m, dest, src, i). remaining m (ptr_add src i))")
     (auto dest: load_remaining_less simp: store_remaining)

definition ms_copy_ars :: "mem \<Rightarrow> ptr \<Rightarrow> ptr \<Rightarrow> (mem \<times> ptr) result" where
  "ms_copy_ars m dest src =
     bindE (assert_nonnull dest) (\<lambda>_.
     bindE (assert_nonnull src) (\<lambda>_.
     bindE (ms_copy_ars_loop m dest src 0) (\<lambda>(m', i).
     bindE (store m' (ptr_add dest i) 0) (\<lambda>m''. Inr (m'', dest)))))"

subsection \<open>ms_ncopy\<close>

function ms_ncopy_ars_loop :: "mem \<Rightarrow> ptr \<Rightarrow> ptr \<Rightarrow> size_t \<Rightarrow> nat \<Rightarrow> (mem \<times> nat) result" where
  "ms_ncopy_ars_loop m dest src num i =
     bindE (load m (ptr_add src i)) (\<lambda>c.
       if c \<noteq> 0 \<and> of_nat i \<noteq> num then
         bindE (store m (ptr_add dest i) c) (\<lambda>m'. ms_ncopy_ars_loop m' dest src num (Suc i))
       else Inr (m, i))"
  by pat_completeness auto
termination
  by (relation "measure (\<lambda>(m, dest, src, num, i). remaining m (ptr_add src i))")
     (auto dest: load_remaining_less simp: store_remaining)

function ms_ncopy_ars_pad :: "mem \<Rightarrow> ptr \<Rightarrow> size_t \<Rightarrow> nat \<Rightarrow> mem result" where
  "ms_ncopy_ars_pad m dest num i =
     (if of_nat i \<noteq> num then
        bindE (store m (ptr_add dest i) 0) (\<lambda>m'. ms_ncopy_ars_pad m' dest num (Suc i))
      else Inr m)"
  by pat_completeness auto
termination
  by (relation "measure (\<lambda>(m, dest, num, i). remaining m (ptr_add dest i))")
     (auto dest: store_remaining_less simp: store_remaining)

definition ms_ncopy_ars :: "mem \<Rightarrow> ptr \<Rightarrow> ptr \<Rightarrow> size_t \<Rightarrow> (mem \<times> ptr) result" where
  "ms_ncopy_ars m dest src num =
     bindE (assert_nonnull dest) (\<lambda>_.
     bindE (assert_nonnull src) (\<lambda>_.
     bindE (ms_ncopy_ars_loop m dest src num 0) (\<lambda>(m', i).
     bindE (ms_ncopy_ars_pad m' dest num i) (\<lambda>m''. Inr (m'', dest)))))"

subsection \<open>ms_concat\<close>

function ms_concat_ars_loop :: "mem \<Rightarrow> ptr \<Rightarrow> nat \<Rightarrow> ptr \<Rightarrow> nat \<Rightarrow> (mem \<times> nat) result" where
  "ms_concat_ars_loop m dest dest_length src i =
     bindE (load m (ptr_add src i)) (\<lambda>c.
       if c \<noteq> 0 then
         bindE (store m (ptr_add dest (dest_length + i)) c) (\<lambda>m'.
           ms_concat_ars_loop m' dest dest_length src (Suc i))
       else Inr (m, i))"
  by pat_completeness auto
termination
  by (relation "measure (\<lambda>(m, dest, dl, src, i). remaining m (ptr_add src i))")
     (auto dest: load_remaining_less simp: store_remaining)

definition ms_concat_ars :: "mem \<Rightarrow> ptr \<Rightarrow> ptr \<Rightarrow> (mem \<times> ptr) result" where
  "ms_concat_ars m dest src =
     bindE (assert_nonnull dest) (\<lambda>_.
     bindE (assert_nonnull src) (\<lambda>_.
     bindE (ms_length_ars m dest) (\<lambda>dest_length.
     bindE (ms_concat_ars_loop m dest (unat dest_length) src 0) (\<lambda>(m', i).
     bindE (store m' (ptr_add dest (unat dest_length + i)) 0) (\<lambda>m''. Inr (m'', dest))))))"

subsection \<open>ms_nconcat\<close>

function ms_nconcat_ars_loop ::
  "mem \<Rightarrow> ptr \<Rightarrow> nat \<Rightarrow> ptr \<Rightarrow> size_t \<Rightarrow> nat \<Rightarrow> (mem \<times> nat) result" where
  "ms_nconcat_ars_loop m dest dest_length src num i =
     bindE (load m (ptr_add src i)) (\<lambda>c.
       if c \<noteq> 0 \<and> of_nat i \<noteq> num then
         bindE (store m (ptr_add dest (dest_length + i)) c) (\<lambda>m'.
           ms_nconcat_ars_loop m' dest dest_length src num (Suc i))
       else Inr (m, i))"
  by pat_completeness auto
termination
  by (relation "measure (\<lambda>(m, dest, dl, src, num, i). remaining m (ptr_add src i))")
     (auto dest: load_remaining_less simp: store_remaining)

definition ms_nconcat_ars :: "mem \<Rightarrow> ptr \<Rightarrow> ptr \<Rightarrow> size_t \<Rightarrow> (mem \<times> ptr) result" where
  "ms_nconcat_ars m dest src num =
     bindE (assert_nonnull dest) (\<lambda>_.
     bindE (assert_nonnull src) (\<lambda>_.
     bindE (ms_length_ars m dest) (\<lambda>dest_length.
     bindE (ms_nconcat_ars_loop m dest (unat dest_length) src num 0) (\<lambda>(m', i).
     bindE (store m' (ptr_add dest (unat dest_length + i)) 0) (\<lambda>m''. Inr (m'', dest))))))"

subsection \<open>ms_compare\<close>

text \<open>
  The loop and the \<open>return str1[i] - str2[i]\<close> after it. The test
  \<open>str1[i] && str2[i]\<close> reads \<open>str2[i]\<close> only when \<open>str1[i]\<close> is not zero;
  the return reads both, and memory is unchanged since the test.
\<close>

function ms_compare_ars_loop :: "mem \<Rightarrow> ptr \<Rightarrow> ptr \<Rightarrow> nat \<Rightarrow> int result" where
  "ms_compare_ars_loop m str1 str2 i =
     bindE (load m (ptr_add str1 i)) (\<lambda>c1.
       if c1 \<noteq> 0 then
         bindE (load m (ptr_add str2 i)) (\<lambda>c2.
           if c2 \<noteq> 0 then
             (if c1 \<noteq> c2 then Inr (char_int c1 - char_int c2)
              else ms_compare_ars_loop m str1 str2 (Suc i))
           else Inr (char_int c1 - char_int c2))
       else bindE (load m (ptr_add str2 i)) (\<lambda>c2. Inr (char_int c1 - char_int c2)))"
  by pat_completeness auto
termination
  by (relation "measure (\<lambda>(m, str1, str2, i). remaining m (ptr_add str1 i))")
     (auto dest: load_remaining_less)

definition ms_compare_ars :: "mem \<Rightarrow> ptr \<Rightarrow> ptr \<Rightarrow> int result" where
  "ms_compare_ars m str1 str2 =
     bindE (assert_nonnull str1) (\<lambda>_.
     bindE (assert_nonnull str2) (\<lambda>_.
     ms_compare_ars_loop m str1 str2 0))"

subsection \<open>ms_ncompare\<close>

function ms_ncompare_ars_loop :: "mem \<Rightarrow> ptr \<Rightarrow> ptr \<Rightarrow> size_t \<Rightarrow> nat \<Rightarrow> int result" where
  "ms_ncompare_ars_loop m str1 str2 num i =
     bindE (load m (ptr_add str1 i)) (\<lambda>c1.
       if c1 \<noteq> 0 then
         bindE (load m (ptr_add str2 i)) (\<lambda>c2.
           if c2 \<noteq> 0 \<and> of_nat i \<noteq> num then
             (if c1 \<noteq> c2 then Inr (char_int c1 - char_int c2)
              else ms_ncompare_ars_loop m str1 str2 num (Suc i))
           else if of_nat i = num then Inr 0
           else Inr (char_int c1 - char_int c2))
       else if of_nat i = num then Inr 0
       else bindE (load m (ptr_add str2 i)) (\<lambda>c2. Inr (char_int c1 - char_int c2)))"
  by pat_completeness auto
termination
  by (relation "measure (\<lambda>(m, str1, str2, num, i). remaining m (ptr_add str1 i))")
     (auto dest: load_remaining_less)

definition ms_ncompare_ars :: "mem \<Rightarrow> ptr \<Rightarrow> ptr \<Rightarrow> size_t \<Rightarrow> int result" where
  "ms_ncompare_ars m str1 str2 num =
     bindE (assert_nonnull str1) (\<lambda>_.
     bindE (assert_nonnull str2) (\<lambda>_.
     ms_ncompare_ars_loop m str1 str2 num 0))"

subsection \<open>ms_search\<close>

text \<open>The inner \<open>for\<close> loop: the index \<open>j\<close> at which it stops, by \<open>break\<close> or by its test.\<close>

function ms_search_ars_inner :: "mem \<Rightarrow> ptr \<Rightarrow> ptr \<Rightarrow> nat \<Rightarrow> nat \<Rightarrow> nat \<Rightarrow> nat result" where
  "ms_search_ars_inner m haystack needle needle_length i j =
     (if j < needle_length then
        bindE (load m (ptr_add haystack (j + i))) (\<lambda>a.
        bindE (load m (ptr_add needle j)) (\<lambda>b.
          if a \<noteq> b then Inr j
          else ms_search_ars_inner m haystack needle needle_length i (Suc j)))
      else Inr j)"
  by pat_completeness auto
termination
  by (relation "measure (\<lambda>(m, h, n, nl, i, j). nl - j)") auto

function ms_search_ars_outer :: "mem \<Rightarrow> ptr \<Rightarrow> ptr \<Rightarrow> nat \<Rightarrow> nat \<Rightarrow> nat \<Rightarrow> ptr result" where
  "ms_search_ars_outer m haystack needle last_pos needle_length i =
     (if i \<le> last_pos then
        bindE (ms_search_ars_inner m haystack needle needle_length i 0) (\<lambda>j.
          if j = needle_length then Inr (ptr_add haystack i)
          else ms_search_ars_outer m haystack needle last_pos needle_length (Suc i))
      else Inr NULL)"
  by pat_completeness auto
termination
  by (relation "measure (\<lambda>(m, h, n, last_pos, nl, i). Suc last_pos - i)") auto

definition ms_search_ars :: "mem \<Rightarrow> ptr \<Rightarrow> ptr \<Rightarrow> ptr result" where
  "ms_search_ars m haystack needle =
     bindE (assert_nonnull haystack) (\<lambda>_.
     bindE (assert_nonnull needle) (\<lambda>_.
     bindE (ms_length_ars m haystack) (\<lambda>haystack_length.
     bindE (ms_length_ars m needle) (\<lambda>needle_length.
       if haystack_length < needle_length then Inr NULL
       else ms_search_ars_outer m haystack needle
              (unat (haystack_length - needle_length)) (unat needle_length) 0))))"

declare ms_length_ars_loop.simps [simp del] ms_copy_ars_loop.simps [simp del]
  ms_ncopy_ars_loop.simps [simp del] ms_ncopy_ars_pad.simps [simp del]
  ms_concat_ars_loop.simps [simp del] ms_nconcat_ars_loop.simps [simp del]
  ms_compare_ars_loop.simps [simp del] ms_ncompare_ars_loop.simps [simp del]
  ms_search_ars_inner.simps [simp del] ms_search_ars_outer.simps [simp del]

subsection \<open>ms_length: the count of units before the terminator\<close>

lemma ms_length_ars_loop_cstr:
  "cstr_at m (ptr_add str n) = Some s \<Longrightarrow> ms_length_ars_loop m str n = Inr (n + length s)"
proof (induction s arbitrary: n)
  case Nil
  then have "load m (ptr_add str n) = Inr 0" by (simp add: cstr_at_Nil_iff)
  then show ?case by (simp add: ms_length_ars_loop.simps [of m str n])
next
  case (Cons c t)
  then have "load m (ptr_add str n) = Inr c" and "c \<noteq> 0"
    and "cstr_at m (ptr_add str (Suc n)) = Some t"
    by (simp_all add: cstr_at_Cons_iff)
  with Cons.IH show ?case by (simp add: ms_length_ars_loop.simps [of m str n])
qed

lemma ms_length_ars_loop_unterminated:
  "str \<noteq> NULL \<Longrightarrow> cstr_at m (ptr_add str n) = None \<Longrightarrow>
     ms_length_ars_loop m str n = Inl Invalid_access"
proof (induction m str n rule: ms_length_ars_loop.induct)
  case (1 m str n)
  show ?case
  proof (cases "load m (ptr_add str n)")
    case (Inl e)
    then show ?thesis
      using load_Inl [OF Inl] by (simp add: ms_length_ars_loop.simps [of m str n])
  next
    case (Inr c)
    show ?thesis
    proof (cases "c = 0")
      case True
      with Inr "1.prems"(2) show ?thesis by (simp flip: cstr_at_Nil_iff)
    next
      case False
      have "cstr_at m (ptr_add str (Suc n)) = None"
      proof (rule ccontr)
        assume "cstr_at m (ptr_add str (Suc n)) \<noteq> None"
        then obtain t where "cstr_at m (ptr_add (ptr_add str n) 1) = Some t" by auto
        with Inr False have "cstr_at m (ptr_add str n) = Some (c # t)"
          by (simp add: cstr_at_Cons_iff)
        with "1.prems"(2) show False by simp
      qed
      with "1.IH" [OF Inr False] "1.prems"(1) Inr False show ?thesis
        by (simp add: ms_length_ars_loop.simps [of m str n])
    qed
  qed
qed

lemma ms_length_ars_cstr:
  "cstr_at m str = Some s \<Longrightarrow> ms_length_ars m str = Inr (of_nat (length s))"
  using ms_length_ars_loop_cstr [of m str 0 s]
  by (cases str) (simp_all add: ms_length_ars_def)

lemma ms_length_ars_unterminated:
  "str \<noteq> NULL \<Longrightarrow> cstr_at m str = None \<Longrightarrow> ms_length_ars m str = Inl Invalid_access"
  using ms_length_ars_loop_unterminated [of str m 0]
  by (cases str) (simp_all add: ms_length_ars_def)

text \<open>
  C5. \<open>ms_length\<close> faults on a \<open>NULL\<close> argument; on a pointer to a
  null-terminated string it returns the number of code units before the
  terminator; on a block with no terminator after the pointer it reads past
  the block.
\<close>

theorem ms_length_ars_correct:
  "ms_length_ars m str =
     (if str = NULL then Inl Assert_fail
      else case cstr_at m str of
             None \<Rightarrow> Inl Invalid_access
           | Some s \<Rightarrow> Inr (of_nat (length s)))"
proof (cases "cstr_at m str")
  case None
  then show ?thesis
    using ms_length_ars_unterminated [of str m] by (cases str) (simp_all add: ms_length_ars_def)
next
  case (Some s)
  then show ?thesis
    using ms_length_ars_cstr [OF Some] by (auto dest: cstr_at_not_NULL)
qed

subsection \<open>ms_copy: the string and its terminator written at dest\<close>

lemma ms_copy_ars_loop_cstr:
  "cstr_at m (ptr_add src i) = Some t \<Longrightarrow> fits m (ptr_add dest i) (Suc (length t)) \<Longrightarrow>
   separate (ptr_add dest i) (Suc (length t)) (ptr_add src i) (Suc (length t)) \<Longrightarrow>
   ms_copy_ars_loop m dest src i = Inr (write_bytes m (ptr_add dest i) t, i + length t)"
proof (induction t arbitrary: m i)
  case Nil
  then show ?case
    by (simp add: ms_copy_ars_loop.simps [of m dest src i] cstr_at_Nil_iff)
next
  case (Cons c t)
  let ?m1 = "write_bytes m (ptr_add dest i) [c]"
  from Cons.prems(1) have ld: "load m (ptr_add src i) = Inr c" "c \<noteq> 0"
    and rest: "cstr_at m (ptr_add src (Suc i)) = Some t"
    by (simp_all add: cstr_at_Cons_iff)
  have st: "store m (ptr_add dest i) c = Inr ?m1"
    using Cons.prems(2) by (intro store_write_bytes) (simp add: fits_mono)
  have sep1: "separate (ptr_add dest i) 1 (ptr_add src (Suc i)) (Suc (length t))"
    using Cons.prems(3) separate_shift [of "ptr_add dest i" 1 "ptr_add src i" "Suc (length t)"]
      separate_mono [of "ptr_add dest i" "Suc (length (c # t))" "ptr_add src i" "Suc (length (c # t))" 1]
    by simp
  have "cstr_at ?m1 (ptr_add src (Suc i)) = Some t"
    using cstr_at_write_bytes_other [OF _ rest] sep1 by simp
  moreover have "fits ?m1 (ptr_add dest (Suc i)) (Suc (length t))"
    using Cons.prems(2) by (simp add: fits_ptr_add_iff)
  moreover have "separate (ptr_add dest (Suc i)) (Suc (length t)) (ptr_add src (Suc i)) (Suc (length t))"
    using Cons.prems(3) separate_shift_left [OF separate_shift] by (cases dest; cases src) auto
  ultimately have "ms_copy_ars_loop ?m1 dest src (Suc i) =
      Inr (write_bytes ?m1 (ptr_add dest (Suc i)) t, Suc i + length t)"
    by (rule Cons.IH)
  moreover have "write_bytes ?m1 (ptr_add dest (Suc i)) t = write_bytes m (ptr_add dest i) (c # t)"
    using write_bytes_append [of m "ptr_add dest i" "[c]" t]
      fits_mono [OF Cons.prems(2), of "Suc (length t)"] by simp
  ultimately show ?case
    using ld st by (simp add: ms_copy_ars_loop.simps [of m dest src i])
qed

lemma ms_copy_ars_writes:
  assumes "cstr_at m src = Some s" and "fits m dest (Suc (length s))"
    and "separate dest (Suc (length s)) src (Suc (length s))"
  shows "ms_copy_ars m dest src = Inr (write_bytes m dest (s @ [0]), dest)"
proof -
  have loop: "ms_copy_ars_loop m dest src 0 = Inr (write_bytes m dest s, length s)"
    using ms_copy_ars_loop_cstr [of m src 0 s dest] assms by simp
  show ?thesis
    using loop store_after_write_bytes [OF assms(2), of 0] assms(1,2)
    by (cases dest; cases src) (simp_all add: ms_copy_ars_def)
qed

text \<open>
  C6. When the source is a null-terminated string \<open>s\<close>, the destination has
  room for \<open>|s| + 1\<close> units and the two ranges do not overlap,
  \<open>ms_copy\<close> writes \<open>s\<close> and one terminator at \<open>dest\<close>, leaves every other
  unit of memory as it was, and returns \<open>dest\<close>; afterwards both \<open>dest\<close>
  and \<open>src\<close> read as the string \<open>s\<close>.
\<close>

theorem ms_copy_ars_correct:
  assumes "cstr_at m src = Some s" and "fits m dest (Suc (length s))"
    and "separate dest (Suc (length s)) src (Suc (length s))"
  shows "ms_copy_ars m dest src = Inr (write_bytes m dest (s @ [0]), dest) \<and>
         cstr_at (write_bytes m dest (s @ [0])) dest = Some s \<and>
         cstr_at (write_bytes m dest (s @ [0])) src = Some s"
proof (intro conjI)
  show "cstr_at (write_bytes m dest (s @ [0])) dest = Some s"
    using assms(2) cstr_at_nonzero [OF assms(1)] by (rule cstr_at_write_bytes_self)
  show "cstr_at (write_bytes m dest (s @ [0])) src = Some s"
    using cstr_at_write_bytes_other [OF _ assms(1)] assms(3) by simp
qed (use assms in \<open>rule ms_copy_ars_writes\<close>)

theorem ms_copy_ars_correct_witness:
  "cstr_at [0 \<mapsto> [116, 104, 97, 116, 0], 1 \<mapsto> [0, 0, 0, 0, 0]] (Ptr 0 0) = Some [116, 104, 97, 116] \<and>
   fits [0 \<mapsto> [116, 104, 97, 116, 0], 1 \<mapsto> [0, 0, 0, 0, 0]] (Ptr 1 0) 5 \<and>
   separate (Ptr 1 0) 5 (Ptr 0 0) 5 \<and>
   ms_copy_ars [0 \<mapsto> [116, 104, 97, 116, 0], 1 \<mapsto> [0, 0, 0, 0, 0]] (Ptr 1 0) (Ptr 0 0) =
     Inr ([0 \<mapsto> [116, 104, 97, 116, 0], 1 \<mapsto> [116, 104, 97, 116, 0]], Ptr 1 0)"
proof -
  let ?m = "[0 \<mapsto> [116, 104, 97, 116, 0], 1 \<mapsto> [0, 0, 0, 0, 0]] :: mem"
  have h1: "cstr_at ?m (Ptr 0 0) = Some [116, 104, 97, 116]"
    by (simp add: block_str_def)
  have h2: "fits ?m (Ptr 1 0) (Suc (length [116, 104, 97, (116::cchar)]))"
    by simp
  have h3: "separate (Ptr 1 0) (Suc (length [116, 104, 97, (116::cchar)]))
              (Ptr 0 0) (Suc (length [116, 104, 97, (116::cchar)]))"
    by simp
  show ?thesis
    using h1 h2 h3 ms_copy_ars_correct [OF h1 h2 h3] by (simp add: splice_def)
qed

subsection \<open>ms_ncopy: truncation and padding\<close>

lemma ms_ncopy_ars_loop_cstr:
  "cstr_at m (ptr_add src i) = Some t \<Longrightarrow> i \<le> unat num \<Longrightarrow>
   fits m (ptr_add dest i) (min (length t) (unat num - i)) \<Longrightarrow>
   separate (ptr_add dest i) (min (length t) (unat num - i)) (ptr_add src i) (Suc (length t)) \<Longrightarrow>
   ms_ncopy_ars_loop m dest src num i =
     Inr (write_bytes m (ptr_add dest i) (take (unat num - i) t), i + min (length t) (unat num - i))"
proof (induction t arbitrary: m i)
  case Nil
  then show ?case
    by (simp add: ms_ncopy_ars_loop.simps [of m dest src num i] cstr_at_Nil_iff)
next
  case (Cons c t)
  from Cons.prems(1) have ld: "load m (ptr_add src i) = Inr c" "c \<noteq> 0"
    and rest: "cstr_at m (ptr_add src (Suc i)) = Some t"
    by (simp_all add: cstr_at_Cons_iff)
  show ?case
  proof (cases "i = unat num")
    case True
    then have "of_nat i = num" by simp
    moreover from True have "unat num - i = 0" by simp
    ultimately show ?thesis
      using ld by (simp add: ms_ncopy_ars_loop.simps [of m dest src num i])
  next
    case False
    with Cons.prems(2) have lt: "i < unat num" by simp
    then have ne: "of_nat i \<noteq> num"
      using of_nat_eq_size_t_iff [of i num] by simp
    have k: "min (length (c # t)) (unat num - i) = Suc (min (length t) (unat num - Suc i))"
      using lt by simp
    let ?m1 = "write_bytes m (ptr_add dest i) [c]"
    have st: "store m (ptr_add dest i) c = Inr ?m1"
      using Cons.prems(3) k by (intro store_write_bytes) (simp add: fits_mono)
    have sep: "separate (ptr_add dest i) (Suc (min (length t) (unat num - Suc i)))
                 (ptr_add src i) (Suc (Suc (length t)))"
      using Cons.prems(4) k by simp
    have "cstr_at ?m1 (ptr_add src (Suc i)) = Some t"
      using cstr_at_write_bytes_other [OF _ rest] separate_step(2) [OF sep] by simp
    moreover have "fits ?m1 (ptr_add dest (Suc i)) (min (length t) (unat num - Suc i))"
      using Cons.prems(3) k by (simp add: fits_ptr_add_iff)
    moreover have "separate (ptr_add dest (Suc i)) (min (length t) (unat num - Suc i))
                     (ptr_add src (Suc i)) (Suc (length t))"
      using separate_step(1) [OF sep] by simp
    ultimately have "ms_ncopy_ars_loop ?m1 dest src num (Suc i) =
        Inr (write_bytes ?m1 (ptr_add dest (Suc i)) (take (unat num - Suc i) t),
             Suc i + min (length t) (unat num - Suc i))"
      using lt by (intro Cons.IH) simp_all
    moreover have "write_bytes ?m1 (ptr_add dest (Suc i)) (take (unat num - Suc i) t) =
        write_bytes m (ptr_add dest i) (take (unat num - i) (c # t))"
    proof -
      have r: "unat num - i = Suc (unat num - Suc i)" using lt by simp
      show ?thesis
        using write_bytes_append [of m "ptr_add dest i" "[c]" "take (unat num - Suc i) t"]
          Cons.prems(3) k by (simp add: r)
    qed
    ultimately show ?thesis
      using ld st ne k by (simp add: ms_ncopy_ars_loop.simps [of m dest src num i])
  qed
qed

lemma ms_ncopy_ars_pad_zeros:
  "i \<le> unat num \<Longrightarrow> fits m (ptr_add dest i) (unat num - i) \<Longrightarrow>
   ms_ncopy_ars_pad m dest num i = Inr (write_bytes m (ptr_add dest i) (replicate (unat num - i) 0))"
proof (induction m dest num i rule: ms_ncopy_ars_pad.induct)
  case (1 m dest num i)
  show ?case
  proof (cases "i = unat num")
    case True
    then have "of_nat i = num" by simp
    moreover from True have "unat num - i = 0" by simp
    ultimately show ?thesis by (simp add: ms_ncopy_ars_pad.simps [of m dest num i])
  next
    case False
    with "1.prems"(1) have lt: "i < unat num" by simp
    then have ne: "of_nat i \<noteq> num"
      using of_nat_eq_size_t_iff [of i num] by simp
    let ?m1 = "write_bytes m (ptr_add dest i) [0]"
    have st: "store m (ptr_add dest i) 0 = Inr ?m1"
      using "1.prems"(2) lt by (intro store_write_bytes) (simp add: fits_mono)
    have "ms_ncopy_ars_pad ?m1 dest num (Suc i) =
            Inr (write_bytes ?m1 (ptr_add dest (Suc i)) (replicate (unat num - Suc i) 0))"
      using "1.IH" [OF ne st] "1.prems"(2) lt by (simp add: fits_ptr_add_iff)
    moreover have "write_bytes ?m1 (ptr_add dest (Suc i)) (replicate (unat num - Suc i) 0) =
        write_bytes m (ptr_add dest i) (replicate (unat num - i) 0)"
    proof -
      have r: "unat num - i = Suc (unat num - Suc i)" using lt by simp
      show ?thesis
        using write_bytes_append [of m "ptr_add dest i" "[0]" "replicate (unat num - Suc i) 0"]
          "1.prems"(2) by (simp add: r)
    qed
    ultimately show ?thesis
      using st ne by (simp add: ms_ncopy_ars_pad.simps [of m dest num i])
  qed
qed

lemma ms_ncopy_ars_writes:
  assumes "cstr_at m src = Some s" and "fits m dest (unat num)"
    and "separate dest (unat num) src (Suc (length s))"
  shows "ms_ncopy_ars m dest src num =
           Inr (write_bytes m dest (take (unat num) s @ replicate (unat num - length s) 0), dest)"
proof -
  let ?k = "min (length s) (unat num)"
  have loop: "ms_ncopy_ars_loop m dest src num 0 = Inr (write_bytes m dest (take (unat num) s), ?k)"
    using ms_ncopy_ars_loop_cstr [of m src 0 s num dest] assms
    by (simp add: fits_mono separate_mono)
  have "ms_ncopy_ars_pad (write_bytes m dest (take (unat num) s)) dest num ?k =
          Inr (write_bytes (write_bytes m dest (take (unat num) s)) (ptr_add dest ?k)
                 (replicate (unat num - ?k) 0))"
    using assms(2) by (intro ms_ncopy_ars_pad_zeros) (simp_all add: fits_ptr_add_iff)
  also have "\<dots> = Inr (write_bytes m dest (take (unat num) s @ replicate (unat num - length s) 0))"
    using write_bytes_append [of m dest "take (unat num) s" "replicate (unat num - ?k) 0"] assms(2)
    by (simp add: min_def)
  finally show ?thesis
    using loop assms(1,2) by (cases dest; cases src) (simp_all add: ms_ncopy_ars_def)
qed

text \<open>
  C7. With a null-terminated source \<open>s\<close>, room for \<open>num\<close> units at
  \<open>dest\<close> and no overlap, \<open>ms_ncopy\<close> writes exactly \<open>num\<close> units: the
  first \<open>num\<close> units of \<open>s\<close>, then terminators up to \<open>num\<close> when \<open>s\<close>
  is shorter, so that \<open>dest\<close> then holds the string \<open>s\<close>. When
  \<open>|s| \<ge> num\<close> no terminator is written.
\<close>

theorem ms_ncopy_ars_correct:
  assumes "cstr_at m src = Some s" and "fits m dest (unat num)"
    and "separate dest (unat num) src (Suc (length s))"
  shows "ms_ncopy_ars m dest src num =
           Inr (write_bytes m dest (take (unat num) s @ replicate (unat num - length s) 0), dest) \<and>
         (length s < unat num \<longrightarrow>
            cstr_at (write_bytes m dest (take (unat num) s @ replicate (unat num - length s) 0)) dest =
              Some s)"
proof
  show "length s < unat num \<longrightarrow>
          cstr_at (write_bytes m dest (take (unat num) s @ replicate (unat num - length s) 0)) dest =
            Some s"
  proof
    assume lt: "length s < unat num"
    then have "take (unat num) s @ replicate (unat num - length s) 0 =
                 s @ 0 # replicate (unat num - Suc (length s)) 0"
      by (simp add: replicate_Suc [symmetric] Suc_diff_Suc)
    moreover have "fits m dest (length s + Suc (length (replicate (unat num - Suc (length s)) (0::cchar))))"
      using assms(2) lt by simp
    ultimately show "cstr_at (write_bytes m dest (take (unat num) s @ replicate (unat num - length s) 0)) dest =
                       Some s"
      using cstr_at_write_bytes_prefix cstr_at_nonzero [OF assms(1)] by metis
  qed
qed (use assms in \<open>rule ms_ncopy_ars_writes\<close>)

theorem ms_ncopy_ars_correct_witness:
  "cstr_at [0 \<mapsto> [104, 105, 0], 1 \<mapsto> [120, 120, 120, 120, 120]] (Ptr 0 0) = Some [104, 105] \<and>
   fits [0 \<mapsto> [104, 105, 0], 1 \<mapsto> [120, 120, 120, 120, 120]] (Ptr 1 0) (unat (4 :: size_t)) \<and>
   separate (Ptr 1 0) (unat (4 :: size_t)) (Ptr 0 0) 3 \<and>
   ms_ncopy_ars [0 \<mapsto> [104, 105, 0], 1 \<mapsto> [120, 120, 120, 120, 120]] (Ptr 1 0) (Ptr 0 0) 4 =
     Inr ([0 \<mapsto> [104, 105, 0], 1 \<mapsto> [104, 105, 0, 0, 120]], Ptr 1 0)"
proof -
  let ?m = "[0 \<mapsto> [104, 105, 0], 1 \<mapsto> [120, 120, 120, 120, 120]] :: mem"
  have h1: "cstr_at ?m (Ptr 0 0) = Some [104, 105]"
    by (simp add: block_str_def)
  have h2: "fits ?m (Ptr 1 0) (unat (4 :: size_t))"
    by simp
  have h3: "separate (Ptr 1 0) (unat (4 :: size_t)) (Ptr 0 0) (Suc (length [104, (105::cchar)]))"
    by simp
  have u: "unat (4 :: size_t) = 4"
    by simp
  have r: "replicate 2 (0 :: cchar) = [0, 0]"
    by (simp add: numeral_2_eq_2)
  show ?thesis
    using h1 h2 h3 ms_ncopy_ars_correct [OF h1 h2 h3] by (simp add: splice_def u r)
qed

subsection \<open>ms_concat and ms_nconcat: appending at the old terminator\<close>

lemma ms_concat_ars_loop_eq:
  "ms_concat_ars_loop m dest dl src i = ms_copy_ars_loop m (ptr_add dest dl) src i"
proof (induction m dest dl src i rule: ms_concat_ars_loop.induct)
  case (1 m dest dl src i)
  show ?case
    using "1.IH"
    by (simp add: ms_concat_ars_loop.simps [of m dest dl src i]
          ms_copy_ars_loop.simps [of m "ptr_add dest dl" src i] bindE_def split: sum.split)
qed

lemma ms_nconcat_ars_loop_eq:
  "ms_nconcat_ars_loop m dest dl src num i = ms_ncopy_ars_loop m (ptr_add dest dl) src num i"
proof (induction m dest dl src num i rule: ms_nconcat_ars_loop.induct)
  case (1 m dest dl src num i)
  show ?case
    using "1.IH"
    by (simp add: ms_nconcat_ars_loop.simps [of m dest dl src num i]
          ms_ncopy_ars_loop.simps [of m "ptr_add dest dl" src num i] bindE_def split: sum.split)
qed

lemma ms_concat_ars_writes:
  assumes "cstr_at m dest = Some d" and "cstr_at m src = Some s" and "size_ok m"
    and "fits m dest (length d + Suc (length s))"
    and "separate (ptr_add dest (length d)) (Suc (length s)) src (Suc (length s))"
  shows "ms_concat_ars m dest src = Inr (write_bytes m (ptr_add dest (length d)) (s @ [0]), dest)"
proof -
  let ?p = "ptr_add dest (length d)"
  have f: "fits m ?p (Suc (length s))"
    using assms(4) by (simp add: fits_ptr_add_iff)
  have loop: "ms_concat_ars_loop m dest (length d) src 0 = Inr (write_bytes m ?p s, length s)"
    using ms_copy_ars_loop_cstr [of m src 0 s ?p] assms(2,5) f
    by (simp add: ms_concat_ars_loop_eq)
  have st: "store (write_bytes m ?p s) (ptr_add dest (length d + length s)) 0 =
              Inr (write_bytes m ?p (s @ [0]))"
    using store_after_write_bytes [OF f] by simp
  show ?thesis
    using ms_length_ars_cstr [OF assms(1)] unat_length_cstr [OF assms(1,3)] loop st
      cstr_at_not_NULL [OF assms(1)] cstr_at_not_NULL [OF assms(2)]
    by (cases dest; cases src) (simp_all add: ms_concat_ars_def)
qed

text \<open>
  C8. With \<open>d\<close> at \<open>dest\<close> and \<open>s\<close> at \<open>src\<close> null-terminated, room for
  \<open>|d| + |s| + 1\<close> units and the appended range apart from the source,
  \<open>ms_concat\<close> writes \<open>s\<close> and a terminator over the old terminator of
  \<open>d\<close>, keeps everything else and returns \<open>dest\<close>: the string at \<open>dest\<close>
  is then \<open>d @ s\<close>, its terminator at position \<open>|d| + |s|\<close>.
\<close>

theorem ms_concat_ars_correct:
  assumes "cstr_at m dest = Some d" and "cstr_at m src = Some s" and "size_ok m"
    and "fits m dest (length d + Suc (length s))"
    and "separate (ptr_add dest (length d)) (Suc (length s)) src (Suc (length s))"
  shows "ms_concat_ars m dest src = Inr (write_bytes m (ptr_add dest (length d)) (s @ [0]), dest) \<and>
         cstr_at (write_bytes m (ptr_add dest (length d)) (s @ [0])) dest = Some (d @ s)"
proof
  show "cstr_at (write_bytes m (ptr_add dest (length d)) (s @ [0])) dest = Some (d @ s)"
    using assms(1,4) cstr_at_nonzero [OF assms(2)] by (rule cstr_at_write_bytes_append)
qed (use assms in \<open>rule ms_concat_ars_writes\<close>)

theorem ms_concat_ars_correct_witness:
  "cstr_at [0 \<mapsto> [116, 104, 105, 115, 0], 1 \<mapsto> [116, 104, 97, 116, 0, 0, 0, 0, 0]] (Ptr 1 0) =
     Some [116, 104, 97, 116] \<and>
   cstr_at [0 \<mapsto> [116, 104, 105, 115, 0], 1 \<mapsto> [116, 104, 97, 116, 0, 0, 0, 0, 0]] (Ptr 0 0) =
     Some [116, 104, 105, 115] \<and>
   size_ok [0 \<mapsto> [116, 104, 105, 115, 0], 1 \<mapsto> [116, 104, 97, 116, 0, 0, 0, 0, 0]] \<and>
   ms_concat_ars [0 \<mapsto> [116, 104, 105, 115, 0], 1 \<mapsto> [116, 104, 97, 116, 0, 0, 0, 0, 0]]
       (Ptr 1 0) (Ptr 0 0) =
     Inr ([0 \<mapsto> [116, 104, 105, 115, 0], 1 \<mapsto> [116, 104, 97, 116, 116, 104, 105, 115, 0]], Ptr 1 0)"
proof -
  let ?m = "[0 \<mapsto> [116, 104, 105, 115, 0], 1 \<mapsto> [116, 104, 97, 116, 0, 0, 0, 0, 0]] :: mem"
  have h1: "cstr_at ?m (Ptr 1 0) = Some [116, 104, 97, 116]"
    by (simp add: block_str_def)
  have h2: "cstr_at ?m (Ptr 0 0) = Some [116, 104, 105, 115]"
    by (simp add: block_str_def)
  have h3: "size_ok ?m"
    by (simp add: size_ok_def)
  have h4: "fits ?m (Ptr 1 0) (length [116, 104, 97, (116::cchar)] + Suc (length [116, 104, 105, (115::cchar)]))"
    by simp
  have h5: "separate (ptr_add (Ptr 1 0) (length [116, 104, 97, (116::cchar)]))
              (Suc (length [116, 104, 105, (115::cchar)])) (Ptr 0 0) (Suc (length [116, 104, 105, (115::cchar)]))"
    by simp
  show ?thesis
    using h1 h2 h3 ms_concat_ars_correct [OF h1 h2 h3 h4 h5] by (simp add: splice_def)
qed

lemma ms_nconcat_ars_writes:
  assumes "cstr_at m dest = Some d" and "cstr_at m src = Some s" and "size_ok m"
    and "fits m dest (length d + Suc (min (length s) (unat num)))"
    and "separate (ptr_add dest (length d)) (Suc (min (length s) (unat num))) src (Suc (length s))"
  shows "ms_nconcat_ars m dest src num =
           Inr (write_bytes m (ptr_add dest (length d)) (take (unat num) s @ [0]), dest)"
proof -
  let ?p = "ptr_add dest (length d)"
  have f: "fits m ?p (Suc (length (take (unat num) s)))"
    using assms(4) by (simp add: fits_ptr_add_iff)
  have loop: "ms_nconcat_ars_loop m dest (length d) src num 0 =
                Inr (write_bytes m ?p (take (unat num) s), min (length s) (unat num))"
    using ms_ncopy_ars_loop_cstr [of m src 0 s num ?p] assms(2,5) f
    by (simp add: ms_nconcat_ars_loop_eq fits_mono separate_mono)
  have st: "store (write_bytes m ?p (take (unat num) s))
              (ptr_add dest (length d + min (length s) (unat num))) 0 =
              Inr (write_bytes m ?p (take (unat num) s @ [0]))"
    using store_after_write_bytes [OF f] by (simp add: min.commute)
  show ?thesis
    using ms_length_ars_cstr [OF assms(1)] unat_length_cstr [OF assms(1,3)] loop st
      cstr_at_not_NULL [OF assms(1)] cstr_at_not_NULL [OF assms(2)]
    by (cases dest; cases src) (simp_all add: ms_nconcat_ars_def)
qed

text \<open>
  C9. Under the same conditions, with room for the first \<open>min |s| num\<close>
  units of \<open>s\<close> and a terminator, \<open>ms_nconcat\<close> appends at most \<open>num\<close>
  units of \<open>s\<close> and always writes a terminator after them: the string at
  \<open>dest\<close> is then \<open>d\<close> followed by the first \<open>num\<close> units of \<open>s\<close>.
\<close>

theorem ms_nconcat_ars_correct:
  assumes "cstr_at m dest = Some d" and "cstr_at m src = Some s" and "size_ok m"
    and "fits m dest (length d + Suc (min (length s) (unat num)))"
    and "separate (ptr_add dest (length d)) (Suc (min (length s) (unat num))) src (Suc (length s))"
  shows "ms_nconcat_ars m dest src num =
           Inr (write_bytes m (ptr_add dest (length d)) (take (unat num) s @ [0]), dest) \<and>
         cstr_at (write_bytes m (ptr_add dest (length d)) (take (unat num) s @ [0])) dest =
           Some (d @ take (unat num) s)"
proof
  have "0 \<notin> set (take (unat num) s)"
    using cstr_at_nonzero [OF assms(2)] in_set_takeD by fastforce
  then show "cstr_at (write_bytes m (ptr_add dest (length d)) (take (unat num) s @ [0])) dest =
               Some (d @ take (unat num) s)"
    using assms(1,4) cstr_at_write_bytes_append [of m dest d "take (unat num) s"] by (simp add: min.commute)
qed (use assms in \<open>rule ms_nconcat_ars_writes\<close>)

theorem ms_nconcat_ars_correct_witness:
  "cstr_at [0 \<mapsto> [116, 104, 105, 115, 0], 1 \<mapsto> [116, 104, 97, 116, 0, 120, 120, 120, 120]] (Ptr 1 0) =
     Some [116, 104, 97, 116] \<and>
   cstr_at [0 \<mapsto> [116, 104, 105, 115, 0], 1 \<mapsto> [116, 104, 97, 116, 0, 120, 120, 120, 120]] (Ptr 0 0) =
     Some [116, 104, 105, 115] \<and>
   size_ok [0 \<mapsto> [116, 104, 105, 115, 0], 1 \<mapsto> [116, 104, 97, 116, 0, 120, 120, 120, 120]] \<and>
   ms_nconcat_ars [0 \<mapsto> [116, 104, 105, 115, 0], 1 \<mapsto> [116, 104, 97, 116, 0, 120, 120, 120, 120]]
       (Ptr 1 0) (Ptr 0 0) 2 =
     Inr ([0 \<mapsto> [116, 104, 105, 115, 0], 1 \<mapsto> [116, 104, 97, 116, 116, 104, 0, 120, 120]], Ptr 1 0)"
proof -
  let ?m = "[0 \<mapsto> [116, 104, 105, 115, 0], 1 \<mapsto> [116, 104, 97, 116, 0, 120, 120, 120, 120]] :: mem"
  have h1: "cstr_at ?m (Ptr 1 0) = Some [116, 104, 97, 116]"
    by (simp add: block_str_def)
  have h2: "cstr_at ?m (Ptr 0 0) = Some [116, 104, 105, 115]"
    by (simp add: block_str_def)
  have h3: "size_ok ?m"
    by (simp add: size_ok_def)
  have h4: "fits ?m (Ptr 1 0) (length [116, 104, 97, (116::cchar)] +
              Suc (min (length [116, 104, 105, (115::cchar)]) (unat (2 :: size_t))))"
    by simp
  have h5: "separate (ptr_add (Ptr 1 0) (length [116, 104, 97, (116::cchar)]))
              (Suc (min (length [116, 104, 105, (115::cchar)]) (unat (2 :: size_t))))
              (Ptr 0 0) (Suc (length [116, 104, 105, (115::cchar)]))"
    by simp
  show ?thesis
    using h1 h2 h3 ms_nconcat_ars_correct [OF h1 h2 h3 h4 h5] by (simp add: splice_def)
qed

subsection \<open>ms_ncopy and ms_nconcat on an unterminated source\<close>

text \<open>
  The header lets the source of \<open>ms_ncopy\<close> and \<open>ms_nconcat\<close> lack a
  terminator when it is longer than \<open>num\<close>: the loops then stop at
  \<open>i = num\<close>, after reading \<open>src[num]\<close>, which lies inside the array.
\<close>

lemma ms_ncopy_ars_loop_units:
  "units m (ptr_add src i) (Suc (unat num - i)) = Some ys \<Longrightarrow> 0 \<notin> set (take (unat num - i) ys) \<Longrightarrow>
   i \<le> unat num \<Longrightarrow> fits m (ptr_add dest i) (unat num - i) \<Longrightarrow>
   separate (ptr_add dest i) (unat num - i) (ptr_add src i) (Suc (unat num - i)) \<Longrightarrow>
   ms_ncopy_ars_loop m dest src num i =
     Inr (write_bytes m (ptr_add dest i) (take (unat num - i) ys), unat num)"
proof (induction "unat num - i" arbitrary: m i ys)
  case 0
  then have i: "i = unat num" by simp
  then obtain c where "ys = [c]"
    using "0.prems"(1) units_length [OF "0.prems"(1)] by (cases ys) auto
  with "0.prems"(1) have "load m (ptr_add src (unat num)) = Inr c"
    using i units_Suc [of m "ptr_add src i" 0 c "[]"] by simp
  then show ?case
    using i by (simp add: ms_ncopy_ars_loop.simps [of m dest src num "unat num"])
next
  case (Suc k)
  then have lt: "i < unat num" and k: "unat num - i = Suc k" and k2: "unat num - Suc i = k"
    by simp_all
  obtain c ys' where ys: "ys = c # ys'"
    using units_length [OF Suc.prems(1)] by (cases ys) auto
  from Suc.prems(1) have ld: "load m (ptr_add src i) = Inr c"
    and rest: "units m (ptr_add src (Suc i)) (Suc k) = Some ys'"
    unfolding k ys units_Suc by simp_all
  have c: "c \<noteq> 0"
    using Suc.prems(2) unfolding k ys by simp
  have ne: "of_nat i \<noteq> num"
    using lt of_nat_eq_size_t_iff [of i num] by simp
  let ?m1 = "write_bytes m (ptr_add dest i) [c]"
  have st: "store m (ptr_add dest i) c = Inr ?m1"
    using Suc.prems(4) k by (intro store_write_bytes) (simp add: fits_mono)
  have sep: "separate (ptr_add dest i) (Suc k) (ptr_add src i) (Suc (Suc k))"
    using Suc.prems(5) k by simp
  have "units ?m1 (ptr_add src (Suc i)) (Suc (unat num - Suc i)) = Some ys'"
    using units_write_bytes_other [of "ptr_add dest i" "[c]" "ptr_add src (Suc i)" "Suc k" m]
      separate_step(2) [OF sep] rest k2 by simp
  moreover have "0 \<notin> set (take (unat num - Suc i) ys')"
    using Suc.prems(2) unfolding k k2 ys by simp
  moreover have "fits ?m1 (ptr_add dest (Suc i)) (unat num - Suc i)"
    using Suc.prems(4) k k2 by (simp add: fits_ptr_add_iff)
  moreover have "separate (ptr_add dest (Suc i)) (unat num - Suc i) (ptr_add src (Suc i))
                   (Suc (unat num - Suc i))"
    using separate_step(1) [OF sep] k2 by simp
  ultimately have "ms_ncopy_ars_loop ?m1 dest src num (Suc i) =
      Inr (write_bytes ?m1 (ptr_add dest (Suc i)) (take (unat num - Suc i) ys'), unat num)"
    using Suc.hyps(1) [of "Suc i"] k2 lt by simp
  moreover have "write_bytes ?m1 (ptr_add dest (Suc i)) (take (unat num - Suc i) ys') =
      write_bytes m (ptr_add dest i) (take (unat num - i) ys)"
    using write_bytes_append [of m "ptr_add dest i" "[c]" "take k ys'"] Suc.prems(4) k
      units_length [OF rest] by (simp add: ys k2)
  ultimately show ?case
    using ld st ne c by (simp add: ms_ncopy_ars_loop.simps [of m dest src num i])
qed

lemma ms_ncopy_ars_units:
  assumes "units m src (Suc (unat num)) = Some ys" and "0 \<notin> set (take (unat num) ys)"
    and "fits m dest (unat num)" and "separate dest (unat num) src (Suc (unat num))"
  shows "ms_ncopy_ars m dest src num = Inr (write_bytes m dest (take (unat num) ys), dest)"
proof -
  have loop: "ms_ncopy_ars_loop m dest src num 0 = Inr (write_bytes m dest (take (unat num) ys), unat num)"
    using ms_ncopy_ars_loop_units [of m src 0 num ys dest] assms by simp
  have nn: "src \<noteq> NULL" "dest \<noteq> NULL"
    using assms(1) assms(3) by (cases src, simp_all) (cases dest, simp_all)
  show ?thesis
    using loop nn by (cases dest; cases src)
      (simp_all add: ms_ncopy_ars_def ms_ncopy_ars_pad.simps)
qed

lemma ms_nconcat_ars_units:
  assumes "cstr_at m dest = Some d" and "size_ok m"
    and "units m src (Suc (unat num)) = Some ys" and "0 \<notin> set (take (unat num) ys)"
    and "fits m dest (length d + Suc (unat num))"
    and "separate (ptr_add dest (length d)) (Suc (unat num)) src (Suc (unat num))"
  shows "ms_nconcat_ars m dest src num =
           Inr (write_bytes m (ptr_add dest (length d)) (take (unat num) ys @ [0]), dest)"
proof -
  let ?p = "ptr_add dest (length d)"
  have len: "length (take (unat num) ys) = unat num"
    using units_length [OF assms(3)] by simp
  have f: "fits m ?p (Suc (length (take (unat num) ys)))"
    using assms(5) len by (simp add: fits_ptr_add_iff)
  have loop: "ms_nconcat_ars_loop m dest (length d) src num 0 =
                Inr (write_bytes m ?p (take (unat num) ys), unat num)"
    using ms_ncopy_ars_loop_units [of m src 0 num ys ?p] assms(3,4,6) f len
    by (simp add: ms_nconcat_ars_loop_eq fits_mono separate_mono)
  have st: "store (write_bytes m ?p (take (unat num) ys)) (ptr_add dest (length d + unat num)) 0 =
              Inr (write_bytes m ?p (take (unat num) ys @ [0]))"
    using store_after_write_bytes [OF f] len by simp
  have nn: "src \<noteq> NULL"
    using assms(3) by (cases src) simp_all
  show ?thesis
    using ms_length_ars_cstr [OF assms(1)] unat_length_cstr [OF assms(1,2)] loop st
      cstr_at_not_NULL [OF assms(1)] nn
    by (cases dest; cases src) (simp_all add: ms_nconcat_ars_def)
qed

text \<open>
  C19. When the first \<open>num\<close> units of the source are nonzero and the
  array holds at least \<open>num + 1\<close> units, \<open>ms_ncopy\<close> copies exactly those
  \<open>num\<close> units and writes no terminator: the destination then holds no
  zero among its first \<open>num\<close> units, as the header warns.
\<close>

theorem ms_ncopy_ars_unterminated_src:
  assumes "units m src (Suc (unat num)) = Some ys" and "0 \<notin> set (take (unat num) ys)"
    and "fits m dest (unat num)" and "separate dest (unat num) src (Suc (unat num))"
  shows "ms_ncopy_ars m dest src num = Inr (write_bytes m dest (take (unat num) ys), dest) \<and>
         (\<forall>k < unat num. load (write_bytes m dest (take (unat num) ys)) (ptr_add dest k) = Inr (ys ! k) \<and>
                         ys ! k \<noteq> 0)"
proof
  have len: "length ys = Suc (unat num)"
    using units_length [OF assms(1)] .
  show "\<forall>k < unat num. load (write_bytes m dest (take (unat num) ys)) (ptr_add dest k) = Inr (ys ! k) \<and>
                       ys ! k \<noteq> 0"
  proof (intro allI impI conjI)
    fix k
    assume k: "k < unat num"
    show "load (write_bytes m dest (take (unat num) ys)) (ptr_add dest k) = Inr (ys ! k)"
      using load_write_bytes_same [of m dest "take (unat num) ys" k] assms(3) len k by simp
    have "take (unat num) ys ! k \<in> set (take (unat num) ys)"
      using k len by (intro nth_mem) simp
    then show "ys ! k \<noteq> 0"
      using assms(2) k by auto
  qed
qed (use assms in \<open>rule ms_ncopy_ars_units\<close>)

theorem ms_ncopy_ars_unterminated_src_witness:
  "units [0 \<mapsto> [116, 104, 105, 115], 1 \<mapsto> [0, 0, 0]] (Ptr 0 0) (Suc (unat (3 :: size_t))) =
     Some [116, 104, 105, 115] \<and>
   ms_ncopy_ars [0 \<mapsto> [116, 104, 105, 115], 1 \<mapsto> [0, 0, 0]] (Ptr 1 0) (Ptr 0 0) 3 =
     Inr ([0 \<mapsto> [116, 104, 105, 115], 1 \<mapsto> [116, 104, 105]], Ptr 1 0)"
proof -
  let ?m = "[0 \<mapsto> [116, 104, 105, 115], 1 \<mapsto> [0, 0, 0]] :: mem"
  have u: "unat (3 :: size_t) = 3"
    by simp
  have h1: "units ?m (Ptr 0 0) (Suc (unat (3 :: size_t))) = Some [116, 104, 105, 115]"
    by (simp add: u)
  have h2: "0 \<notin> set (take (unat (3 :: size_t)) [116, 104, 105, (115 :: cchar)])"
    by (simp add: u)
  have h3: "fits ?m (Ptr 1 0) (unat (3 :: size_t))" and h4: "separate (Ptr 1 0) (unat (3 :: size_t)) (Ptr 0 0) (Suc (unat (3 :: size_t)))"
    by (simp_all add: u)
  show ?thesis
    using h1 ms_ncopy_ars_unterminated_src [OF h1 h2 h3 h4] by (simp add: u splice_def)
qed

subsection \<open>ms_compare and ms_ncompare: the difference at the first mismatch\<close>

lemma ms_compare_ars_loop_cstr:
  "cstr_at m (ptr_add str1 i) = Some x \<Longrightarrow> cstr_at m (ptr_add str2 i) = Some y \<Longrightarrow>
   ms_compare_ars_loop m str1 str2 i = Inr (cmp_ref x y)"
proof (induction x arbitrary: y i)
  case Nil
  then show ?case
    by (cases y) (simp_all add: ms_compare_ars_loop.simps [of m str1 str2 i]
                    cstr_at_Nil_iff cstr_at_Cons_iff)
next
  case (Cons c xs)
  show ?case
  proof (cases y)
    case Nil
    with Cons.prems show ?thesis
      by (simp add: ms_compare_ars_loop.simps [of m str1 str2 i] cstr_at_Nil_iff cstr_at_Cons_iff)
  next
    case (Cons d ys)
    with Cons.prems have "load m (ptr_add str1 i) = Inr c" "c \<noteq> 0"
      "load m (ptr_add str2 i) = Inr d" "d \<noteq> 0"
      "cstr_at m (ptr_add str1 (Suc i)) = Some xs" "cstr_at m (ptr_add str2 (Suc i)) = Some ys"
      by (simp_all add: cstr_at_Cons_iff)
    with Cons Cons.IH show ?thesis
      by (simp add: ms_compare_ars_loop.simps [of m str1 str2 i])
  qed
qed

lemma ms_ncompare_ars_loop_cstr:
  "cstr_at m (ptr_add str1 i) = Some x \<Longrightarrow> cstr_at m (ptr_add str2 i) = Some y \<Longrightarrow>
   i \<le> unat num \<Longrightarrow>
   ms_ncompare_ars_loop m str1 str2 num i =
     Inr (cmp_ref (take (unat num - i) x) (take (unat num - i) y))"
proof (induction x arbitrary: y i)
  case Nil
  show ?case
  proof (cases "i = unat num")
    case True
    then have "of_nat i = num" "unat num - i = 0" by simp_all
    with Nil.prems show ?thesis
      by (simp add: ms_ncompare_ars_loop.simps [of m str1 str2 num i] cstr_at_Nil_iff)
  next
    case False
    with Nil.prems(3) have "of_nat i \<noteq> num" "unat num - i = Suc (unat num - Suc i)"
      using of_nat_eq_size_t_iff [of i num] by simp_all
    with Nil.prems show ?thesis
      by (cases y) (simp_all add: ms_ncompare_ars_loop.simps [of m str1 str2 num i]
                      cstr_at_Nil_iff cstr_at_Cons_iff)
  qed
next
  case (Cons c xs)
  show ?case
  proof (cases "i = unat num")
    case True
    then have "of_nat i = num" "unat num - i = 0" by simp_all
    with Cons.prems show ?thesis
      by (cases y) (simp_all add: ms_ncompare_ars_loop.simps [of m str1 str2 num i]
                      cstr_at_Nil_iff cstr_at_Cons_iff)
  next
    case False
    with Cons.prems(3) have ne: "of_nat i \<noteq> num" and r: "unat num - i = Suc (unat num - Suc i)"
      and le: "Suc i \<le> unat num"
      using of_nat_eq_size_t_iff [of i num] by simp_all
    show ?thesis
    proof (cases y)
      case Nil
      with Cons.prems ne r show ?thesis
        by (simp add: ms_ncompare_ars_loop.simps [of m str1 str2 num i] cstr_at_Nil_iff cstr_at_Cons_iff)
    next
      case (Cons d ys)
      with Cons.prems have "load m (ptr_add str1 i) = Inr c" "c \<noteq> 0"
        "load m (ptr_add str2 i) = Inr d" "d \<noteq> 0"
        "cstr_at m (ptr_add str1 (Suc i)) = Some xs" "cstr_at m (ptr_add str2 (Suc i)) = Some ys"
        by (simp_all add: cstr_at_Cons_iff)
      with Cons Cons.IH [OF _ _ le] ne r show ?thesis
        by (simp add: ms_ncompare_ars_loop.simps [of m str1 str2 num i])
    qed
  qed
qed

lemma ms_compare_ars_cstr:
  "cstr_at m str1 = Some x \<Longrightarrow> cstr_at m str2 = Some y \<Longrightarrow>
   ms_compare_ars m str1 str2 = Inr (cmp_ref x y)"
  using ms_compare_ars_loop_cstr [of m str1 0 x str2 y]
  by (cases str1; cases str2) (simp_all add: ms_compare_ars_def)

lemma ms_ncompare_ars_cstr:
  "cstr_at m str1 = Some x \<Longrightarrow> cstr_at m str2 = Some y \<Longrightarrow>
   ms_ncompare_ars m str1 str2 num = Inr (cmp_ref (take (unat num) x) (take (unat num) y))"
  using ms_ncompare_ars_loop_cstr [of m str1 0 x str2 y num]
  by (cases str1; cases str2) (simp_all add: ms_ncompare_ars_def)

text \<open>
  C10. On two null-terminated strings \<open>ms_compare\<close> returns the difference,
  as C ints of the platform's signed \<open>char\<close>, of the units at the first
  position where the strings differ (the terminator counting as 0). The
  result is 0 exactly when the strings are equal, and negative exactly when
  \<open>str1\<close> with its terminator precedes \<open>str2\<close> with its terminator in the
  lexicographic order of the units read as signed \<open>char\<close>s: the order
  the header's "< 0 if str1 < str2" means on this platform.
\<close>

theorem ms_compare_ars_correct:
  assumes "cstr_at m str1 = Some x" and "cstr_at m str2 = Some y"
  shows "ms_compare_ars m str1 str2 = Inr (cmp_ref x y) \<and> (cmp_ref x y = 0 \<longleftrightarrow> x = y) \<and>
         (cmp_ref x y < 0 \<longleftrightarrow> map char_int (x @ [0]) < map char_int (y @ [0]))"
  using ms_compare_ars_cstr [OF assms] cmp_ref_eq_0_iff cmp_ref_neg_iff
    cstr_at_nonzero [OF assms(1)] cstr_at_nonzero [OF assms(2)]
  by simp

theorem ms_compare_ars_correct_witness:
  "cstr_at [0 \<mapsto> [116, 104, 105, 115, 0], 1 \<mapsto> [116, 104, 97, 116, 0]] (Ptr 0 0) = Some [116, 104, 105, 115] \<and>
   cstr_at [0 \<mapsto> [116, 104, 105, 115, 0], 1 \<mapsto> [116, 104, 97, 116, 0]] (Ptr 1 0) = Some [116, 104, 97, 116] \<and>
   ms_compare_ars [0 \<mapsto> [116, 104, 105, 115, 0], 1 \<mapsto> [116, 104, 97, 116, 0]] (Ptr 0 0) (Ptr 1 0) = Inr 8"
proof -
  let ?m = "[0 \<mapsto> [116, 104, 105, 115, 0], 1 \<mapsto> [116, 104, 97, 116, 0]] :: mem"
  have h1: "cstr_at ?m (Ptr 0 0) = Some [116, 104, 105, 115]"
    by (simp add: block_str_def)
  have h2: "cstr_at ?m (Ptr 1 0) = Some [116, 104, 97, 116]"
    by (simp add: block_str_def)
  show ?thesis
    using h1 h2 ms_compare_ars_correct [OF h1 h2] by (simp add: char_int_def)
qed

text \<open>
  C11. On two null-terminated strings \<open>ms_ncompare\<close> with bound \<open>num\<close>
  returns the comparison of the first \<open>num\<close> units of each: 0 exactly
  when they agree, regardless of what follows.
\<close>

theorem ms_ncompare_ars_correct:
  assumes "cstr_at m str1 = Some x" and "cstr_at m str2 = Some y"
  shows "ms_ncompare_ars m str1 str2 num = Inr (cmp_ref (take (unat num) x) (take (unat num) y)) \<and>
         (cmp_ref (take (unat num) x) (take (unat num) y) = 0 \<longleftrightarrow> take (unat num) x = take (unat num) y)"
proof
  have "0 \<notin> set (take (unat num) x)" and "0 \<notin> set (take (unat num) y)"
    using cstr_at_nonzero [OF assms(1)] cstr_at_nonzero [OF assms(2)] by (auto dest: in_set_takeD)
  then show "cmp_ref (take (unat num) x) (take (unat num) y) = 0 \<longleftrightarrow> take (unat num) x = take (unat num) y"
    by (rule cmp_ref_eq_0_iff)
qed (use assms in \<open>rule ms_ncompare_ars_cstr\<close>)

theorem ms_ncompare_ars_correct_witness:
  "cstr_at [0 \<mapsto> [116, 104, 105, 115, 0], 1 \<mapsto> [116, 104, 105, 110, 0]] (Ptr 0 0) = Some [116, 104, 105, 115] \<and>
   cstr_at [0 \<mapsto> [116, 104, 105, 115, 0], 1 \<mapsto> [116, 104, 105, 110, 0]] (Ptr 1 0) = Some [116, 104, 105, 110] \<and>
   ms_ncompare_ars [0 \<mapsto> [116, 104, 105, 115, 0], 1 \<mapsto> [116, 104, 105, 110, 0]] (Ptr 0 0) (Ptr 1 0) 3 = Inr 0"
proof -
  let ?m = "[0 \<mapsto> [116, 104, 105, 115, 0], 1 \<mapsto> [116, 104, 105, 110, 0]] :: mem"
  have h1: "cstr_at ?m (Ptr 0 0) = Some [116, 104, 105, 115]"
    by (simp add: block_str_def)
  have h2: "cstr_at ?m (Ptr 1 0) = Some [116, 104, 105, 110]"
    by (simp add: block_str_def)
  show ?thesis
    using h1 h2 ms_ncompare_ars_correct [OF h1 h2, of 3] by simp
qed

subsection \<open>The only assertion failures are the NULL checks\<close>

text \<open>
  No loop of the module runs an \<open>assert\<close>: a loop ends in a value or in
  an access outside a block, never in \<open>Assert_fail\<close>.
\<close>

lemma ms_length_ars_loop_no_assert: "ms_length_ars_loop m s i \<noteq> Inl Assert_fail"
proof (induction m s i rule: ms_length_ars_loop.induct)
  case (1 m s i)
  then show ?case
    by (subst ms_length_ars_loop.simps) (auto simp: bindE_def dest: load_Inl split: sum.split)
qed

lemma ms_copy_ars_loop_no_assert: "ms_copy_ars_loop m d s i \<noteq> Inl Assert_fail"
proof (induction m d s i rule: ms_copy_ars_loop.induct)
  case (1 m d s i)
  then show ?case
    by (subst ms_copy_ars_loop.simps) (auto simp: bindE_def dest: load_Inl store_Inl split: sum.split)
qed

lemma ms_ncopy_ars_loop_no_assert: "ms_ncopy_ars_loop m d s num i \<noteq> Inl Assert_fail"
proof (induction m d s num i rule: ms_ncopy_ars_loop.induct)
  case (1 m d s num i)
  then show ?case
    by (subst ms_ncopy_ars_loop.simps) (auto simp: bindE_def dest: load_Inl store_Inl split: sum.split)
qed

lemma ms_ncopy_ars_pad_no_assert: "ms_ncopy_ars_pad m d num i \<noteq> Inl Assert_fail"
proof (induction m d num i rule: ms_ncopy_ars_pad.induct)
  case (1 m d num i)
  then show ?case
    by (subst ms_ncopy_ars_pad.simps) (auto simp: bindE_def dest: store_Inl split: sum.split)
qed

lemma ms_concat_ars_loop_no_assert: "ms_concat_ars_loop m d dl s i \<noteq> Inl Assert_fail"
proof (induction m d dl s i rule: ms_concat_ars_loop.induct)
  case (1 m d dl s i)
  then show ?case
    by (subst ms_concat_ars_loop.simps) (auto simp: bindE_def dest: load_Inl store_Inl split: sum.split)
qed

lemma ms_nconcat_ars_loop_no_assert: "ms_nconcat_ars_loop m d dl s num i \<noteq> Inl Assert_fail"
proof (induction m d dl s num i rule: ms_nconcat_ars_loop.induct)
  case (1 m d dl s num i)
  then show ?case
    by (subst ms_nconcat_ars_loop.simps) (auto simp: bindE_def dest: load_Inl store_Inl split: sum.split)
qed

lemma ms_compare_ars_loop_no_assert: "ms_compare_ars_loop m a b i \<noteq> Inl Assert_fail"
proof (induction m a b i rule: ms_compare_ars_loop.induct)
  case (1 m a b i)
  then show ?case
    by (subst ms_compare_ars_loop.simps) (auto simp: bindE_def dest: load_Inl split: sum.split)
qed

lemma ms_ncompare_ars_loop_no_assert: "ms_ncompare_ars_loop m a b num i \<noteq> Inl Assert_fail"
proof (induction m a b num i rule: ms_ncompare_ars_loop.induct)
  case (1 m a b num i)
  then show ?case
    by (subst ms_ncompare_ars_loop.simps) (auto simp: bindE_def dest: load_Inl split: sum.split)
qed

lemma ms_search_ars_outer_no_assert: "ms_search_ars_outer m h n l nl i \<noteq> Inl Assert_fail"
proof (induction m h n l nl i rule: ms_search_ars_outer.induct)
  case (1 m h n l nl i)
  have inner: "ms_search_ars_inner m h n nl i j \<noteq> Inl Assert_fail" for j
  proof (induction m h n nl i j rule: ms_search_ars_inner.induct)
    case (1 m h n nl i j)
    then show ?case
      by (subst ms_search_ars_inner.simps) (auto simp: bindE_def dest: load_Inl split: sum.split)
  qed
  show ?case
    using 1 inner by (subst ms_search_ars_outer.simps) (auto simp: bindE_def split: sum.split)
qed

lemma ms_length_ars_no_assert: "ms_length_ars m s = Inl Assert_fail \<longleftrightarrow> s = NULL"
  using ms_length_ars_loop_no_assert [of m s 0]
  by (cases s) (auto simp: ms_length_ars_def bindE_def split: sum.split)

lemmas ms_ars_loops_no_assert =
  ms_length_ars_loop_no_assert ms_copy_ars_loop_no_assert ms_ncopy_ars_loop_no_assert
  ms_ncopy_ars_pad_no_assert ms_concat_ars_loop_no_assert ms_nconcat_ars_loop_no_assert
  ms_compare_ars_loop_no_assert ms_ncompare_ars_loop_no_assert ms_search_ars_outer_no_assert

subsection \<open>No operation allocates or frees\<close>

lemma ms_copy_ars_loop_shape: "ms_copy_ars_loop m d s i = Inr (m', k) \<Longrightarrow> same_shape m m'"
proof (induction m d s i rule: ms_copy_ars_loop.induct)
  case (1 m d s i)
  then show ?case
    by (subst (asm) ms_copy_ars_loop.simps)
       (auto simp: bindE_eq_Inr split: if_splits intro: same_shape_trans store_same_shape)
qed

lemma ms_ncopy_ars_loop_shape: "ms_ncopy_ars_loop m d s num i = Inr (m', k) \<Longrightarrow> same_shape m m'"
proof (induction m d s num i rule: ms_ncopy_ars_loop.induct)
  case (1 m d s num i)
  then show ?case
    by (subst (asm) ms_ncopy_ars_loop.simps)
       (auto simp: bindE_eq_Inr split: if_splits intro: same_shape_trans store_same_shape)
qed

lemma ms_ncopy_ars_pad_shape: "ms_ncopy_ars_pad m d num i = Inr m' \<Longrightarrow> same_shape m m'"
proof (induction m d num i rule: ms_ncopy_ars_pad.induct)
  case (1 m d num i)
  then show ?case
    by (subst (asm) ms_ncopy_ars_pad.simps)
       (auto simp: bindE_eq_Inr split: if_splits intro: same_shape_trans store_same_shape)
qed

lemma ms_concat_ars_loop_shape: "ms_concat_ars_loop m d dl s i = Inr (m', k) \<Longrightarrow> same_shape m m'"
proof (induction m d dl s i rule: ms_concat_ars_loop.induct)
  case (1 m d dl s i)
  then show ?case
    by (subst (asm) ms_concat_ars_loop.simps)
       (auto simp: bindE_eq_Inr split: if_splits intro: same_shape_trans store_same_shape)
qed

lemma ms_nconcat_ars_loop_shape: "ms_nconcat_ars_loop m d dl s num i = Inr (m', k) \<Longrightarrow> same_shape m m'"
proof (induction m d dl s num i rule: ms_nconcat_ars_loop.induct)
  case (1 m d dl s num i)
  then show ?case
    by (subst (asm) ms_nconcat_ars_loop.simps)
       (auto simp: bindE_eq_Inr split: if_splits intro: same_shape_trans store_same_shape)
qed

lemma ms_copy_ars_shape: "ms_copy_ars m d s = Inr (m', p) \<Longrightarrow> same_shape m m'"
  by (auto simp: ms_copy_ars_def bindE_eq_Inr split: prod.splits
           dest!: ms_copy_ars_loop_shape store_same_shape intro: same_shape_trans)

lemma ms_ncopy_ars_shape: "ms_ncopy_ars m d s n = Inr (m', p) \<Longrightarrow> same_shape m m'"
  by (auto simp: ms_ncopy_ars_def bindE_eq_Inr split: prod.splits
           dest!: ms_ncopy_ars_loop_shape ms_ncopy_ars_pad_shape intro: same_shape_trans)

lemma ms_concat_ars_shape: "ms_concat_ars m d s = Inr (m', p) \<Longrightarrow> same_shape m m'"
  by (auto simp: ms_concat_ars_def bindE_eq_Inr split: prod.splits
           dest!: ms_concat_ars_loop_shape store_same_shape intro: same_shape_trans)

lemma ms_nconcat_ars_shape: "ms_nconcat_ars m d s n = Inr (m', p) \<Longrightarrow> same_shape m m'"
  by (auto simp: ms_nconcat_ars_def bindE_eq_Inr split: prod.splits
           dest!: ms_nconcat_ars_loop_shape store_same_shape intro: same_shape_trans)

subsection \<open>Bounded loops on an unterminated array of exactly num units\<close>

text \<open>
  The loop tests of \<open>ms_ncopy\<close> and \<open>ms_ncompare\<close> read the unit at index
  \<open>i\<close> before comparing \<open>i\<close> with \<open>num\<close>; on an array of exactly \<open>num\<close>
  nonzero units they reach index \<open>num\<close>, past the array.
\<close>

lemma ms_ncopy_ars_loop_unterminated:
  assumes "m b = Some xs" and "0 \<notin> set xs" and "length xs < 2 ^ LENGTH(64)"
    and "m c = Some ys" and "c \<noteq> b" and "length xs \<le> length ys" and "i \<le> length xs"
  shows "ms_ncopy_ars_loop m (Ptr c 0) (Ptr b 0) (of_nat (length xs)) i = Inl Invalid_access"
  using assms
proof (induction "length xs - i" arbitrary: m ys i)
  case 0
  then have "i = length xs" by simp
  with 0 show ?case
    by (simp add: ms_ncopy_ars_loop.simps [of m "Ptr c 0" "Ptr b 0" _ "length xs"])
next
  case (Suc k)
  then have lt: "i < length xs" by simp
  have ne: "of_nat i \<noteq> (of_nat (length xs) :: size_t)"
  proof
    assume "of_nat i = (of_nat (length xs) :: size_t)"
    then have "unat (of_nat i :: size_t) = unat (of_nat (length xs) :: size_t)" by simp
    with lt Suc.prems(3) show False
      by (simp add: unat_of_nat_size_t)
  qed
  have x: "xs ! i \<noteq> 0"
    using Suc.prems(2) lt nth_mem by fastforce
  have "ms_ncopy_ars_loop (m(c \<mapsto> ys[i := xs ! i])) (Ptr c 0) (Ptr b 0) (of_nat (length xs)) (Suc i) =
          Inl Invalid_access"
    using Suc.hyps(1) [of "Suc i" "m(c \<mapsto> ys[i := xs ! i])" "ys[i := xs ! i]"] Suc.hyps(2) Suc.prems lt
    by simp
  then show ?case
    using Suc.prems lt ne x
    by (simp add: ms_ncopy_ars_loop.simps [of m "Ptr c 0" "Ptr b 0" _ i])
qed

lemma ms_ncompare_ars_loop_unterminated:
  assumes "m b = Some xs" and "0 \<notin> set xs" and "length xs < 2 ^ LENGTH(64)" and "i \<le> length xs"
  shows "ms_ncompare_ars_loop m (Ptr b 0) (Ptr b 0) (of_nat (length xs)) i = Inl Invalid_access"
  using assms
proof (induction "length xs - i" arbitrary: i)
  case 0
  then have "i = length xs" by simp
  with 0 show ?case
    by (simp add: ms_ncompare_ars_loop.simps [of m "Ptr b 0" "Ptr b 0" _ "length xs"])
next
  case (Suc k)
  then have lt: "i < length xs" by simp
  have ne: "of_nat i \<noteq> (of_nat (length xs) :: size_t)"
  proof
    assume "of_nat i = (of_nat (length xs) :: size_t)"
    then have "unat (of_nat i :: size_t) = unat (of_nat (length xs) :: size_t)" by simp
    with lt Suc.prems(3) show False
      by (simp add: unat_of_nat_size_t)
  qed
  have x: "xs ! i \<noteq> 0"
    using Suc.prems(2) lt nth_mem by fastforce
  show ?case
    using Suc.hyps(1) [of "Suc i"] Suc.hyps(2) Suc.prems lt ne x
    by (simp add: ms_ncompare_ars_loop.simps [of m "Ptr b 0" "Ptr b 0" _ i])
qed

subsection \<open>ms_copy onto an overlapping destination\<close>

text \<open>
  With \<open>dest = src + 1\<close> each store overwrites the unit the next load
  reads, so the first unit is smeared over the block and the terminator is
  never found.
\<close>

lemma ms_copy_ars_loop_smear:
  assumes "m b = Some (replicate (Suc i) c @ drop (Suc i) xs)" and "c \<noteq> 0" and "i < length xs"
  shows "ms_copy_ars_loop m (Ptr b 1) (Ptr b 0) i = Inl Invalid_access"
  using assms
proof (induction "length xs - i" arbitrary: m i)
  case 0
  then show ?case by simp
next
  case (Suc k)
  have "(replicate (Suc i) c @ drop (Suc i) xs) ! i = c"
    by (simp add: nth_append del: replicate.simps)
  then have ld: "load m (ptr_add (Ptr b 0) i) = Inr c"
    using Suc.prems(1,3) by (simp del: replicate.simps)
  show ?case
  proof (cases "Suc i < length xs")
    case True
    let ?m' = "m(b \<mapsto> (replicate (Suc i) c @ drop (Suc i) xs)[Suc i := c])"
    have st: "store m (ptr_add (Ptr b 1) i) c = Inr ?m'"
      using Suc.prems(1) True by simp
    have "(replicate (Suc i) c @ drop (Suc i) xs)[Suc i := c] = replicate (Suc (Suc i)) c @ drop (Suc (Suc i)) xs"
      using True by (simp add: list_update_append Cons_nth_drop_Suc [symmetric] replicate_append_same [symmetric])
    then have "ms_copy_ars_loop ?m' (Ptr b 1) (Ptr b 0) (Suc i) = Inl Invalid_access"
      using Suc.hyps Suc.prems(2) True by simp
    then show ?thesis
      using ld st Suc.prems(2) by (subst ms_copy_ars_loop.simps) simp
  next
    case False
    then have "store m (ptr_add (Ptr b 1) i) c = Inl Invalid_access"
      using Suc.prems(1,3) by simp
    then show ?thesis
      using ld Suc.prems(2) by (subst ms_copy_ars_loop.simps) simp
  qed
qed

subsection \<open>ms_ncompare with a bound past both strings is ms_compare\<close>

text \<open>
  C18. When both strings are shorter than the bound, \<open>ms_ncompare\<close> returns
  what \<open>ms_compare\<close> returns.
\<close>

theorem ms_ncompare_ars_agrees_compare:
  assumes "cstr_at m str1 = Some x" and "cstr_at m str2 = Some y"
    and "length x < unat num" and "length y < unat num"
  shows "ms_ncompare_ars m str1 str2 num = ms_compare_ars m str1 str2"
  using ms_ncompare_ars_loop_cstr [of m str1 0 x str2 y num] ms_compare_ars_loop_cstr [of m str1 0 x str2 y] assms
  by (cases str1; cases str2) (simp_all add: ms_ncompare_ars_def ms_compare_ars_def)

theorem ms_ncompare_ars_agrees_compare_witness:
  "cstr_at [0 \<mapsto> [116, 104, 105, 115, 0], 1 \<mapsto> [116, 104, 97, 116, 0]] (Ptr 0 0) = Some [116, 104, 105, 115] \<and>
   cstr_at [0 \<mapsto> [116, 104, 105, 115, 0], 1 \<mapsto> [116, 104, 97, 116, 0]] (Ptr 1 0) = Some [116, 104, 97, 116] \<and>
   ms_ncompare_ars [0 \<mapsto> [116, 104, 105, 115, 0], 1 \<mapsto> [116, 104, 97, 116, 0]] (Ptr 0 0) (Ptr 1 0) 10 =
     ms_compare_ars [0 \<mapsto> [116, 104, 105, 115, 0], 1 \<mapsto> [116, 104, 97, 116, 0]] (Ptr 0 0) (Ptr 1 0)"
proof -
  let ?m = "[0 \<mapsto> [116, 104, 105, 115, 0], 1 \<mapsto> [116, 104, 97, 116, 0]] :: mem"
  have h1: "cstr_at ?m (Ptr 0 0) = Some [116, 104, 105, 115]"
    by (simp add: block_str_def)
  have h2: "cstr_at ?m (Ptr 1 0) = Some [116, 104, 97, 116]"
    by (simp add: block_str_def)
  have h3: "length [116, 104, 105, (115::cchar)] < unat (10 :: size_t)"
    and h4: "length [116, 104, 97, (116::cchar)] < unat (10 :: size_t)"
    by simp_all
  show ?thesis
    using h1 h2 ms_ncompare_ars_agrees_compare [OF h1 h2 h3 h4] by simp
qed

subsection \<open>A copy reads back as its source\<close>

text \<open>
  C17. After \<open>ms_copy(dest, src)\<close> on a null-terminated source with room
  at \<open>dest\<close> and no overlap, \<open>ms_length(dest)\<close> equals \<open>ms_length(src)\<close>
  and \<open>ms_compare(dest, src)\<close> is 0.
\<close>

theorem ms_copy_ars_length_compare:
  assumes src: "cstr_at m src = Some s" and "fits m dest (Suc (length s))"
    and "separate dest (Suc (length s)) src (Suc (length s))"
  shows "\<exists>m'. ms_copy_ars m dest src = Inr (m', dest) \<and>
              ms_length_ars m' dest = ms_length_ars m src \<and> ms_compare_ars m' dest src = Inr 0"
proof -
  let ?m' = "write_bytes m dest (s @ [0])"
  have d: "cstr_at ?m' dest = Some s"
    using assms(2) cstr_at_nonzero [OF src] by (rule cstr_at_write_bytes_self)
  have s': "cstr_at ?m' src = Some s"
    using cstr_at_write_bytes_other [OF _ src] assms(3) by simp
  have "ms_compare_ars ?m' dest src = Inr 0"
    using ms_compare_ars_loop_cstr [of ?m' dest 0 s src s] d s' cstr_at_not_NULL [OF d] cstr_at_not_NULL [OF s']
    by (cases dest; cases src) (simp_all add: ms_compare_ars_def cmp_ref_refl)
  then show ?thesis
    using ms_copy_ars_writes [OF assms] ms_length_ars_cstr [OF d] ms_length_ars_cstr [OF src] by simp
qed

theorem ms_copy_ars_length_compare_witness:
  "cstr_at [0 \<mapsto> [116, 104, 97, 116, 0], 1 \<mapsto> [0, 0, 0, 0, 0]] (Ptr 0 0) = Some [116, 104, 97, 116] \<and>
   (\<exists>m'. ms_copy_ars [0 \<mapsto> [116, 104, 97, 116, 0], 1 \<mapsto> [0, 0, 0, 0, 0]] (Ptr 1 0) (Ptr 0 0) = Inr (m', Ptr 1 0) \<and>
     ms_length_ars m' (Ptr 1 0) = ms_length_ars [0 \<mapsto> [116, 104, 97, 116, 0], 1 \<mapsto> [0, 0, 0, 0, 0]] (Ptr 0 0) \<and>
     ms_compare_ars m' (Ptr 1 0) (Ptr 0 0) = Inr 0)"
proof -
  let ?m = "[0 \<mapsto> [116, 104, 97, 116, 0], 1 \<mapsto> [0, 0, 0, 0, 0]] :: mem"
  have h1: "cstr_at ?m (Ptr 0 0) = Some [116, 104, 97, 116]"
    by (simp add: block_str_def)
  have h2: "fits ?m (Ptr 1 0) (Suc (length [116, 104, 97, (116::cchar)]))"
    by simp
  have h3: "separate (Ptr 1 0) (Suc (length [116, 104, 97, (116::cchar)]))
              (Ptr 0 0) (Suc (length [116, 104, 97, (116::cchar)]))"
    by simp
  show ?thesis
    using h1 ms_copy_ars_length_compare [OF h1 h2 h3] by simp
qed

subsection \<open>ms_search: the first occurrence\<close>

lemma ms_search_ars_inner_cstr:
  assumes h: "cstr_at m haystack = Some hs" and n: "cstr_at m needle = Some ns"
    and fit: "i + length ns \<le> length hs" and j: "j \<le> length ns"
  shows "\<exists>j'. ms_search_ars_inner m haystack needle (length ns) i j = Inr j' \<and>
           (j' = length ns \<longleftrightarrow> (\<forall>k. j \<le> k \<and> k < length ns \<longrightarrow> hs ! (i + k) = ns ! k))"
  using j
proof (induction "length ns - j" arbitrary: j)
  case 0
  then have "j = length ns" by simp
  show ?case
    by (subst ms_search_ars_inner.simps) (use \<open>j = length ns\<close> in auto)
next
  case (Suc d)
  then have jl: "j < length ns" by simp
  have la: "load m (ptr_add haystack (j + i)) = Inr (hs ! (i + j))"
    using cstr_at_load [OF h, of "j + i"] fit jl by (simp add: nth_append add.commute)
  have lb: "load m (ptr_add needle j) = Inr (ns ! j)"
    using cstr_at_load [OF n, of j] jl by (simp add: nth_append)
  show ?case
  proof (cases "hs ! (i + j) = ns ! j")
    case False
    with la lb jl show ?thesis
      by (auto simp: ms_search_ars_inner.simps [of m haystack needle "length ns" i j])
  next
    case True
    have "d = length ns - Suc j" and "Suc j \<le> length ns"
      using Suc.hyps(2) jl by simp_all
    from Suc.hyps(1) [OF this] obtain j' where
      rec: "ms_search_ars_inner m haystack needle (length ns) i (Suc j) = Inr j'" and
      iff: "j' = length ns \<longleftrightarrow> (\<forall>k. Suc j \<le> k \<and> k < length ns \<longrightarrow> hs ! (i + k) = ns ! k)"
      by auto
    have "(\<forall>k. Suc j \<le> k \<and> k < length ns \<longrightarrow> hs ! (i + k) = ns ! k) \<longleftrightarrow>
          (\<forall>k. j \<le> k \<and> k < length ns \<longrightarrow> hs ! (i + k) = ns ! k)"
    proof
      assume a: "\<forall>k. Suc j \<le> k \<and> k < length ns \<longrightarrow> hs ! (i + k) = ns ! k"
      show "\<forall>k. j \<le> k \<and> k < length ns \<longrightarrow> hs ! (i + k) = ns ! k"
      proof (intro allI impI)
        fix k
        assume "j \<le> k \<and> k < length ns"
        then consider "k = j" | "Suc j \<le> k \<and> k < length ns" by linarith
        then show "hs ! (i + k) = ns ! k" using a True by cases auto
      qed
    qed auto
    with rec iff la lb jl True show ?thesis
      by (simp add: ms_search_ars_inner.simps [of m haystack needle "length ns" i j])
  qed
qed

lemma ms_search_ars_outer_cstr:
  assumes h: "cstr_at m haystack = Some hs" and n: "cstr_at m needle = Some ns"
    and le: "length ns \<le> length hs" and i: "i \<le> Suc (length hs - length ns)"
  shows "ms_search_ars_outer m haystack needle (length hs - length ns) (length ns) i =
           Inr (case find (match_at hs ns) [i..<Suc (length hs - length ns)] of
                  None \<Rightarrow> NULL | Some k \<Rightarrow> ptr_add haystack k)"
  using i
proof (induction "Suc (length hs - length ns) - i" arbitrary: i)
  case 0
  then have "\<not> i \<le> length hs - length ns" by simp
  then show ?case
    by (simp add: ms_search_ars_outer.simps [of m haystack needle "length hs - length ns" "length ns" i])
next
  case (Suc d)
  then have il: "i \<le> length hs - length ns" by simp
  then have fit: "i + length ns \<le> length hs" using le by simp
  obtain j' where inner: "ms_search_ars_inner m haystack needle (length ns) i 0 = Inr j'"
    and iff: "j' = length ns \<longleftrightarrow> (\<forall>k. 0 \<le> k \<and> k < length ns \<longrightarrow> hs ! (i + k) = ns ! k)"
    using ms_search_ars_inner_cstr [OF h n fit, of 0] by auto
  have m_iff: "match_at hs ns i \<longleftrightarrow> j' = length ns"
    using iff match_at_iff_nth [OF fit] by simp
  have upt: "[i..<Suc (length hs - length ns)] = i # [Suc i..<Suc (length hs - length ns)]"
    using il by (simp add: upt_conv_Cons del: upt_Suc)
  show ?case
  proof (cases "j' = length ns")
    case True
    then show ?thesis
      using inner m_iff il upt
      by (simp add: ms_search_ars_outer.simps [of m haystack needle "length hs - length ns" "length ns" i]
            del: upt_Suc)
  next
    case False
    have "ms_search_ars_outer m haystack needle (length hs - length ns) (length ns) (Suc i) =
           Inr (case find (match_at hs ns) [Suc i..<Suc (length hs - length ns)] of
                  None \<Rightarrow> NULL | Some k \<Rightarrow> ptr_add haystack k)"
      using Suc.hyps(1) [of "Suc i"] Suc.hyps(2) il by simp
    then show ?thesis
      using inner m_iff il upt False
      by (simp add: ms_search_ars_outer.simps [of m haystack needle "length hs - length ns" "length ns" i]
            del: upt_Suc)
  qed
qed

lemma ms_search_ars_ref:
  assumes h: "cstr_at m haystack = Some hs" and n: "cstr_at m needle = Some ns" and sz: "size_ok m"
  shows "ms_search_ars m haystack needle =
           Inr (case search_ref hs ns of None \<Rightarrow> NULL | Some k \<Rightarrow> ptr_add haystack k)"
proof -
  have lh: "ms_length_ars m haystack = Inr (of_nat (length hs))"
    and ln: "ms_length_ars m needle = Inr (of_nat (length ns))"
    using ms_length_ars_cstr h n by blast+
  have uh: "unat (of_nat (length hs) :: size_t) = length hs"
    and un: "unat (of_nat (length ns) :: size_t) = length ns"
    using unat_length_cstr [OF h sz] unat_length_cstr [OF n sz] by blast+
  have nn: "haystack \<noteq> NULL" "needle \<noteq> NULL"
    using cstr_at_not_NULL h n by blast+
  show ?thesis
  proof (cases "length hs < length ns")
    case True
    then have "(of_nat (length hs) :: size_t) < of_nat (length ns)"
      using uh un by (simp add: word_less_nat_alt)
    with lh ln True nn show ?thesis
      by (cases haystack; cases needle) (simp_all add: ms_search_ars_def search_ref_def)
  next
    case False
    then have lt: "\<not> (of_nat (length hs) :: size_t) < of_nat (length ns)"
      using uh un by (simp add: word_less_nat_alt)
    have "unat (of_nat (length hs) - of_nat (length ns) :: size_t) = length hs - length ns"
      using False uh un by (simp add: unat_sub word_le_nat_alt)
    moreover have "ms_search_ars_outer m haystack needle (length hs - length ns) (length ns) 0 =
           Inr (case search_ref hs ns of None \<Rightarrow> NULL | Some k \<Rightarrow> ptr_add haystack k)"
      using ms_search_ars_outer_cstr [OF h n, of 0] False by (simp add: search_ref_def)
    ultimately show ?thesis
      using lh ln lt nn un by (cases haystack; cases needle) (simp_all add: ms_search_ars_def)
  qed
qed

text \<open>
  C12. On a null-terminated haystack and needle, \<open>ms_search\<close> returns a
  pointer to the lowest position at which the needle occurs in the haystack
  (terminators not compared), or \<open>NULL\<close> when it occurs nowhere.
\<close>

theorem ms_search_ars_correct:
  assumes "cstr_at m haystack = Some hs" and "cstr_at m needle = Some ns" and "size_ok m"
  shows "(\<exists>k. ms_search_ars m haystack needle = Inr (ptr_add haystack k) \<and>
              match_at hs ns k \<and> (\<forall>j<k. \<not> match_at hs ns j)) \<or>
         (ms_search_ars m haystack needle = Inr NULL \<and> (\<forall>k. \<not> match_at hs ns k))"
proof (cases "search_ref hs ns")
  case None
  then show ?thesis
    using ms_search_ars_ref [OF assms] search_ref_None_iff [of hs ns] by simp
next
  case (Some k)
  then have "match_at hs ns k \<and> (\<forall>j<k. \<not> match_at hs ns j)"
    by (simp add: search_ref_Some_iff)
  with Some show ?thesis
    using ms_search_ars_ref [OF assms] by auto
qed

theorem ms_search_ars_correct_witness:
  "cstr_at [0 \<mapsto> [72, 101, 108, 108, 111, 32, 116, 104, 101, 114, 101, 0], 1 \<mapsto> [116, 104, 101, 114, 101, 0]]
     (Ptr 0 0) = Some [72, 101, 108, 108, 111, 32, 116, 104, 101, 114, 101] \<and>
   cstr_at [0 \<mapsto> [72, 101, 108, 108, 111, 32, 116, 104, 101, 114, 101, 0], 1 \<mapsto> [116, 104, 101, 114, 101, 0]]
     (Ptr 1 0) = Some [116, 104, 101, 114, 101] \<and>
   size_ok [0 \<mapsto> [72, 101, 108, 108, 111, 32, 116, 104, 101, 114, 101, 0], 1 \<mapsto> [116, 104, 101, 114, 101, 0]] \<and>
   ms_search_ars [0 \<mapsto> [72, 101, 108, 108, 111, 32, 116, 104, 101, 114, 101, 0], 1 \<mapsto> [116, 104, 101, 114, 101, 0]]
     (Ptr 0 0) (Ptr 1 0) = Inr (Ptr 0 6)"
proof -
  let ?m = "[0 \<mapsto> [72, 101, 108, 108, 111, 32, 116, 104, 101, 114, 101, 0], 1 \<mapsto> [116, 104, 101, 114, 101, 0]] :: mem"
  have h1: "cstr_at ?m (Ptr 0 0) = Some [72, 101, 108, 108, 111, 32, 116, 104, 101, 114, 101]"
    by (simp add: block_str_def)
  have h2: "cstr_at ?m (Ptr 1 0) = Some [116, 104, 101, 114, 101]"
    by (simp add: block_str_def)
  have h3: "size_ok ?m"
    by (simp add: size_ok_def)
  let ?hs = "[72, 101, 108, 108, 111, 32, 116, 104, 101, 114, 101] :: cchar list"
  let ?ns = "[116, 104, 101, 114, 101] :: cchar list"
  have six: "match_at ?hs ?ns 6"
    by (simp add: match_at_def)
  have "list_all (\<lambda>j. \<not> match_at ?hs ?ns j) [0..<6]"
    by code_simp
  then have below: "\<forall>j<6. \<not> match_at ?hs ?ns j"
    by (simp add: list_all_iff)
  have "k = 6" if "match_at ?hs ?ns k" and "\<forall>j<k. \<not> match_at ?hs ?ns j" for k
    using that six below by (metis linorder_neqE_nat)
  then show ?thesis
    using h1 h2 h3 six ms_search_ars_correct [OF h1 h2 h3] by auto
qed

end
