(* ===== verification/Mystring_Ptrs.thy ===== *)
theory Mystring_Ptrs
  imports Mystring_Ars
begin

text \<open>
  The pointer implementation, \<open>src/mystring_ptrs.c\<close>. Its loops advance
  pointers (\<open>str_ptr++\<close>, \<open>*dest_ptr++ = *src_ptr++\<close>) instead of an index;
  here each loop is a recursive function over the moving pointers, and a
  distance such as \<open>src_ptr - src\<close> is \<open>ptr_diff\<close>, a \<open>ptrdiff_t\<close> that the
  comparison \<open>(src_ptr - src) != num\<close> converts to \<open>size_t\<close>
  (\<open>word_of_int\<close>), as C's usual arithmetic conversions do. The lemmas show
  that every function computes exactly what the array implementation of
  \<open>Mystring_Ars\<close> computes, on every memory and every argument, errors
  included, except \<open>ms_search\<close> on an empty haystack and an empty needle.
\<close>

subsection \<open>ms_length\<close>

function ms_length_ptrs_loop :: "mem \<Rightarrow> ptr \<Rightarrow> ptr result" where
  "ms_length_ptrs_loop m str_ptr =
     bindE (load m str_ptr) (\<lambda>c.
       if c \<noteq> 0 then ms_length_ptrs_loop m (ptr_add str_ptr 1) else Inr str_ptr)"
  by pat_completeness auto
termination
  by (relation "measure (\<lambda>(m, p). remaining m p)") (auto dest: load_remaining_less_ptr)

definition ms_length_ptrs :: "mem \<Rightarrow> ptr \<Rightarrow> size_t result" where
  "ms_length_ptrs m str =
     bindE (assert_nonnull str) (\<lambda>_.
     bindE (ms_length_ptrs_loop m str) (\<lambda>str_ptr. Inr (word_of_int (ptr_diff str_ptr str))))"

subsection \<open>ms_copy\<close>

function ms_copy_ptrs_loop :: "mem \<Rightarrow> ptr \<Rightarrow> ptr \<Rightarrow> (mem \<times> ptr) result" where
  "ms_copy_ptrs_loop m dest_ptr src_ptr =
     bindE (load m src_ptr) (\<lambda>c.
       if c \<noteq> 0 then
         bindE (store m dest_ptr c) (\<lambda>m'.
           ms_copy_ptrs_loop m' (ptr_add dest_ptr 1) (ptr_add src_ptr 1))
       else Inr (m, dest_ptr))"
  by pat_completeness auto
termination
  by (relation "measure (\<lambda>(m, d, s). remaining m s)")
     (auto dest: load_remaining_less_ptr simp: store_remaining)

definition ms_copy_ptrs :: "mem \<Rightarrow> ptr \<Rightarrow> ptr \<Rightarrow> (mem \<times> ptr) result" where
  "ms_copy_ptrs m dest src =
     bindE (assert_nonnull dest) (\<lambda>_.
     bindE (assert_nonnull src) (\<lambda>_.
     bindE (ms_copy_ptrs_loop m dest src) (\<lambda>(m', dest_ptr).
     bindE (store m' dest_ptr 0) (\<lambda>m''. Inr (m'', dest)))))"

subsection \<open>ms_ncopy\<close>

function ms_ncopy_ptrs_loop ::
  "mem \<Rightarrow> ptr \<Rightarrow> ptr \<Rightarrow> ptr \<Rightarrow> size_t \<Rightarrow> (mem \<times> ptr \<times> ptr) result" where
  "ms_ncopy_ptrs_loop m src dest_ptr src_ptr num =
     bindE (load m src_ptr) (\<lambda>c.
       if c \<noteq> 0 \<and> word_of_int (ptr_diff src_ptr src) \<noteq> num then
         bindE (store m dest_ptr c) (\<lambda>m'.
           ms_ncopy_ptrs_loop m' src (ptr_add dest_ptr 1) (ptr_add src_ptr 1) num)
       else Inr (m, dest_ptr, src_ptr))"
  by pat_completeness auto
termination
  by (relation "measure (\<lambda>(m, s, d, sp, n). remaining m sp)")
     (auto dest: load_remaining_less_ptr simp: store_remaining)

function ms_ncopy_ptrs_pad :: "mem \<Rightarrow> ptr \<Rightarrow> ptr \<Rightarrow> ptr \<Rightarrow> size_t \<Rightarrow> mem result" where
  "ms_ncopy_ptrs_pad m src dest_ptr src_ptr num =
     (if word_of_int (ptr_diff src_ptr src) \<noteq> num then
        bindE (store m dest_ptr 0) (\<lambda>m'.
          ms_ncopy_ptrs_pad m' src (ptr_add dest_ptr 1) (ptr_add src_ptr 1) num)
      else Inr m)"
  by pat_completeness auto
termination
  by (relation "measure (\<lambda>(m, s, d, sp, n). remaining m d)")
     (auto dest: store_remaining_less_ptr simp: store_remaining)

definition ms_ncopy_ptrs :: "mem \<Rightarrow> ptr \<Rightarrow> ptr \<Rightarrow> size_t \<Rightarrow> (mem \<times> ptr) result" where
  "ms_ncopy_ptrs m dest src num =
     bindE (assert_nonnull dest) (\<lambda>_.
     bindE (assert_nonnull src) (\<lambda>_.
     bindE (ms_ncopy_ptrs_loop m src dest src num) (\<lambda>(m', dest_ptr, src_ptr).
     bindE (ms_ncopy_ptrs_pad m' src dest_ptr src_ptr num) (\<lambda>m''. Inr (m'', dest)))))"

subsection \<open>ms_concat\<close>

function ms_concat_ptrs_loop :: "mem \<Rightarrow> ptr \<Rightarrow> ptr \<Rightarrow> (mem \<times> ptr) result" where
  "ms_concat_ptrs_loop m dest_ptr src_ptr =
     bindE (load m src_ptr) (\<lambda>c.
       if c \<noteq> 0 then
         bindE (store m dest_ptr c) (\<lambda>m'.
           ms_concat_ptrs_loop m' (ptr_add dest_ptr 1) (ptr_add src_ptr 1))
       else Inr (m, dest_ptr))"
  by pat_completeness auto
termination
  by (relation "measure (\<lambda>(m, d, s). remaining m s)")
     (auto dest: load_remaining_less_ptr simp: store_remaining)

definition ms_concat_ptrs :: "mem \<Rightarrow> ptr \<Rightarrow> ptr \<Rightarrow> (mem \<times> ptr) result" where
  "ms_concat_ptrs m dest src =
     bindE (assert_nonnull dest) (\<lambda>_.
     bindE (assert_nonnull src) (\<lambda>_.
     bindE (ms_length_ptrs m dest) (\<lambda>dest_length.
     bindE (ms_concat_ptrs_loop m (ptr_add dest (unat dest_length)) src) (\<lambda>(m', dest_ptr).
     bindE (store m' dest_ptr 0) (\<lambda>m''. Inr (m'', dest))))))"

subsection \<open>ms_nconcat\<close>

function ms_nconcat_ptrs_loop ::
  "mem \<Rightarrow> ptr \<Rightarrow> ptr \<Rightarrow> ptr \<Rightarrow> size_t \<Rightarrow> (mem \<times> ptr) result" where
  "ms_nconcat_ptrs_loop m src dest_ptr src_ptr num =
     bindE (load m src_ptr) (\<lambda>c.
       if c \<noteq> 0 \<and> word_of_int (ptr_diff src_ptr src) \<noteq> num then
         bindE (store m dest_ptr c) (\<lambda>m'.
           ms_nconcat_ptrs_loop m' src (ptr_add dest_ptr 1) (ptr_add src_ptr 1) num)
       else Inr (m, dest_ptr))"
  by pat_completeness auto
termination
  by (relation "measure (\<lambda>(m, s, d, sp, n). remaining m sp)")
     (auto dest: load_remaining_less_ptr simp: store_remaining)

definition ms_nconcat_ptrs :: "mem \<Rightarrow> ptr \<Rightarrow> ptr \<Rightarrow> size_t \<Rightarrow> (mem \<times> ptr) result" where
  "ms_nconcat_ptrs m dest src num =
     bindE (assert_nonnull dest) (\<lambda>_.
     bindE (assert_nonnull src) (\<lambda>_.
     bindE (ms_length_ptrs m dest) (\<lambda>dest_length.
     bindE (ms_nconcat_ptrs_loop m src (ptr_add dest (unat dest_length)) src num) (\<lambda>(m', dest_ptr).
     bindE (store m' dest_ptr 0) (\<lambda>m''. Inr (m'', dest))))))"

subsection \<open>ms_compare\<close>

function ms_compare_ptrs_loop :: "mem \<Rightarrow> ptr \<Rightarrow> ptr \<Rightarrow> int result" where
  "ms_compare_ptrs_loop m ptr1 ptr2 =
     bindE (load m ptr1) (\<lambda>c1.
       if c1 \<noteq> 0 then
         bindE (load m ptr2) (\<lambda>c2.
           if c2 \<noteq> 0 then
             (if c1 \<noteq> c2 then Inr (char_int c1 - char_int c2)
              else ms_compare_ptrs_loop m (ptr_add ptr1 1) (ptr_add ptr2 1))
           else Inr (char_int c1 - char_int c2))
       else bindE (load m ptr2) (\<lambda>c2. Inr (char_int c1 - char_int c2)))"
  by pat_completeness auto
termination
  by (relation "measure (\<lambda>(m, p1, p2). remaining m p1)") (auto dest: load_remaining_less_ptr)

definition ms_compare_ptrs :: "mem \<Rightarrow> ptr \<Rightarrow> ptr \<Rightarrow> int result" where
  "ms_compare_ptrs m str1 str2 =
     bindE (assert_nonnull str1) (\<lambda>_.
     bindE (assert_nonnull str2) (\<lambda>_.
     ms_compare_ptrs_loop m str1 str2))"

subsection \<open>ms_ncompare\<close>

function ms_ncompare_ptrs_loop :: "mem \<Rightarrow> ptr \<Rightarrow> ptr \<Rightarrow> ptr \<Rightarrow> size_t \<Rightarrow> int result" where
  "ms_ncompare_ptrs_loop m str1 ptr1 ptr2 num =
     bindE (load m ptr1) (\<lambda>c1.
       if c1 \<noteq> 0 then
         bindE (load m ptr2) (\<lambda>c2.
           if c2 \<noteq> 0 \<and> word_of_int (ptr_diff ptr1 str1) \<noteq> num then
             (if c1 \<noteq> c2 then Inr (char_int c1 - char_int c2)
              else ms_ncompare_ptrs_loop m str1 (ptr_add ptr1 1) (ptr_add ptr2 1) num)
           else if word_of_int (ptr_diff ptr1 str1) = num then Inr 0
           else Inr (char_int c1 - char_int c2))
       else if word_of_int (ptr_diff ptr1 str1) = num then Inr 0
       else bindE (load m ptr2) (\<lambda>c2. Inr (char_int c1 - char_int c2)))"
  by pat_completeness auto
termination
  by (relation "measure (\<lambda>(m, s1, p1, p2, n). remaining m p1)") (auto dest: load_remaining_less_ptr)

definition ms_ncompare_ptrs :: "mem \<Rightarrow> ptr \<Rightarrow> ptr \<Rightarrow> size_t \<Rightarrow> int result" where
  "ms_ncompare_ptrs m str1 str2 num =
     bindE (assert_nonnull str1) (\<lambda>_.
     bindE (assert_nonnull str2) (\<lambda>_.
     ms_ncompare_ptrs_loop m str1 str1 str2 num))"

subsection \<open>ms_search\<close>

text \<open>
  The loop runs over every position of the haystack up to its terminator
  and calls \<open>ms_ncompare\<close> (with its own \<open>assert\<close>s) at each one.
\<close>

function ms_search_ptrs_loop :: "mem \<Rightarrow> ptr \<Rightarrow> size_t \<Rightarrow> ptr \<Rightarrow> ptr result" where
  "ms_search_ptrs_loop m needle needle_length haystack_ptr =
     bindE (load m haystack_ptr) (\<lambda>c.
       if c \<noteq> 0 then
         bindE (ms_ncompare_ptrs m haystack_ptr needle needle_length) (\<lambda>r.
           if r = 0 then Inr haystack_ptr
           else ms_search_ptrs_loop m needle needle_length (ptr_add haystack_ptr 1))
       else Inr NULL)"
  by pat_completeness auto
termination
  by (relation "measure (\<lambda>(m, n, nl, p). remaining m p)") (auto dest: load_remaining_less_ptr)

definition ms_search_ptrs :: "mem \<Rightarrow> ptr \<Rightarrow> ptr \<Rightarrow> ptr result" where
  "ms_search_ptrs m haystack needle =
     bindE (assert_nonnull haystack) (\<lambda>_.
     bindE (assert_nonnull needle) (\<lambda>_.
     bindE (ms_length_ptrs m needle) (\<lambda>needle_length.
     bindE (ms_length_ptrs m haystack) (\<lambda>haystack_length.
       if haystack_length < needle_length then Inr NULL
       else ms_search_ptrs_loop m needle needle_length haystack))))"

declare ms_length_ptrs_loop.simps [simp del] ms_copy_ptrs_loop.simps [simp del]
  ms_ncopy_ptrs_loop.simps [simp del] ms_ncopy_ptrs_pad.simps [simp del]
  ms_concat_ptrs_loop.simps [simp del] ms_nconcat_ptrs_loop.simps [simp del]
  ms_compare_ptrs_loop.simps [simp del] ms_ncompare_ptrs_loop.simps [simp del]
  ms_search_ptrs_loop.simps [simp del]

subsection \<open>Each function computes what the array implementation computes\<close>

text \<open>
  Each loop of the pointer version, started at \<open>p + i\<close>, is the array loop
  started at index \<open>i\<close>, with the pointers it returns read as
  \<open>p + index\<close>: computation induction on the array loop.
\<close>

lemma ms_length_ptrs_loop_eq:
  "ms_length_ptrs_loop m (ptr_add str n) = map_sum id (ptr_add str) (ms_length_ars_loop m str n)"
proof (induction m str n rule: ms_length_ars_loop.induct)
  case (1 m str n)
  show ?case
    using "1.IH"
    by (simp add: ms_length_ptrs_loop.simps [of m "ptr_add str n"]
          ms_length_ars_loop.simps [of m str n] bindE_def split: sum.split)
qed

lemma ms_length_ptrs_eq: "ms_length_ptrs m str = ms_length_ars m str"
  using ms_length_ptrs_loop_eq [of m str 0]
  by (cases str) (auto simp: ms_length_ptrs_def ms_length_ars_def bindE_def split: sum.split)

lemma ms_copy_ptrs_loop_eq:
  "ms_copy_ptrs_loop m (ptr_add dest i) (ptr_add src i) =
     map_sum id (\<lambda>(m', k). (m', ptr_add dest k)) (ms_copy_ars_loop m dest src i)"
proof (induction m dest src i rule: ms_copy_ars_loop.induct)
  case (1 m dest src i)
  show ?case
    using "1.IH"
    by (simp add: ms_copy_ptrs_loop.simps [of m "ptr_add dest i" "ptr_add src i"]
          ms_copy_ars_loop.simps [of m dest src i] bindE_def split: sum.split)
qed

lemma ms_copy_ptrs_eq: "ms_copy_ptrs m dest src = ms_copy_ars m dest src"
  using ms_copy_ptrs_loop_eq [of m dest 0 src]
  by (cases dest; cases src) (auto simp: ms_copy_ptrs_def ms_copy_ars_def bindE_def split: sum.split)

lemma ms_ncopy_ptrs_loop_eq:
  "src \<noteq> NULL \<Longrightarrow> ms_ncopy_ptrs_loop m src (ptr_add dest i) (ptr_add src i) num =
     map_sum id (\<lambda>(m', k). (m', ptr_add dest k, ptr_add src k)) (ms_ncopy_ars_loop m dest src num i)"
proof (induction m dest src num i rule: ms_ncopy_ars_loop.induct)
  case (1 m dest src num i)
  show ?case
    using "1.IH" "1.prems"
    by (simp add: ms_ncopy_ptrs_loop.simps [of m src "ptr_add dest i" "ptr_add src i" num]
          ms_ncopy_ars_loop.simps [of m dest src num i] bindE_def split: sum.split)
qed

lemma ms_ncopy_ptrs_pad_eq:
  "src \<noteq> NULL \<Longrightarrow> ms_ncopy_ptrs_pad m src (ptr_add dest i) (ptr_add src i) num =
     ms_ncopy_ars_pad m dest num i"
proof (induction m dest num i rule: ms_ncopy_ars_pad.induct)
  case (1 m dest num i)
  show ?case
    using "1.IH" "1.prems"
    by (simp add: ms_ncopy_ptrs_pad.simps [of m src "ptr_add dest i" "ptr_add src i" num]
          ms_ncopy_ars_pad.simps [of m dest num i] bindE_def split: sum.split)
qed

lemma ms_ncopy_ptrs_eq: "ms_ncopy_ptrs m dest src num = ms_ncopy_ars m dest src num"
proof (cases "dest = NULL \<or> src = NULL")
  case True
  then show ?thesis by (cases dest) (auto simp: ms_ncopy_ptrs_def ms_ncopy_ars_def)
next
  case False
  then show ?thesis
    using ms_ncopy_ptrs_loop_eq [of src m dest 0 num]
      ms_ncopy_ptrs_pad_eq [of src _ dest _ num]
    by (cases dest; cases src)
       (auto simp: ms_ncopy_ptrs_def ms_ncopy_ars_def bindE_def split: sum.split)
qed

lemma ms_concat_ptrs_loop_eq:
  "ms_concat_ptrs_loop m dest_ptr src_ptr = ms_copy_ptrs_loop m dest_ptr src_ptr"
proof (induction m dest_ptr src_ptr rule: ms_concat_ptrs_loop.induct)
  case (1 m dest_ptr src_ptr)
  show ?case
    using "1.IH"
    by (simp add: ms_concat_ptrs_loop.simps [of m dest_ptr src_ptr]
          ms_copy_ptrs_loop.simps [of m dest_ptr src_ptr] bindE_def split: sum.split)
qed

lemma ms_concat_ptrs_eq: "ms_concat_ptrs m dest src = ms_concat_ars m dest src"
proof (cases "dest = NULL \<or> src = NULL")
  case True
  then show ?thesis by (cases dest) (auto simp: ms_concat_ptrs_def ms_concat_ars_def)
next
  case False
  have "ms_concat_ptrs_loop m (ptr_add dest dl) src =
          map_sum id (\<lambda>(m', k). (m', ptr_add dest (dl + k))) (ms_concat_ars_loop m dest dl src 0)"
    for dl
    using ms_copy_ptrs_loop_eq [of m "ptr_add dest dl" 0 src]
    by (simp add: ms_concat_ptrs_loop_eq ms_concat_ars_loop_eq)
  with False show ?thesis
    by (cases dest; cases src)
       (auto simp: ms_concat_ptrs_def ms_concat_ars_def ms_length_ptrs_eq bindE_def split: sum.split)
qed

lemma ms_nconcat_ptrs_loop_eq:
  "ms_nconcat_ptrs_loop m src dest_ptr src_ptr num =
     map_sum id (\<lambda>(m', d, s). (m', d)) (ms_ncopy_ptrs_loop m src dest_ptr src_ptr num)"
proof (induction m src dest_ptr src_ptr num rule: ms_nconcat_ptrs_loop.induct)
  case (1 m src dest_ptr src_ptr num)
  show ?case
    using "1.IH"
    by (simp add: ms_nconcat_ptrs_loop.simps [of m src dest_ptr src_ptr num]
          ms_ncopy_ptrs_loop.simps [of m src dest_ptr src_ptr num] bindE_def split: sum.split)
qed

lemma ms_nconcat_ptrs_eq: "ms_nconcat_ptrs m dest src num = ms_nconcat_ars m dest src num"
proof (cases "dest = NULL \<or> src = NULL")
  case True
  then show ?thesis by (cases dest) (auto simp: ms_nconcat_ptrs_def ms_nconcat_ars_def)
next
  case False
  have "ms_nconcat_ptrs_loop m src (ptr_add dest dl) src num =
          map_sum id (\<lambda>(m', k). (m', ptr_add dest (dl + k))) (ms_nconcat_ars_loop m dest dl src num 0)"
    for dl
    using ms_ncopy_ptrs_loop_eq [of src m "ptr_add dest dl" 0 num] False
    by (cases "ms_ncopy_ars_loop m (ptr_add dest dl) src num 0")
       (auto simp: ms_nconcat_ptrs_loop_eq ms_nconcat_ars_loop_eq)
  with False show ?thesis
    by (cases dest; cases src)
       (auto simp: ms_nconcat_ptrs_def ms_nconcat_ars_def ms_length_ptrs_eq bindE_def split: sum.split)
qed

lemma ms_compare_ptrs_loop_eq:
  "ms_compare_ptrs_loop m (ptr_add str1 i) (ptr_add str2 i) = ms_compare_ars_loop m str1 str2 i"
proof (induction m str1 str2 i rule: ms_compare_ars_loop.induct)
  case (1 m str1 str2 i)
  show ?case
    using "1.IH"
    by (simp add: ms_compare_ptrs_loop.simps [of m "ptr_add str1 i" "ptr_add str2 i"]
          ms_compare_ars_loop.simps [of m str1 str2 i] bindE_def split: sum.split)
qed

lemma ms_compare_ptrs_eq: "ms_compare_ptrs m str1 str2 = ms_compare_ars m str1 str2"
  using ms_compare_ptrs_loop_eq [of m str1 0 str2]
  by (cases str1; cases str2) (simp_all add: ms_compare_ptrs_def ms_compare_ars_def)

lemma ms_ncompare_ptrs_loop_eq:
  "str1 \<noteq> NULL \<Longrightarrow>
   ms_ncompare_ptrs_loop m str1 (ptr_add str1 i) (ptr_add str2 i) num = ms_ncompare_ars_loop m str1 str2 num i"
proof (induction m str1 str2 num i rule: ms_ncompare_ars_loop.induct)
  case (1 m str1 str2 num i)
  show ?case
    using "1.IH" "1.prems"
    by (simp add: ms_ncompare_ptrs_loop.simps [of m str1 "ptr_add str1 i" "ptr_add str2 i" num]
          ms_ncompare_ars_loop.simps [of m str1 str2 num i] bindE_def split: sum.split)
qed

lemma ms_ncompare_ptrs_eq: "ms_ncompare_ptrs m str1 str2 num = ms_ncompare_ars m str1 str2 num"
  using ms_ncompare_ptrs_loop_eq [of str1 m 0 str2 num]
  by (cases str1; cases str2) (simp_all add: ms_ncompare_ptrs_def ms_ncompare_ars_def)

lemmas ms_ptrs_eq = ms_length_ptrs_eq ms_copy_ptrs_eq ms_ncopy_ptrs_eq ms_concat_ptrs_eq
  ms_nconcat_ptrs_eq ms_compare_ptrs_eq ms_ncompare_ptrs_eq

subsection \<open>ms_search: every position up to the terminator\<close>

lemma ms_ncompare_ptrs_cstr:
  "cstr_at m str1 = Some x \<Longrightarrow> cstr_at m str2 = Some y \<Longrightarrow>
   ms_ncompare_ptrs m str1 str2 num = Inr (cmp_ref (take (unat num) x) (take (unat num) y))"
  using ms_ncompare_ptrs_loop_eq [of str1 m 0 str2 num] ms_ncompare_ars_loop_cstr [of m str1 0 x str2 y num]
  by (cases str1; cases str2) (simp_all add: ms_ncompare_ptrs_def)

lemma ms_search_ptrs_loop_cstr:
  assumes h: "cstr_at m haystack = Some hs" and n: "cstr_at m needle = Some ns"
    and nl: "unat needle_length = length ns" and i: "i \<le> length hs"
  shows "ms_search_ptrs_loop m needle needle_length (ptr_add haystack i) =
           Inr (case find (match_at hs ns) [i..<length hs] of
                  None \<Rightarrow> NULL | Some k \<Rightarrow> ptr_add haystack k)"
  using i
proof (induction "length hs - i" arbitrary: i)
  case 0
  then have "i = length hs" by simp
  moreover have "load m (ptr_add haystack (length hs)) = Inr 0"
    using cstr_at_load [OF h, of "length hs"] by simp
  ultimately show ?case
    by (subst ms_search_ptrs_loop.simps) simp
next
  case (Suc d)
  then have il: "i < length hs" by simp
  have nz: "0 \<notin> set hs" "0 \<notin> set ns"
    using cstr_at_nonzero h n by blast+
  have ld: "load m (ptr_add haystack i) = Inr (hs ! i)" and "hs ! i \<noteq> 0"
    using cstr_at_load [OF h, of i] il nz by (auto simp: nth_append dest: nth_mem)
  have cmp: "ms_ncompare_ptrs m (ptr_add haystack i) needle needle_length =
               Inr (cmp_ref (take (length ns) (drop i hs)) ns)"
    using ms_ncompare_ptrs_cstr [OF cstr_at_ptr_add [OF h] n, of i needle_length] il nl by simp
  have "0 \<notin> set (take (length ns) (drop i hs))"
    using nz(1) by (meson in_set_dropD in_set_takeD)
  then have "cmp_ref (take (length ns) (drop i hs)) ns = 0 \<longleftrightarrow> match_at hs ns i"
    using cmp_ref_eq_0_iff nz(2) il match_at_take by simp
  moreover have "[i..<length hs] = i # [Suc i..<length hs]"
    using il by (simp add: upt_conv_Cons)
  moreover have "ms_search_ptrs_loop m needle needle_length (ptr_add haystack (Suc i)) =
           Inr (case find (match_at hs ns) [Suc i..<length hs] of
                  None \<Rightarrow> NULL | Some k \<Rightarrow> ptr_add haystack k)"
    using Suc.hyps(1) [of "Suc i"] Suc.hyps(2) il by simp
  ultimately show ?case
    using ld \<open>hs ! i \<noteq> 0\<close> cmp
    by (simp add: ms_search_ptrs_loop.simps [of m needle needle_length "ptr_add haystack i"])
qed

lemma ms_search_ptrs_ref:
  assumes h: "cstr_at m haystack = Some hs" and n: "cstr_at m needle = Some ns" and sz: "size_ok m"
  shows "ms_search_ptrs m haystack needle =
           Inr (if length hs < length ns then NULL
                else case find (match_at hs ns) [0..<length hs] of
                       None \<Rightarrow> NULL | Some k \<Rightarrow> ptr_add haystack k)"
proof -
  have lh: "ms_length_ptrs m haystack = Inr (of_nat (length hs))"
    and ln: "ms_length_ptrs m needle = Inr (of_nat (length ns))"
    using ms_length_ars_cstr h n by (simp_all add: ms_length_ptrs_eq)
  have uh: "unat (of_nat (length hs) :: size_t) = length hs"
    and un: "unat (of_nat (length ns) :: size_t) = length ns"
    using unat_length_cstr [OF h sz] unat_length_cstr [OF n sz] by blast+
  have lt: "(of_nat (length hs) :: size_t) < of_nat (length ns) \<longleftrightarrow> length hs < length ns"
    using uh un by (simp add: word_less_nat_alt)
  have "ms_search_ptrs_loop m needle (of_nat (length ns)) haystack =
          Inr (case find (match_at hs ns) [0..<length hs] of
                 None \<Rightarrow> NULL | Some k \<Rightarrow> ptr_add haystack k)"
    using ms_search_ptrs_loop_cstr [OF h n un, of 0] by simp
  with lh ln lt cstr_at_not_NULL [OF h] cstr_at_not_NULL [OF n] show ?thesis
    by (cases haystack; cases needle) (simp_all add: ms_search_ptrs_def)
qed

lemma find_match_at_upt:
  assumes "length ns \<le> length hs" and "\<not> (hs = [] \<and> ns = [])"
  shows "find (match_at hs ns) [0..<length hs] = search_ref hs ns"
proof (cases "ns = []")
  case True
  with assms have "0 < length hs" by simp
  with True show ?thesis
    by (simp add: search_ref_def match_at_def upt_conv_Cons del: upt_Suc)
next
  case False
  then have "Suc (length hs - length ns) \<le> length hs"
    using assms(1) by (cases ns) auto
  moreover have "\<forall>k. Suc (length hs - length ns) \<le> k \<and> k < length hs \<longrightarrow> \<not> match_at hs ns k"
    using match_at_le by fastforce
  ultimately show ?thesis
    using find_upt_extend [of "Suc (length hs - length ns)" "length hs" "match_at hs ns"] assms(1)
    by (simp add: search_ref_def del: upt_Suc)
qed

lemma ms_search_ptrs_loop_no_assert:
  "needle \<noteq> NULL \<Longrightarrow> ms_search_ptrs_loop m needle nl p \<noteq> Inl Assert_fail"
proof (induction m needle nl p rule: ms_search_ptrs_loop.induct)
  case (1 m needle nl p)
  have "load m p = Inr c \<Longrightarrow> ms_ncompare_ptrs m p needle nl \<noteq> Inl Assert_fail" for c
    using 1(2) ms_ncompare_ars_loop_no_assert [of m p needle nl 0]
    by (cases p; cases needle) (simp_all add: ms_ncompare_ptrs_eq ms_ncompare_ars_def)
  then show ?case
    using 1 by (subst ms_search_ptrs_loop.simps) (auto simp: bindE_def dest: load_Inl split: sum.split)
qed

lemma ms_search_ptrs_cstr:
  assumes h: "cstr_at m haystack = Some hs" and n: "cstr_at m needle = Some ns" and sz: "size_ok m"
    and ne: "\<not> (hs = [] \<and> ns = [])"
  shows "ms_search_ptrs m haystack needle =
           Inr (case search_ref hs ns of None \<Rightarrow> NULL | Some k \<Rightarrow> ptr_add haystack k)"
  using ms_search_ptrs_ref [OF h n sz] find_match_at_upt [of ns hs] ne by (auto simp: search_ref_def)

text \<open>
  C3. On memory whose blocks are smaller than \<open>SIZE_MAX\<close>, the pointer
  \<open>ms_search\<close> returns what the array \<open>ms_search\<close> returns, faults
  included, except when both the haystack and the needle are empty strings:
  then it returns \<open>NULL\<close>, because its loop stops at the haystack's
  terminator before comparing anything.
\<close>

theorem ms_search_ptrs_equiv:
  assumes sz: "size_ok m"
  shows "ms_search_ptrs m haystack needle =
           (if cstr_at m haystack = Some [] \<and> cstr_at m needle = Some [] then Inr NULL
            else ms_search_ars m haystack needle)"
proof (cases "haystack = NULL \<or> needle = NULL")
  case True
  then show ?thesis
    by (cases haystack; cases needle) (simp_all add: ms_search_ptrs_def ms_search_ars_def)
next
  case False
  then have nn: "haystack \<noteq> NULL" "needle \<noteq> NULL" by simp_all
  show ?thesis
  proof (cases "cstr_at m needle")
    case None
    then show ?thesis
      using nn ms_length_ars_unterminated [OF nn(2) None]
        ms_length_ars_unterminated [OF nn(1)] ms_length_ars_cstr [of m haystack]
      by (cases "cstr_at m haystack"; cases haystack; cases needle)
         (simp_all add: ms_search_ptrs_def ms_search_ars_def ms_length_ptrs_eq)
  next
    case (Some ns)
    show ?thesis
    proof (cases "cstr_at m haystack")
      case None
      then show ?thesis
        using nn ms_length_ars_unterminated [OF nn(1) None] ms_length_ars_cstr [OF Some]
        by (cases haystack; cases needle)
           (simp_all add: ms_search_ptrs_def ms_search_ars_def ms_length_ptrs_eq)
    next
      case (Some hs)
      note h = Some and n = \<open>cstr_at m needle = Some ns\<close>
      show ?thesis
      proof (cases "hs = [] \<and> ns = []")
        case True
        then show ?thesis
          using ms_search_ptrs_ref [OF h n sz] h n by simp
      next
        case False
        then show ?thesis
          using ms_search_ptrs_cstr [OF h n sz False] ms_search_ars_ref [OF h n sz] h n by auto
      qed
    qed
  qed
qed

theorem ms_search_ptrs_equiv_witness:
  "size_ok [0 \<mapsto> [104, 105, 0], 1 \<mapsto> [105, 0]] \<and>
   ms_search_ptrs [0 \<mapsto> [104, 105, 0], 1 \<mapsto> [105, 0]] (Ptr 0 0) (Ptr 1 0) =
     ms_search_ars [0 \<mapsto> [104, 105, 0], 1 \<mapsto> [105, 0]] (Ptr 0 0) (Ptr 1 0)"
proof -
  have h: "size_ok [0 \<mapsto> [104, 105, 0], 1 \<mapsto> [105, 0]]"
    by (simp add: size_ok_def)
  show ?thesis
    using h ms_search_ptrs_equiv [OF h, of "Ptr 0 0" "Ptr 1 0"] by (simp add: block_str_def)
qed

text \<open>
  C4. The exception in C3 is a real difference: when haystack and needle
  are both empty strings, the array \<open>ms_search\<close> returns the haystack
  (as \<open>strstr\<close> does, the empty needle matching at position 0) and the
  pointer \<open>ms_search\<close> returns \<open>NULL\<close>.
\<close>

theorem ms_search_empty_divergence:
  assumes "cstr_at m haystack = Some []" and "cstr_at m needle = Some []" and "size_ok m"
  shows "ms_search_ars m haystack needle = Inr haystack \<and> ms_search_ptrs m haystack needle = Inr NULL"
  using ms_search_ars_ref [OF assms] ms_search_ptrs_ref [OF assms] by (simp add: search_ref_def match_at_def)

theorem ms_search_empty_divergence_witness:
  "cstr_at [0 \<mapsto> [0], 1 \<mapsto> [0]] (Ptr 0 0) = Some [] \<and> cstr_at [0 \<mapsto> [0], 1 \<mapsto> [0]] (Ptr 1 0) = Some [] \<and>
   size_ok [0 \<mapsto> [0], 1 \<mapsto> [0]] \<and>
   ms_search_ars [0 \<mapsto> [0], 1 \<mapsto> [0]] (Ptr 0 0) (Ptr 1 0) = Inr (Ptr 0 0) \<and>
   ms_search_ptrs [0 \<mapsto> [0], 1 \<mapsto> [0]] (Ptr 0 0) (Ptr 1 0) = Inr NULL"
proof -
  have h1: "cstr_at [0 \<mapsto> [0], 1 \<mapsto> [0]] (Ptr 0 0) = Some []"
    and h2: "cstr_at [0 \<mapsto> [0], 1 \<mapsto> [0]] (Ptr 1 0) = Some []"
    by (simp_all add: block_str_def)
  have h3: "size_ok [0 \<mapsto> [0], 1 \<mapsto> [0]]"
    by (simp add: size_ok_def)
  show ?thesis
    using h1 h2 h3 ms_search_empty_divergence [OF h1 h2 h3] by simp
qed

text \<open>
  C20. Copying a string onto itself shifted by one unit is not a copy: in
  both implementations \<open>ms_copy(s + 1, s)\<close> smears the first unit over the
  rest of the block and writes past its end, even when the block has room
  for the shifted string.
\<close>

theorem ms_copy_overlap_faults:
  assumes "m b = Some xs" and "xs \<noteq> []" and "xs ! 0 \<noteq> 0"
  shows "ms_copy_ars m (Ptr b 1) (Ptr b 0) = Inl Invalid_access \<and>
         ms_copy_ptrs m (Ptr b 1) (Ptr b 0) = Inl Invalid_access"
proof -
  have "xs = replicate (Suc 0) (xs ! 0) @ drop (Suc 0) xs"
    using assms(2) by (cases xs) simp_all
  then have "ms_copy_ars_loop m (Ptr b 1) (Ptr b 0) 0 = Inl Invalid_access"
    using ms_copy_ars_loop_smear [of m b 0 "xs ! 0" xs] assms by simp
  then show ?thesis
    by (simp add: ms_copy_ptrs_eq ms_copy_ars_def)
qed

theorem ms_copy_overlap_faults_witness:
  "ms_copy_ars [0 \<mapsto> [97, 0, 0]] (Ptr 0 1) (Ptr 0 0) = Inl Invalid_access \<and>
   ms_copy_ptrs [0 \<mapsto> [97, 0, 0]] (Ptr 0 1) (Ptr 0 0) = Inl Invalid_access"
  using ms_copy_overlap_faults [of "[0 \<mapsto> [97, 0, 0]]" 0 "[97, 0, 0]"] by simp

end
