(* ===== verification/Mystring_H.thy ===== *)
theory Mystring_H
  imports Mystring_Ptrs
begin

text \<open>
  The interface \<open>src/mystring.h\<close>: the eight functions it declares, as a
  datatype of calls with their arguments, and what a call returns. An
  implementation of the header runs a call on a memory; \<open>run_ars\<close> and
  \<open>run_ptrs\<close> are the two implementations the repository links against the
  header. A client such as the test driver is written against
  \<open>ms_impl\<close>, so what is proved of one implementation's runs carries over
  to the other wherever the two agree.
\<close>

datatype ms_call =
    Ms_length ptr
  | Ms_copy ptr ptr
  | Ms_ncopy ptr ptr size_t
  | Ms_concat ptr ptr
  | Ms_nconcat ptr ptr size_t
  | Ms_compare ptr ptr
  | Ms_ncompare ptr ptr size_t
  | Ms_search ptr ptr

datatype ms_value = V_size size_t | V_ptr ptr | V_int int

type_synonym ms_impl = "mem \<Rightarrow> ms_call \<Rightarrow> (mem \<times> ms_value) result"

definition ret_size :: "mem \<Rightarrow> size_t result \<Rightarrow> (mem \<times> ms_value) result" where
  "ret_size m r = bindE r (\<lambda>n. Inr (m, V_size n))"

definition ret_dest :: "(mem \<times> ptr) result \<Rightarrow> (mem \<times> ms_value) result" where
  "ret_dest r = bindE r (\<lambda>(m', p). Inr (m', V_ptr p))"

definition ret_int :: "mem \<Rightarrow> int result \<Rightarrow> (mem \<times> ms_value) result" where
  "ret_int m r = bindE r (\<lambda>v. Inr (m, V_int v))"

definition ret_ptr :: "mem \<Rightarrow> ptr result \<Rightarrow> (mem \<times> ms_value) result" where
  "ret_ptr m r = bindE r (\<lambda>p. Inr (m, V_ptr p))"

fun run_ars :: ms_impl where
  "run_ars m (Ms_length s) = ret_size m (ms_length_ars m s)"
| "run_ars m (Ms_copy d s) = ret_dest (ms_copy_ars m d s)"
| "run_ars m (Ms_ncopy d s n) = ret_dest (ms_ncopy_ars m d s n)"
| "run_ars m (Ms_concat d s) = ret_dest (ms_concat_ars m d s)"
| "run_ars m (Ms_nconcat d s n) = ret_dest (ms_nconcat_ars m d s n)"
| "run_ars m (Ms_compare a b) = ret_int m (ms_compare_ars m a b)"
| "run_ars m (Ms_ncompare a b n) = ret_int m (ms_ncompare_ars m a b n)"
| "run_ars m (Ms_search h n) = ret_ptr m (ms_search_ars m h n)"

fun run_ptrs :: ms_impl where
  "run_ptrs m (Ms_length s) = ret_size m (ms_length_ptrs m s)"
| "run_ptrs m (Ms_copy d s) = ret_dest (ms_copy_ptrs m d s)"
| "run_ptrs m (Ms_ncopy d s n) = ret_dest (ms_ncopy_ptrs m d s n)"
| "run_ptrs m (Ms_concat d s) = ret_dest (ms_concat_ptrs m d s)"
| "run_ptrs m (Ms_nconcat d s n) = ret_dest (ms_nconcat_ptrs m d s n)"
| "run_ptrs m (Ms_compare a b) = ret_int m (ms_compare_ptrs m a b)"
| "run_ptrs m (Ms_ncompare a b n) = ret_int m (ms_ncompare_ptrs m a b n)"
| "run_ptrs m (Ms_search h n) = ret_ptr m (ms_search_ptrs m h n)"

fun is_search :: "ms_call \<Rightarrow> bool" where
  "is_search (Ms_search h n) = True"
| "is_search _ = False"

text \<open>The calls with a \<open>NULL\<close> argument, which every function \<open>assert\<close>s against.\<close>

fun null_arg :: "ms_call \<Rightarrow> bool" where
  "null_arg (Ms_length s) = (s = NULL)"
| "null_arg (Ms_copy d s) = (d = NULL \<or> s = NULL)"
| "null_arg (Ms_ncopy d s n) = (d = NULL \<or> s = NULL)"
| "null_arg (Ms_concat d s) = (d = NULL \<or> s = NULL)"
| "null_arg (Ms_nconcat d s n) = (d = NULL \<or> s = NULL)"
| "null_arg (Ms_compare a b) = (a = NULL \<or> b = NULL)"
| "null_arg (Ms_ncompare a b n) = (a = NULL \<or> b = NULL)"
| "null_arg (Ms_search h n) = (h = NULL \<or> n = NULL)"

text \<open>
  The types the header declares for the results: \<open>size_t\<close> for
  \<open>ms_length\<close>, \<open>int\<close> for the comparisons, the destination for the
  functions that write, and for \<open>ms_search\<close> \<open>NULL\<close> or a pointer into the
  haystack at or after its start.
\<close>

fun points_into :: "ptr \<Rightarrow> ptr \<Rightarrow> bool" where
  "points_into (Ptr b i) (Ptr c j) = (b = c \<and> i \<le> j)"
| "points_into _ _ = False"

fun ret_type_ok :: "ms_call \<Rightarrow> ms_value \<Rightarrow> bool" where
  "ret_type_ok (Ms_length s) v = (case v of V_size n \<Rightarrow> True | _ \<Rightarrow> False)"
| "ret_type_ok (Ms_copy d s) v = (v = V_ptr d)"
| "ret_type_ok (Ms_ncopy d s n) v = (v = V_ptr d)"
| "ret_type_ok (Ms_concat d s) v = (v = V_ptr d)"
| "ret_type_ok (Ms_nconcat d s n) v = (v = V_ptr d)"
| "ret_type_ok (Ms_compare a b) v = (case v of V_int r \<Rightarrow> True | _ \<Rightarrow> False)"
| "ret_type_ok (Ms_ncompare a b n) v = (case v of V_int r \<Rightarrow> True | _ \<Rightarrow> False)"
| "ret_type_ok (Ms_search h n) v = (case v of V_ptr p \<Rightarrow> p = NULL \<or> points_into h p | _ \<Rightarrow> False)"

definition returns_typed :: "ms_call \<Rightarrow> (mem \<times> ms_value) result \<Rightarrow> bool" where
  "returns_typed c r = (case r of Inl e \<Rightarrow> True | Inr (m', v) \<Rightarrow> ret_type_ok c v)"


definition unchanged_outside :: "ptr \<Rightarrow> mem \<Rightarrow> mem \<Rightarrow> bool" where
  "unchanged_outside d m m' \<longleftrightarrow> (\<forall>q. \<not> points_into d q \<longrightarrow> load m' q = load m q)"

text \<open>
  C2. The two implementations are interchangeable behind the header for
  every call other than \<open>ms_search\<close>: on every memory and every argument,
  \<open>NULL\<close>, unterminated and overlapping ones included, they return the same
  fault or the same memory and value.
\<close>

theorem run_ptrs_eq_run_ars:
  "\<not> is_search c \<Longrightarrow> run_ptrs m c = run_ars m c"
  by (cases c) (simp_all add: ms_ptrs_eq)

theorem run_ptrs_eq_run_ars_witness:
  "\<not> is_search (Ms_concat (Ptr 0 0) (Ptr 0 0)) \<and>
   run_ptrs [0 \<mapsto> [97, 0, 0]] (Ms_concat (Ptr 0 0) (Ptr 0 0)) =
     run_ars [0 \<mapsto> [97, 0, 0]] (Ms_concat (Ptr 0 0) (Ptr 0 0)) \<and>
   run_ars [0 \<mapsto> [97, 0, 0]] (Ms_concat (Ptr 0 0) (Ptr 0 0)) = Inl Invalid_access"
proof -
  have h: "\<not> is_search (Ms_concat (Ptr 0 0) (Ptr 0 0))"
    by simp
  have "run_ars [0 \<mapsto> [97, 0, 0]] (Ms_concat (Ptr 0 0) (Ptr 0 0)) = Inl Invalid_access"
    by (simp add: ms_concat_ars_def ms_length_ars_def ms_length_ars_loop.simps
          ms_concat_ars_loop.simps ret_dest_def)
  then show ?thesis
    using h run_ptrs_eq_run_ars [OF h, of "[0 \<mapsto> [97, 0, 0]]"] by simp
qed

lemma run_ars_Assert_fail_iff: "run_ars m c = Inl Assert_fail \<longleftrightarrow> null_arg c"
proof (cases c)
  case (Ms_length s)
  then show ?thesis
    by (simp add: ret_size_def bindE_eq_Inl ms_length_ars_no_assert)
next
  case (Ms_copy d s)
  then show ?thesis
    using ms_copy_ars_loop_no_assert [of m d s 0]
    by (cases d; cases s) (auto simp: ret_dest_def ms_copy_ars_def bindE_def split: sum.splits option.splits if_splits)
next
  case (Ms_ncopy d s n)
  then show ?thesis
    using ms_ncopy_ars_loop_no_assert [of m d s n 0] ms_ncopy_ars_pad_no_assert
    by (cases d; cases s) (auto simp: ret_dest_def ms_ncopy_ars_def bindE_def split: sum.splits)
next
  case (Ms_concat d s)
  then show ?thesis
    using ms_length_ars_no_assert [of m d] ms_concat_ars_loop_no_assert
    by (cases d; cases s) (auto simp: ret_dest_def ms_concat_ars_def bindE_def split: sum.splits option.splits if_splits)
next
  case (Ms_nconcat d s n)
  then show ?thesis
    using ms_length_ars_no_assert [of m d] ms_nconcat_ars_loop_no_assert
    by (cases d; cases s) (auto simp: ret_dest_def ms_nconcat_ars_def bindE_def split: sum.splits option.splits if_splits)
next
  case (Ms_compare a b)
  then show ?thesis
    using ms_compare_ars_loop_no_assert [of m a b 0]
    by (cases a; cases b) (auto simp: ret_int_def ms_compare_ars_def bindE_def split: sum.splits)
next
  case (Ms_ncompare a b n)
  then show ?thesis
    using ms_ncompare_ars_loop_no_assert [of m a b n 0]
    by (cases a; cases b) (auto simp: ret_int_def ms_ncompare_ars_def bindE_def split: sum.splits)
next
  case (Ms_search h n)
  then show ?thesis
    using ms_length_ars_no_assert [of m h] ms_length_ars_no_assert [of m n] ms_search_ars_outer_no_assert
    by (cases h; cases n) (auto simp: ret_ptr_def ms_search_ars_def bindE_def split: sum.splits)
qed

lemma run_ptrs_search_Assert_fail_iff:
  "run_ptrs m (Ms_search h n) = Inl Assert_fail \<longleftrightarrow> h = NULL \<or> n = NULL"
  using ms_length_ars_no_assert [of m h] ms_length_ars_no_assert [of m n]
    ms_search_ptrs_loop_no_assert [of n m]
  by (cases h; cases n) (auto simp: ret_ptr_def ms_search_ptrs_def ms_length_ptrs_eq bindE_def split: sum.splits)

text \<open>
  C13. The one error the header specifies is also the only one a call can
  raise by itself: in both implementations a call fails its \<open>assert\<close>
  exactly when one of its pointer arguments is \<open>NULL\<close>. Every other fault
  is an access outside a block.
\<close>

theorem run_Assert_fail_iff_null_arg:
  "(run_ars m c = Inl Assert_fail \<longleftrightarrow> null_arg c) \<and>
   (run_ptrs m c = Inl Assert_fail \<longleftrightarrow> null_arg c)"
  using run_ars_Assert_fail_iff [of m c] run_ptrs_search_Assert_fail_iff [of m]
  by (cases c) (simp_all add: ms_ptrs_eq)

lemma points_into_ptr_add [simp]: "h \<noteq> NULL \<Longrightarrow> points_into h (ptr_add h k)"
  by (cases h) simp_all

lemma unchanged_outside_refl [simp]: "unchanged_outside d m m"
  by (simp add: unchanged_outside_def)











lemma ms_search_ars_outer_result:
  "ms_search_ars_outer m h n l nl i = Inr p \<Longrightarrow> p = NULL \<or> (\<exists>k. p = ptr_add h k)"
proof (induction m h n l nl i rule: ms_search_ars_outer.induct)
  case (1 m h n l nl i)
  then show ?case
    by (subst (asm) ms_search_ars_outer.simps) (auto simp: bindE_eq_Inr split: if_splits)
qed

lemma ms_search_ptrs_loop_result:
  "ms_search_ptrs_loop m n nl p = Inr q \<Longrightarrow> q = NULL \<or> (\<exists>k. q = ptr_add p k)"
proof (induction m n nl p rule: ms_search_ptrs_loop.induct)
  case (1 m n nl p)
  then show ?case
    by (subst (asm) ms_search_ptrs_loop.simps)
       (auto simp: bindE_eq_Inr split: if_splits dest!: "1.IH" intro: exI [of _ 0] exI [of _ "Suc _"])
qed


lemma ms_dest_results:
  "ms_copy_ars m d s = Inr (m', p) \<Longrightarrow> p = d"
  "ms_ncopy_ars m d s n = Inr (m', p) \<Longrightarrow> p = d"
  "ms_concat_ars m d s = Inr (m', p) \<Longrightarrow> p = d"
  "ms_nconcat_ars m d s n = Inr (m', p) \<Longrightarrow> p = d"
  by (auto simp: ms_copy_ars_def ms_ncopy_ars_def ms_concat_ars_def ms_nconcat_ars_def bindE_eq_Inr
           split: prod.splits)

lemma run_ars_typed: "returns_typed c (run_ars m c)"
proof (cases c)
  case (Ms_search h n)
  then show ?thesis
    by (cases h)
       (auto simp: returns_typed_def ret_ptr_def ms_search_ars_def bindE_def split: sum.splits if_splits
             dest!: ms_search_ars_outer_result)
qed (auto simp: returns_typed_def ret_size_def ret_dest_def ret_int_def bindE_def
          dest: ms_dest_results split: sum.splits)

text \<open>
  C21. Every call that returns gives a value of the type the header
  declares: the functions that write return their destination, and
  \<open>ms_search\<close> returns \<open>NULL\<close> or a pointer into the haystack, in both
  implementations.
\<close>

theorem run_returns_typed: "returns_typed c (run_ars m c) \<and> returns_typed c (run_ptrs m c)"
proof (cases "is_search c")
  case False
  then have "run_ptrs m c = run_ars m c"
    by (cases c) (simp_all add: ms_ptrs_eq)
  then show ?thesis
    using run_ars_typed [of c m] by simp
next
  case True
  then obtain h n where c: "c = Ms_search h n"
    by (cases c) simp_all
  then show ?thesis
    using run_ars_typed [of c m]
    by (cases h)
       (auto simp: returns_typed_def ret_ptr_def ms_search_ptrs_def bindE_def split: sum.splits if_splits
             dest!: ms_search_ptrs_loop_result)
qed

end
