(* ===== verification/Test_Driver.thy ===== *)
theory Test_Driver
  imports Mystring_H
begin

text \<open>
  The test driver \<open>src/main.c\<close>. Each test function declares its
  \<open>char\<close> arrays (blocks 0, 1, 2 in the order of declaration), calls one
  function of the module through the header and the C library function it
  shadows, and prints both results when they differ. A test is modelled
  as whether it prints; it is parameterised by the implementation of the
  header it is linked with. The C library functions are given by their
  ISO C contracts on null-terminated strings, with \<open>strcmp\<close> and
  \<open>strncmp\<close> returning the difference of the first differing units read as
  \<open>unsigned char\<close>, as the x86-64 GNU C library computes it.
\<close>

text \<open>\<open>char a[n] = "s"\<close>: the units of \<open>s\<close>, then zeros up to \<open>n\<close>.\<close>

definition char_array :: "nat \<Rightarrow> string \<Rightarrow> cchar list" where
  "char_array n s = (let b = map of_char s in b @ replicate (n - length b) 0)"

text \<open>\<open>char a[] = "s"\<close>: the array is sized to the literal and its terminator.\<close>

definition str_array :: "string \<Rightarrow> cchar list" where
  "str_array s = char_array (Suc (length s)) s"

fun cmp_uref :: "cchar list \<Rightarrow> cchar list \<Rightarrow> int" where
  "cmp_uref [] [] = 0"
| "cmp_uref [] (y # ys) = - uint y"
| "cmp_uref (x # xs) [] = uint x"
| "cmp_uref (x # xs) (y # ys) = (if x = y then cmp_uref xs ys else uint x - uint y)"

definition read_str :: "mem \<Rightarrow> ptr \<Rightarrow> cchar list result" where
  "read_str m p = (case cstr_at m p of None \<Rightarrow> Inl Invalid_access | Some s \<Rightarrow> Inr s)"

text \<open>The units a bounded function reads: up to the first zero, at most \<open>n\<close>.\<close>

fun read_strn :: "mem \<Rightarrow> ptr \<Rightarrow> nat \<Rightarrow> cchar list result" where
  "read_strn m NULL n = Inl Invalid_access"
| "read_strn m (Ptr b i) n =
     (case m b of None \<Rightarrow> Inl Invalid_access
      | Some xs \<Rightarrow>
          (let ys = take n (drop i xs) in
           if 0 \<in> set ys then Inr (takeWhile (\<lambda>c. c \<noteq> 0) ys)
           else if i + n \<le> length xs then Inr ys else Inl Invalid_access))"

definition write_str :: "mem \<Rightarrow> ptr \<Rightarrow> cchar list \<Rightarrow> mem result" where
  "write_str m p ws = (if fits m p (length ws) then Inr (write_bytes m p ws) else Inl Invalid_access)"

definition strlen_ref :: "mem \<Rightarrow> ptr \<Rightarrow> size_t result" where
  "strlen_ref m s = bindE (read_str m s) (\<lambda>t. Inr (of_nat (length t)))"

definition strcpy_ref :: "mem \<Rightarrow> ptr \<Rightarrow> ptr \<Rightarrow> (mem \<times> ptr) result" where
  "strcpy_ref m d s = bindE (read_str m s) (\<lambda>t. bindE (write_str m d (t @ [0])) (\<lambda>m'. Inr (m', d)))"

definition strncpy_ref :: "mem \<Rightarrow> ptr \<Rightarrow> ptr \<Rightarrow> size_t \<Rightarrow> (mem \<times> ptr) result" where
  "strncpy_ref m d s n =
     bindE (read_strn m s (unat n)) (\<lambda>t.
     bindE (write_str m d (t @ replicate (unat n - length t) 0)) (\<lambda>m'. Inr (m', d)))"

definition strcat_ref :: "mem \<Rightarrow> ptr \<Rightarrow> ptr \<Rightarrow> (mem \<times> ptr) result" where
  "strcat_ref m d s =
     bindE (read_str m d) (\<lambda>x. bindE (read_str m s) (\<lambda>t.
     bindE (write_str m (ptr_add d (length x)) (t @ [0])) (\<lambda>m'. Inr (m', d))))"

definition strncat_ref :: "mem \<Rightarrow> ptr \<Rightarrow> ptr \<Rightarrow> size_t \<Rightarrow> (mem \<times> ptr) result" where
  "strncat_ref m d s n =
     bindE (read_str m d) (\<lambda>x. bindE (read_strn m s (unat n)) (\<lambda>t.
     bindE (write_str m (ptr_add d (length x)) (t @ [0])) (\<lambda>m'. Inr (m', d))))"

definition strcmp_ref :: "mem \<Rightarrow> ptr \<Rightarrow> ptr \<Rightarrow> int result" where
  "strcmp_ref m a b = bindE (read_str m a) (\<lambda>x. bindE (read_str m b) (\<lambda>y. Inr (cmp_uref x y)))"

definition strncmp_ref :: "mem \<Rightarrow> ptr \<Rightarrow> ptr \<Rightarrow> size_t \<Rightarrow> int result" where
  "strncmp_ref m a b n =
     bindE (read_strn m a (unat n)) (\<lambda>x. bindE (read_strn m b (unat n)) (\<lambda>y.
       Inr (cmp_uref x y)))"

definition strstr_ref :: "mem \<Rightarrow> ptr \<Rightarrow> ptr \<Rightarrow> ptr result" where
  "strstr_ref m h n =
     bindE (read_str m h) (\<lambda>x. bindE (read_str m n) (\<lambda>y.
       Inr (case search_ref x y of None \<Rightarrow> NULL | Some k \<Rightarrow> ptr_add h k)))"

text \<open>Reading a returned value as the C variable it is assigned to.\<close>

fun as_ptr :: "ms_value \<Rightarrow> ptr" where
  "as_ptr (V_ptr p) = p"
| "as_ptr _ = NULL"

text \<open>\<open>int x = ms_length(s)\<close>: the conversion of \<open>size_t\<close> to \<open>int\<close> keeps the low 32 bits.\<close>

fun as_int :: "ms_value \<Rightarrow> int" where
  "as_int (V_int v) = v"
| "as_int (V_size n) = sint (ucast n :: 32 word)"
| "as_int (V_ptr p) = 0"

definition test_ms_copy :: "ms_impl \<Rightarrow> bool result" where
  "test_ms_copy run =
     (let m = [0 \<mapsto> str_array ''this'', 1 \<mapsto> str_array ''this'', 2 \<mapsto> str_array ''that'']
      in bindE (run m (Ms_copy (Ptr 0 0) (Ptr 2 0))) (\<lambda>(m1, a).
         bindE (strcpy_ref m1 (Ptr 1 0) (Ptr 2 0)) (\<lambda>(m2, b).
         bindE (strcmp_ref m2 (as_ptr a) b) (\<lambda>r. Inr (r \<noteq> 0)))))"

definition test_ms_length :: "ms_impl \<Rightarrow> bool result" where
  "test_ms_length run =
     (let m = [0 \<mapsto> str_array ''this'']
      in bindE (run m (Ms_length (Ptr 0 0))) (\<lambda>(m1, v).
         bindE (strlen_ref m1 (Ptr 0 0)) (\<lambda>n.
         Inr (as_int v \<noteq> as_int (V_size n)))))"

definition test_ms_compare :: "ms_impl \<Rightarrow> bool result" where
  "test_ms_compare run =
     (let m = [0 \<mapsto> str_array ''this'', 1 \<mapsto> str_array ''that'']
      in bindE (run m (Ms_compare (Ptr 0 0) (Ptr 1 0))) (\<lambda>(m1, a).
         bindE (strcmp_ref m1 (Ptr 0 0) (Ptr 1 0)) (\<lambda>b. Inr (as_int a \<noteq> b))))"

definition test_ms_concat :: "ms_impl \<Rightarrow> bool result" where
  "test_ms_concat run =
     (let m = [0 \<mapsto> str_array ''this'', 1 \<mapsto> char_array 9 ''that'', 2 \<mapsto> char_array 9 ''that'']
      in bindE (run m (Ms_concat (Ptr 1 0) (Ptr 0 0))) (\<lambda>(m1, a).
         bindE (strcat_ref m1 (Ptr 2 0) (Ptr 0 0)) (\<lambda>(m2, b).
         bindE (strcmp_ref m2 (as_ptr a) b) (\<lambda>r. Inr (r \<noteq> 0)))))"

definition test_ms_search :: "ms_impl \<Rightarrow> bool result" where
  "test_ms_search run =
     (let m = [0 \<mapsto> str_array ''Hello there'', 1 \<mapsto> str_array ''there'']
      in bindE (run m (Ms_search (Ptr 0 0) (Ptr 1 0))) (\<lambda>(m1, a).
         bindE (strstr_ref m1 (Ptr 0 0) (Ptr 1 0)) (\<lambda>b.
         bindE (strcmp_ref m1 (as_ptr a) b) (\<lambda>r. Inr (r \<noteq> 0)))))"

definition test_ms_ncopy :: "ms_impl \<Rightarrow> bool result" where
  "test_ms_ncopy run =
     (let m = [0 \<mapsto> str_array ''this'', 1 \<mapsto> str_array ''that'', 2 \<mapsto> str_array ''that'']
      in bindE (run m (Ms_ncopy (Ptr 1 0) (Ptr 0 0) 2)) (\<lambda>(m1, a).
         bindE (strncpy_ref m1 (Ptr 2 0) (Ptr 0 0) 2) (\<lambda>(m2, b).
         bindE (strcmp_ref m2 (as_ptr a) b) (\<lambda>r. Inr (r \<noteq> 0)))))"

definition test_ms_ncompare :: "ms_impl \<Rightarrow> bool result" where
  "test_ms_ncompare run =
     (let m = [0 \<mapsto> str_array ''this'', 1 \<mapsto> str_array ''that'']
      in bindE (run m (Ms_ncompare (Ptr 0 0) (Ptr 1 0) 3)) (\<lambda>(m1, a).
         bindE (strncmp_ref m1 (Ptr 0 0) (Ptr 1 0) 3) (\<lambda>b. Inr (as_int a \<noteq> b))))"

definition test_ms_nconcat :: "ms_impl \<Rightarrow> bool result" where
  "test_ms_nconcat run =
     (let m = [0 \<mapsto> str_array ''this'', 1 \<mapsto> char_array 9 ''that'', 2 \<mapsto> char_array 9 ''that'']
      in bindE (run m (Ms_nconcat (Ptr 1 0) (Ptr 0 0) 4)) (\<lambda>(m1, a).
         bindE (strncat_ref m1 (Ptr 2 0) (Ptr 0 0) 4) (\<lambda>(m2, b).
         bindE (strcmp_ref m2 (as_ptr a) b) (\<lambda>r. Inr (r \<noteq> 0)))))"

definition main_tests :: "ms_impl \<Rightarrow> bool result list" where
  "main_tests run =
     [test_ms_copy run, test_ms_length run, test_ms_compare run, test_ms_concat run,
      test_ms_search run, test_ms_ncopy run, test_ms_ncompare run, test_ms_nconcat run]"

lemma cmp_uref_refl: "cmp_uref a a = 0"
  by (induction a) auto

lemma uint_char_int: "uint c = char_int c mod 256"
  by (simp add: char_int_def uint_sint take_bit_eq_mod)

lemma char_int_high: "128 \<le> uint c \<Longrightarrow> char_int c = uint c - 256"
  using uint_char_int [of c] char_int_bounds [of c] by presburger

lemma char_int_low: "uint c < 128 \<Longrightarrow> char_int c = uint c"
  using uint_char_int [of c] char_int_bounds [of c] by presburger

lemma cmp_ref_first_diff:
  "x @ [0] = p @ u # r \<Longrightarrow> y @ [0] = p @ w # t \<Longrightarrow> u \<noteq> w \<Longrightarrow> cmp_ref x y = char_int u - char_int w"
proof (induction p arbitrary: x y)
  case Nil
  then show ?case by (cases x; cases y) auto
next
  case (Cons a p)
  then show ?case by (cases x; cases y) auto
qed

lemma cmp_uref_first_diff:
  "x @ [0] = p @ u # r \<Longrightarrow> y @ [0] = p @ w # t \<Longrightarrow> u \<noteq> w \<Longrightarrow> cmp_uref x y = uint u - uint w"
proof (induction p arbitrary: x y)
  case Nil
  then show ?case by (cases x; cases y) auto
next
  case (Cons a p)
  then show ?case by (cases x; cases y) auto
qed

text \<open>
  C16. \<open>ms_compare\<close> reads code units as the platform's signed \<open>char\<close>,
  the C library compares them as \<open>unsigned char\<close>. For every two
  terminated strings whose first difference is a unit \<open>u\<close> of 128 or
  more against a unit \<open>w\<close> below 128 (the terminator included),
  \<open>ms_compare\<close> returns the negative \<open>u - w - 256\<close> where \<open>strcmp\<close>
  returns the positive \<open>u - w\<close>: the two order such strings oppositely.
\<close>

theorem ms_compare_signed_char:
  assumes "cstr_at m str1 = Some x" and "cstr_at m str2 = Some y"
    and "x @ [0] = p @ u # r" and "y @ [0] = p @ w # t"
    and "128 \<le> uint u" and "uint w < 128"
  shows "ms_compare_ars m str1 str2 = Inr (uint u - uint w - 256) \<and> uint u - uint w - 256 < 0 \<and>
         strcmp_ref m str1 str2 = Inr (uint u - uint w) \<and> 0 < uint u - uint w"
proof -
  have ne: "u \<noteq> w" using assms(5,6) by auto
  have "ms_compare_ars m str1 str2 = Inr (char_int u - char_int w)"
    using ms_compare_ars_cstr [OF assms(1,2)] cmp_ref_first_diff [OF assms(3,4) ne] by simp
  moreover have "strcmp_ref m str1 str2 = Inr (uint u - uint w)"
    using assms(1,2) cmp_uref_first_diff [OF assms(3,4) ne] by (simp add: strcmp_ref_def read_str_def)
  moreover have "uint u < 256" using uint_bounded [of u] by simp
  ultimately show ?thesis
    using char_int_high [OF assms(5)] char_int_low [OF assms(6)] assms(5,6) uint_nonnegative [of w] by (simp only: sum.inject; linarith)
qed

theorem ms_compare_signed_char_witness:
  "ms_compare_ars [0 \<mapsto> [200, 0], 1 \<mapsto> [97, 0]] (Ptr 0 0) (Ptr 1 0) = Inr (- 153) \<and>
   strcmp_ref [0 \<mapsto> [200, 0], 1 \<mapsto> [97, 0]] (Ptr 0 0) (Ptr 1 0) = Inr 103"
  using ms_compare_signed_char [of "[0 \<mapsto> [200, 0], 1 \<mapsto> [97, 0]]" "Ptr 0 0" "[200]" "Ptr 1 0" "[97]" "[]" 200 "[0]" 97 "[0]"]
  by (simp add: block_str_def)

text \<open>
  C15. The bounded functions test the unit at the bound before the bound
  itself: on an array of exactly \<open>num\<close> nonzero units with no terminator,
  \<open>ms_ncopy\<close> reads \<open>src[num]\<close> and \<open>ms_ncompare\<close> reads \<open>str1[num]\<close>,
  past the array, where \<open>strncpy\<close> copies the \<open>num\<close> units and
  \<open>strncmp\<close> compares them.
\<close>

theorem bounded_reads_past_bound:
  assumes b: "m b = Some xs" and nz: "0 \<notin> set xs" and sz: "length xs < 2 ^ LENGTH(64)"
    and c: "m c = Some ys" and "c \<noteq> b" and "length xs \<le> length ys"
  shows "ms_ncopy_ars m (Ptr c 0) (Ptr b 0) (of_nat (length xs)) = Inl Invalid_access \<and>
         strncpy_ref m (Ptr c 0) (Ptr b 0) (of_nat (length xs)) = Inr (write_bytes m (Ptr c 0) xs, Ptr c 0) \<and>
         ms_ncompare_ars m (Ptr b 0) (Ptr b 0) (of_nat (length xs)) = Inl Invalid_access \<and>
         strncmp_ref m (Ptr b 0) (Ptr b 0) (of_nat (length xs)) = Inr 0"
proof -
  have u: "unat (of_nat (length xs) :: size_t) = length xs"
    using sz by (rule unat_of_nat_size_t)
  have r: "read_strn m (Ptr b 0) (length xs) = Inr xs"
    using b nz by simp
  show ?thesis
    using ms_ncopy_ars_loop_unterminated [of m b xs c ys 0] ms_ncompare_ars_loop_unterminated [of m b xs 0] assms
      r u c assms(6)
    by (simp add: ms_ncopy_ars_def ms_ncompare_ars_def strncpy_ref_def strncmp_ref_def write_str_def cmp_uref_refl)
qed

theorem bounded_reads_past_bound_witness:
  "ms_ncopy_ars [0 \<mapsto> [116, 104], 1 \<mapsto> [0, 0]] (Ptr 1 0) (Ptr 0 0) 2 = Inl Invalid_access \<and>
   strncpy_ref [0 \<mapsto> [116, 104], 1 \<mapsto> [0, 0]] (Ptr 1 0) (Ptr 0 0) 2 =
     Inr ([0 \<mapsto> [116, 104], 1 \<mapsto> [116, 104]], Ptr 1 0) \<and>
   ms_ncompare_ars [0 \<mapsto> [116, 104], 1 \<mapsto> [0, 0]] (Ptr 0 0) (Ptr 0 0) 2 = Inl Invalid_access \<and>
   strncmp_ref [0 \<mapsto> [116, 104], 1 \<mapsto> [0, 0]] (Ptr 0 0) (Ptr 0 0) 2 = Inr 0"
  using bounded_reads_past_bound [of "[0 \<mapsto> [116, 104], 1 \<mapsto> [0, 0]]" 0 "[116, 104]" 1 "[0, 0]"]
  by (simp add: splice_def)

end
