(* ===== verification/Mystring_Contract.thy ===== *)
theory Mystring_Contract
  imports Mystring_H
begin

text \<open>
  The contract \<open>src/mystring.h\<close> documents for each function, as a partial
  function of the memory and the call: \<open>None\<close> when a documented
  precondition fails (an argument that must be a null-terminated string is
  not one, the destination has no room, the destination overlaps the
  source; the source of \<open>ms_ncopy\<close> and \<open>ms_nconcat\<close> may lack a
  terminator when it has more than \<open>num\<close> units), otherwise the memory and the value the header promises, stated
  with the list-level results of \<open>CString\<close>. The refinement theorem says the
  implementations deliver exactly that whenever the contract applies.
\<close>

fun ms_contract :: "mem \<Rightarrow> ms_call \<Rightarrow> (mem \<times> ms_value) option" where
  "ms_contract m (Ms_length s) = map_option (\<lambda>t. (m, V_size (of_nat (length t)))) (cstr_at m s)"
| "ms_contract m (Ms_copy d s) =
     (case cstr_at m s of None \<Rightarrow> None
      | Some t \<Rightarrow>
          if fits m d (Suc (length t)) \<and> separate d (Suc (length t)) s (Suc (length t))
          then Some (write_bytes m d (t @ [0]), V_ptr d) else None)"
| "ms_contract m (Ms_ncopy d s n) =
     (case cstr_at m s of
        Some t \<Rightarrow>
          if fits m d (unat n) \<and> separate d (unat n) s (Suc (length t))
          then Some (write_bytes m d (take (unat n) t @ replicate (unat n - length t) 0), V_ptr d)
          else None
      | None \<Rightarrow>
          (case units m s (Suc (unat n)) of None \<Rightarrow> None
           | Some ys \<Rightarrow>
               if fits m d (unat n) \<and> separate d (unat n) s (Suc (unat n))
               then Some (write_bytes m d (take (unat n) ys), V_ptr d) else None))"
| "ms_contract m (Ms_concat d s) =
     (case (cstr_at m d, cstr_at m s) of
        (Some x, Some t) \<Rightarrow>
          if fits m d (length x + Suc (length t)) \<and>
             separate (ptr_add d (length x)) (Suc (length t)) s (Suc (length t))
          then Some (write_bytes m (ptr_add d (length x)) (t @ [0]), V_ptr d) else None
      | _ \<Rightarrow> None)"
| "ms_contract m (Ms_nconcat d s n) =
     (case (cstr_at m d, cstr_at m s) of
        (Some x, Some t) \<Rightarrow>
          if fits m d (length x + Suc (min (length t) (unat n))) \<and>
             separate (ptr_add d (length x)) (Suc (min (length t) (unat n))) s (Suc (length t))
          then Some (write_bytes m (ptr_add d (length x)) (take (unat n) t @ [0]), V_ptr d) else None
      | (Some x, None) \<Rightarrow>
          (case units m s (Suc (unat n)) of None \<Rightarrow> None
           | Some ys \<Rightarrow>
               if fits m d (length x + Suc (unat n)) \<and>
                  separate (ptr_add d (length x)) (Suc (unat n)) s (Suc (unat n))
               then Some (write_bytes m (ptr_add d (length x)) (take (unat n) ys @ [0]), V_ptr d)
               else None)
      | _ \<Rightarrow> None)"
| "ms_contract m (Ms_compare a b) =
     (case (cstr_at m a, cstr_at m b) of
        (Some x, Some y) \<Rightarrow> Some (m, V_int (cmp_ref x y))
      | _ \<Rightarrow> None)"
| "ms_contract m (Ms_ncompare a b n) =
     (case (cstr_at m a, cstr_at m b) of
        (Some x, Some y) \<Rightarrow> Some (m, V_int (cmp_ref (take (unat n) x) (take (unat n) y)))
      | _ \<Rightarrow> None)"
| "ms_contract m (Ms_search h n) =
     (case (cstr_at m h, cstr_at m n) of
        (Some x, Some y) \<Rightarrow>
          Some (m, V_ptr (case search_ref x y of None \<Rightarrow> NULL | Some k \<Rightarrow> ptr_add h k))
      | _ \<Rightarrow> None)"

text \<open>The one call on which the pointer implementation leaves the contract.\<close>

fun empty_search :: "mem \<Rightarrow> ms_call \<Rightarrow> bool" where
  "empty_search m (Ms_search h n) = (cstr_at m h = Some [] \<and> cstr_at m n = Some [])"
| "empty_search m _ = False"

lemma run_ars_contract:
  assumes sz: "size_ok m" and c: "ms_contract m c = Some r"
  shows "run_ars m c = Inr r"
proof (cases c)
  case (Ms_length s)
  with c show ?thesis
    by (auto simp: ret_size_def ms_length_ars_cstr)
next
  case (Ms_copy d s)
  with c show ?thesis
    by (auto simp: ret_dest_def ms_copy_ars_writes split: option.splits if_splits)
next
  case (Ms_ncopy d s n)
  have "0 \<notin> set (take (unat n) ys)" if "cstr_at m s = None" "units m s (Suc (unat n)) = Some ys" for ys
    using cstr_at_None_units [OF that] in_set_takeD by fastforce
  with c Ms_ncopy show ?thesis
    by (auto simp: ret_dest_def ms_ncopy_ars_writes ms_ncopy_ars_units split: option.splits if_splits)
next
  case (Ms_concat d s)
  with c sz show ?thesis
    by (auto simp: ret_dest_def ms_concat_ars_writes split: option.splits if_splits)
next
  case (Ms_nconcat d s n)
  have "0 \<notin> set (take (unat n) ys)" if "cstr_at m s = None" "units m s (Suc (unat n)) = Some ys" for ys
    using cstr_at_None_units [OF that] in_set_takeD by fastforce
  with c sz Ms_nconcat show ?thesis
    by (auto simp: ret_dest_def ms_nconcat_ars_writes ms_nconcat_ars_units split: option.splits if_splits)
next
  case (Ms_compare a b)
  with c show ?thesis
    by (auto simp: ret_int_def ms_compare_ars_cstr split: option.splits)
next
  case (Ms_ncompare a b n)
  with c show ?thesis
    by (auto simp: ret_int_def ms_ncompare_ars_cstr split: option.splits)
next
  case (Ms_search h n)
  with c sz show ?thesis
    by (auto simp: ret_ptr_def ms_search_ars_ref split: option.splits)
qed

lemma run_ptrs_contract:
  assumes sz: "size_ok m" and c: "ms_contract m c = Some r" and ne: "\<not> empty_search m c"
  shows "run_ptrs m c = Inr r"
proof (cases "is_search c")
  case False
  then have "run_ptrs m c = run_ars m c"
    by (cases c) (simp_all add: ms_ptrs_eq)
  then show ?thesis
    using run_ars_contract [OF sz c] by simp
next
  case True
  then obtain h n where hn: "c = Ms_search h n"
    by (cases c) simp_all
  with c obtain x y where x: "cstr_at m h = Some x" and y: "cstr_at m n = Some y"
    by (auto split: option.splits)
  with ne hn have "\<not> (x = [] \<and> y = [])"
    by simp
  with c hn x y show ?thesis
    using ms_search_ptrs_cstr [OF x y sz] by (simp add: ret_ptr_def)
qed

text \<open>
  C1. Both implementations refine the header's contract: on memory whose
  blocks fit \<open>size_t\<close>, whenever the contract of a call applies, the array
  implementation returns exactly the memory and value it promises, and so
  does the pointer implementation, except on a search for an empty needle
  in an empty haystack.
\<close>

theorem run_refines_contract:
  assumes "size_ok m" and "ms_contract m c = Some r"
  shows "run_ars m c = Inr r \<and> (\<not> empty_search m c \<longrightarrow> run_ptrs m c = Inr r)"
  using run_ars_contract [OF assms] run_ptrs_contract [OF assms] by blast

theorem run_refines_contract_witness:
  "size_ok [0 \<mapsto> [104, 105, 0], 1 \<mapsto> [105, 0]] \<and>
   ms_contract [0 \<mapsto> [104, 105, 0], 1 \<mapsto> [105, 0]] (Ms_search (Ptr 0 0) (Ptr 1 0)) =
     Some ([0 \<mapsto> [104, 105, 0], 1 \<mapsto> [105, 0]], V_ptr (Ptr 0 1)) \<and>
   \<not> empty_search [0 \<mapsto> [104, 105, 0], 1 \<mapsto> [105, 0]] (Ms_search (Ptr 0 0) (Ptr 1 0)) \<and>
   run_ars [0 \<mapsto> [104, 105, 0], 1 \<mapsto> [105, 0]] (Ms_search (Ptr 0 0) (Ptr 1 0)) =
     Inr ([0 \<mapsto> [104, 105, 0], 1 \<mapsto> [105, 0]], V_ptr (Ptr 0 1)) \<and>
   run_ptrs [0 \<mapsto> [104, 105, 0], 1 \<mapsto> [105, 0]] (Ms_search (Ptr 0 0) (Ptr 1 0)) =
     Inr ([0 \<mapsto> [104, 105, 0], 1 \<mapsto> [105, 0]], V_ptr (Ptr 0 1))"
proof -
  let ?m = "[0 \<mapsto> [104, 105, 0], 1 \<mapsto> [105, 0]] :: mem"
  have s: "size_ok ?m"
    by (simp add: size_ok_def)
  have c: "ms_contract ?m (Ms_search (Ptr 0 0) (Ptr 1 0)) = Some (?m, V_ptr (Ptr 0 1))"
    by (simp add: block_str_def search_ref_def match_at_def)
  have e: "\<not> empty_search ?m (Ms_search (Ptr 0 0) (Ptr 1 0))"
    by (simp add: block_str_def)
  show ?thesis
    using s c e run_refines_contract [OF s c] by simp
qed

end
