(* ===== verification/Ars_Counters.thy ===== *)
theory Ars_Counters
  imports Mystring_Ars
begin

text \<open>
  The array implementation with its counters as the C code declares them:
  \<open>str_length\<close> and \<open>i\<close> are \<open>size_t\<close> words, \<open>i++\<close> wraps around at
  \<open>2^64\<close>, and \<open>str[i]\<close> is the unit at offset \<open>unat i\<close>. A loop whose
  only exit is a terminator (\<open>ms_length\<close>, \<open>ms_copy\<close>, \<open>ms_concat\<close>,
  \<open>ms_compare\<close>) would not return on a block of \<open>2^64\<close> units or more, which
  no C object is, and is modelled as a \<open>partial_function (option)\<close>:
  \<open>None\<close> is a run that does not return. The lemmas \<open>ms_X_ars_w_eq\<close> show
  that on a memory whose blocks fit \<open>size_t\<close> each loop returns, with the
  result of the \<open>nat\<close>-counter model. A loop that also tests \<open>i != num\<close> (\<open>ms_ncopy\<close>, \<open>ms_nconcat\<close>,
  \<open>ms_ncompare\<close>) ends within \<open>2^64\<close> iterations, since \<open>num - i\<close>
  decreases by one each time, and is a total \<open>function\<close>.
\<close>

subsection \<open>ms_length\<close>

partial_function (option) ms_length_ars_w_loop :: "mem \<Rightarrow> ptr \<Rightarrow> size_t \<Rightarrow> size_t result option" where
  "ms_length_ars_w_loop m str str_length =
     (case load m (ptr_add str (unat str_length)) of
        Inl e \<Rightarrow> Some (Inl e)
      | Inr c \<Rightarrow> if c \<noteq> 0 then ms_length_ars_w_loop m str (str_length + 1) else Some (Inr str_length))"

definition ms_length_ars_w :: "mem \<Rightarrow> ptr \<Rightarrow> size_t result option" where
  "ms_length_ars_w m str =
     bindO (Some (assert_nonnull str)) (\<lambda>_.
     ms_length_ars_w_loop m str 0)"

subsection \<open>ms_copy\<close>

partial_function (option) ms_copy_ars_w_loop ::
  "mem \<Rightarrow> ptr \<Rightarrow> ptr \<Rightarrow> size_t \<Rightarrow> (mem \<times> size_t) result option" where
  "ms_copy_ars_w_loop m dest src i =
     (case load m (ptr_add src (unat i)) of
        Inl e \<Rightarrow> Some (Inl e)
      | Inr c \<Rightarrow>
          if c \<noteq> 0 then
            (case store m (ptr_add dest (unat i)) c of
               Inl e \<Rightarrow> Some (Inl e)
             | Inr m' \<Rightarrow> ms_copy_ars_w_loop m' dest src (i + 1))
          else Some (Inr (m, i)))"

definition ms_copy_ars_w :: "mem \<Rightarrow> ptr \<Rightarrow> ptr \<Rightarrow> (mem \<times> ptr) result option" where
  "ms_copy_ars_w m dest src =
     bindO (Some (assert_nonnull dest)) (\<lambda>_.
     bindO (Some (assert_nonnull src)) (\<lambda>_.
     bindO (ms_copy_ars_w_loop m dest src 0) (\<lambda>(m', i).
     Some (bindE (store m' (ptr_add dest (unat i)) 0) (\<lambda>m''. Inr (m'', dest))))))"

subsection \<open>ms_ncopy\<close>

function ms_ncopy_ars_w_loop ::
  "mem \<Rightarrow> ptr \<Rightarrow> ptr \<Rightarrow> size_t \<Rightarrow> size_t \<Rightarrow> (mem \<times> size_t) result" where
  "ms_ncopy_ars_w_loop m dest src num i =
     bindE (load m (ptr_add src (unat i))) (\<lambda>c.
       if c \<noteq> 0 \<and> i \<noteq> num then
         bindE (store m (ptr_add dest (unat i)) c) (\<lambda>m'. ms_ncopy_ars_w_loop m' dest src num (i + 1))
       else Inr (m, i))"
  by pat_completeness auto
termination
  by (relation "measure (\<lambda>(m, dest, src, num, i). unat (num - i))") (auto simp: unat_size_t_minus_Suc)

function ms_ncopy_ars_w_pad :: "mem \<Rightarrow> ptr \<Rightarrow> size_t \<Rightarrow> size_t \<Rightarrow> mem result" where
  "ms_ncopy_ars_w_pad m dest num i =
     (if i \<noteq> num then
        bindE (store m (ptr_add dest (unat i)) 0) (\<lambda>m'. ms_ncopy_ars_w_pad m' dest num (i + 1))
      else Inr m)"
  by pat_completeness auto
termination
  by (relation "measure (\<lambda>(m, dest, num, i). unat (num - i))") (auto simp: unat_size_t_minus_Suc)

definition ms_ncopy_ars_w :: "mem \<Rightarrow> ptr \<Rightarrow> ptr \<Rightarrow> size_t \<Rightarrow> (mem \<times> ptr) result" where
  "ms_ncopy_ars_w m dest src num =
     bindE (assert_nonnull dest) (\<lambda>_.
     bindE (assert_nonnull src) (\<lambda>_.
     bindE (ms_ncopy_ars_w_loop m dest src num 0) (\<lambda>(m', i).
     bindE (ms_ncopy_ars_w_pad m' dest num i) (\<lambda>m''. Inr (m'', dest)))))"

subsection \<open>ms_concat\<close>

text \<open>\<open>dest[dest_length + i]\<close>: the index is a \<open>size_t\<close> sum, which wraps.\<close>

partial_function (option) ms_concat_ars_w_loop ::
  "mem \<Rightarrow> ptr \<Rightarrow> size_t \<Rightarrow> ptr \<Rightarrow> size_t \<Rightarrow> (mem \<times> size_t) result option" where
  "ms_concat_ars_w_loop m dest dest_length src i =
     (case load m (ptr_add src (unat i)) of
        Inl e \<Rightarrow> Some (Inl e)
      | Inr c \<Rightarrow>
          if c \<noteq> 0 then
            (case store m (ptr_add dest (unat (dest_length + i))) c of
               Inl e \<Rightarrow> Some (Inl e)
             | Inr m' \<Rightarrow> ms_concat_ars_w_loop m' dest dest_length src (i + 1))
          else Some (Inr (m, i)))"

definition ms_concat_ars_w :: "mem \<Rightarrow> ptr \<Rightarrow> ptr \<Rightarrow> (mem \<times> ptr) result option" where
  "ms_concat_ars_w m dest src =
     bindO (Some (assert_nonnull dest)) (\<lambda>_.
     bindO (Some (assert_nonnull src)) (\<lambda>_.
     bindO (ms_length_ars_w m dest) (\<lambda>dest_length.
     bindO (ms_concat_ars_w_loop m dest dest_length src 0) (\<lambda>(m', i).
     Some (bindE (store m' (ptr_add dest (unat (dest_length + i))) 0) (\<lambda>m''. Inr (m'', dest)))))))"

subsection \<open>ms_nconcat\<close>

function ms_nconcat_ars_w_loop ::
  "mem \<Rightarrow> ptr \<Rightarrow> size_t \<Rightarrow> ptr \<Rightarrow> size_t \<Rightarrow> size_t \<Rightarrow> (mem \<times> size_t) result" where
  "ms_nconcat_ars_w_loop m dest dest_length src num i =
     bindE (load m (ptr_add src (unat i))) (\<lambda>c.
       if c \<noteq> 0 \<and> i \<noteq> num then
         bindE (store m (ptr_add dest (unat (dest_length + i))) c) (\<lambda>m'.
           ms_nconcat_ars_w_loop m' dest dest_length src num (i + 1))
       else Inr (m, i))"
  by pat_completeness auto
termination
  by (relation "measure (\<lambda>(m, dest, dl, src, num, i). unat (num - i))")
     (auto simp: unat_size_t_minus_Suc)

definition ms_nconcat_ars_w :: "mem \<Rightarrow> ptr \<Rightarrow> ptr \<Rightarrow> size_t \<Rightarrow> (mem \<times> ptr) result option" where
  "ms_nconcat_ars_w m dest src num =
     bindO (Some (assert_nonnull dest)) (\<lambda>_.
     bindO (Some (assert_nonnull src)) (\<lambda>_.
     bindO (ms_length_ars_w m dest) (\<lambda>dest_length.
     Some (bindE (ms_nconcat_ars_w_loop m dest dest_length src num 0) (\<lambda>(m', i).
     bindE (store m' (ptr_add dest (unat (dest_length + i))) 0) (\<lambda>m''. Inr (m'', dest)))))))"

subsection \<open>ms_compare\<close>

partial_function (option) ms_compare_ars_w_loop :: "mem \<Rightarrow> ptr \<Rightarrow> ptr \<Rightarrow> size_t \<Rightarrow> int result option" where
  "ms_compare_ars_w_loop m str1 str2 i =
     (case load m (ptr_add str1 (unat i)) of
        Inl e \<Rightarrow> Some (Inl e)
      | Inr c1 \<Rightarrow>
          if c1 \<noteq> 0 then
            (case load m (ptr_add str2 (unat i)) of
               Inl e \<Rightarrow> Some (Inl e)
             | Inr c2 \<Rightarrow>
                 if c2 \<noteq> 0 then
                   (if c1 \<noteq> c2 then Some (Inr (char_int c1 - char_int c2))
                    else ms_compare_ars_w_loop m str1 str2 (i + 1))
                 else Some (Inr (char_int c1 - char_int c2)))
          else Some (bindE (load m (ptr_add str2 (unat i))) (\<lambda>c2. Inr (char_int c1 - char_int c2))))"

definition ms_compare_ars_w :: "mem \<Rightarrow> ptr \<Rightarrow> ptr \<Rightarrow> int result option" where
  "ms_compare_ars_w m str1 str2 =
     bindO (Some (assert_nonnull str1)) (\<lambda>_.
     bindO (Some (assert_nonnull str2)) (\<lambda>_.
     ms_compare_ars_w_loop m str1 str2 0))"

subsection \<open>ms_ncompare\<close>

function ms_ncompare_ars_w_loop :: "mem \<Rightarrow> ptr \<Rightarrow> ptr \<Rightarrow> size_t \<Rightarrow> size_t \<Rightarrow> int result" where
  "ms_ncompare_ars_w_loop m str1 str2 num i =
     bindE (load m (ptr_add str1 (unat i))) (\<lambda>c1.
       if c1 \<noteq> 0 then
         bindE (load m (ptr_add str2 (unat i))) (\<lambda>c2.
           if c2 \<noteq> 0 \<and> i \<noteq> num then
             (if c1 \<noteq> c2 then Inr (char_int c1 - char_int c2)
              else ms_ncompare_ars_w_loop m str1 str2 num (i + 1))
           else if i = num then Inr 0
           else Inr (char_int c1 - char_int c2))
       else if i = num then Inr 0
       else bindE (load m (ptr_add str2 (unat i))) (\<lambda>c2. Inr (char_int c1 - char_int c2)))"
  by pat_completeness auto
termination
  by (relation "measure (\<lambda>(m, str1, str2, num, i). unat (num - i))") (auto simp: unat_size_t_minus_Suc)

definition ms_ncompare_ars_w :: "mem \<Rightarrow> ptr \<Rightarrow> ptr \<Rightarrow> size_t \<Rightarrow> int result" where
  "ms_ncompare_ars_w m str1 str2 num =
     bindE (assert_nonnull str1) (\<lambda>_.
     bindE (assert_nonnull str2) (\<lambda>_.
     ms_ncompare_ars_w_loop m str1 str2 num 0))"

declare ms_ncopy_ars_w_loop.simps [simp del] ms_ncopy_ars_w_pad.simps [simp del]
  ms_ncompare_ars_w_loop.simps [simp del] ms_nconcat_ars_w_loop.simps [simp del]

lemma ms_length_ars_w_loop_eq:
  "n = unat w \<Longrightarrow> size_ok m \<Longrightarrow>
   map_option (map_sum id unat) (ms_length_ars_w_loop m str w) = Some (ms_length_ars_loop m str n)"
proof (induction m str n arbitrary: w rule: ms_length_ars_loop.induct)
  case (1 m str n)
  show ?case
  proof (cases "load m (ptr_add str n)")
    case (Inr c)
    then have s: "unat (w + 1) = Suc (unat w)"
      using "1.prems" by (intro unat_size_t_Suc_less) (auto dest: load_ptr_add_bound)
    show ?thesis
      using Inr "1.IH" [OF Inr _ _ "1.prems"(2), of "w + 1"] "1.prems" s
      by (simp add: ms_length_ars_w_loop.simps [of m str w] ms_length_ars_loop.simps [of m str "unat w"])
  qed (simp add: "1.prems" ms_length_ars_w_loop.simps [of m str w] ms_length_ars_loop.simps [of m str "unat w"])
qed

lemma ms_copy_ars_w_loop_eq:
  "i = unat w \<Longrightarrow> size_ok m \<Longrightarrow>
   map_option (map_sum id (apsnd unat)) (ms_copy_ars_w_loop m dest src w) =
     Some (ms_copy_ars_loop m dest src i)"
proof (induction m dest src i arbitrary: w rule: ms_copy_ars_loop.induct)
  case (1 m dest src i)
  show ?case
  proof (cases "load m (ptr_add src i)")
    case (Inr c)
    show ?thesis
    proof (cases "c = 0")
      case False
      show ?thesis
      proof (cases "store m (ptr_add dest i) c")
        case st: (Inr m')
        have s: "unat (w + 1) = Suc (unat w)"
          using Inr "1.prems" by (intro unat_size_t_Suc_less) (auto dest: load_ptr_add_bound)
        show ?thesis
          using Inr False st "1.IH" [OF Inr False st, of "w + 1"] "1.prems" s store_size_ok [OF st]
          by (simp add: ms_copy_ars_w_loop.simps [of m dest src w]
                ms_copy_ars_loop.simps [of m dest src "unat w"])
      qed (use Inr False "1.prems" in \<open>simp add: ms_copy_ars_w_loop.simps [of m dest src w]
              ms_copy_ars_loop.simps [of m dest src "unat w"]\<close>)
    qed (use Inr "1.prems" in \<open>simp add: ms_copy_ars_w_loop.simps [of m dest src w]
              ms_copy_ars_loop.simps [of m dest src "unat w"]\<close>)
  qed (simp add: "1.prems" ms_copy_ars_w_loop.simps [of m dest src w] ms_copy_ars_loop.simps [of m dest src "unat w"])
qed

lemma ms_ncopy_ars_w_loop_eq:
  "i = unat w \<Longrightarrow> size_ok m \<Longrightarrow>
   map_sum id (apsnd unat) (ms_ncopy_ars_w_loop m dest src num w) = ms_ncopy_ars_loop m dest src num i"
proof (induction m dest src num i arbitrary: w rule: ms_ncopy_ars_loop.induct)
  case (1 m dest src num i)
  show ?case
  proof (cases "load m (ptr_add src i)")
    case (Inr c)
    show ?thesis
    proof (cases "c \<noteq> 0 \<and> w \<noteq> num")
      case True
      show ?thesis
      proof (cases "store m (ptr_add dest i) c")
        case st: (Inr m')
        have s: "unat (w + 1) = Suc (unat w)"
          using Inr "1.prems" by (intro unat_size_t_Suc_less) (auto dest: load_ptr_add_bound)
        show ?thesis
          using Inr True st "1.IH" [OF Inr _ st, of "w + 1"] "1.prems" s store_size_ok [OF st]
          by (simp add: ms_ncopy_ars_w_loop.simps [of m dest src num w]
                ms_ncopy_ars_loop.simps [of m dest src num "unat w"])
      qed (use Inr True "1.prems" in \<open>simp add: ms_ncopy_ars_w_loop.simps [of m dest src num w]
              ms_ncopy_ars_loop.simps [of m dest src num "unat w"]\<close>)
    qed (use Inr "1.prems" in \<open>auto simp: ms_ncopy_ars_w_loop.simps [of m dest src num w]
              ms_ncopy_ars_loop.simps [of m dest src num "unat w"]\<close>)
  qed (simp add: "1.prems" ms_ncopy_ars_w_loop.simps [of m dest src num w]
         ms_ncopy_ars_loop.simps [of m dest src num "unat w"])
qed

lemma ms_ncopy_ars_w_pad_eq:
  "i = unat w \<Longrightarrow> size_ok m \<Longrightarrow> ms_ncopy_ars_w_pad m dest num w = ms_ncopy_ars_pad m dest num i"
proof (induction m dest num i arbitrary: w rule: ms_ncopy_ars_pad.induct)
  case (1 m dest num i)
  show ?case
  proof (cases "w \<noteq> num")
    case True
    show ?thesis
    proof (cases "store m (ptr_add dest i) 0")
      case st: (Inr m')
      have s: "unat (w + 1) = Suc (unat w)"
        using st "1.prems" by (intro unat_size_t_Suc_less) (auto dest: store_ptr_add_bound)
      show ?thesis
        using True st "1.IH" [OF _ st, of "w + 1"] "1.prems" s store_size_ok [OF st]
        by (simp add: ms_ncopy_ars_w_pad.simps [of m dest num w]
              ms_ncopy_ars_pad.simps [of m dest num "unat w"])
    qed (use True "1.prems" in \<open>simp add: ms_ncopy_ars_w_pad.simps [of m dest num w]
            ms_ncopy_ars_pad.simps [of m dest num "unat w"]\<close>)
  qed (simp add: "1.prems" ms_ncopy_ars_w_pad.simps [of m dest num num]
         ms_ncopy_ars_pad.simps [of m dest num "unat num"])
qed

lemma ms_compare_ars_w_loop_eq:
  "i = unat w \<Longrightarrow> size_ok m \<Longrightarrow>
   ms_compare_ars_w_loop m str1 str2 w = Some (ms_compare_ars_loop m str1 str2 i)"
proof (induction m str1 str2 i arbitrary: w rule: ms_compare_ars_loop.induct)
  case (1 m str1 str2 i)
  show ?case
  proof (cases "load m (ptr_add str1 i)")
    case (Inr c1)
    have s: "unat (w + 1) = Suc (unat w)"
      using Inr "1.prems" by (intro unat_size_t_Suc_less) (auto dest: load_ptr_add_bound)
    show ?thesis
      using Inr "1.IH" [OF Inr _ _ _ _ _ "1.prems"(2), of _ "w + 1"] "1.prems" s
      by (auto simp: ms_compare_ars_w_loop.simps [of m str1 str2 w]
            ms_compare_ars_loop.simps [of m str1 str2 "unat w"] split: sum.split)
  qed (simp add: "1.prems" ms_compare_ars_w_loop.simps [of m str1 str2 w]
         ms_compare_ars_loop.simps [of m str1 str2 "unat w"])
qed

lemma ms_ncompare_ars_w_loop_eq:
  "i = unat w \<Longrightarrow> size_ok m \<Longrightarrow>
   ms_ncompare_ars_w_loop m str1 str2 num w = ms_ncompare_ars_loop m str1 str2 num i"
proof (induction m str1 str2 num i arbitrary: w rule: ms_ncompare_ars_loop.induct)
  case (1 m str1 str2 num i)
  show ?case
  proof (cases "load m (ptr_add str1 i)")
    case (Inr c1)
    have s: "unat (w + 1) = Suc (unat w)"
      using Inr "1.prems" by (intro unat_size_t_Suc_less) (auto dest: load_ptr_add_bound)
    show ?thesis
      using Inr "1.IH" [OF Inr _ _ _ _ _ "1.prems"(2), of _ "w + 1"] "1.prems" s
      by (auto simp: ms_ncompare_ars_w_loop.simps [of m str1 str2 num w]
            ms_ncompare_ars_loop.simps [of m str1 str2 num "unat w"] bindE_def split: sum.split)
  qed (simp add: "1.prems" ms_ncompare_ars_w_loop.simps [of m str1 str2 num w]
         ms_ncompare_ars_loop.simps [of m str1 str2 num "unat w"])
qed

lemma ms_concat_ars_loop_bound:
  "ms_concat_ars_loop m dest dl src i = Inr (m', k) \<Longrightarrow> dl + i < 2 ^ LENGTH(64) \<Longrightarrow> size_ok m \<Longrightarrow>
   dl + k < 2 ^ LENGTH(64)"
proof (induction m dest dl src i rule: ms_concat_ars_loop.induct)
  case (1 m dest dl src i)
  show ?case
  proof (cases "\<exists>c m''. load m (ptr_add src i) = Inr c \<and> c \<noteq> 0 \<and>
                   store m (ptr_add dest (dl + i)) c = Inr m''")
    case True
    then obtain c m'' where l: "load m (ptr_add src i) = Inr c" and c: "c \<noteq> 0"
      and st: "store m (ptr_add dest (dl + i)) c = Inr m''" by blast
    have "Suc (dl + i) < 2 ^ LENGTH(64)"
      using store_ptr_add_bound [OF st "1.prems"(3)] .
    then show ?thesis
      using "1.IH" [OF l c st] "1.prems" l c st store_size_ok [OF st]
      by (simp add: ms_concat_ars_loop.simps [of m dest dl src i])
  next
    case False
    then show ?thesis
      using "1.prems"
      by (auto simp: ms_concat_ars_loop.simps [of m dest dl src i] bindE_eq_Inr split: if_splits)
  qed
qed

lemma ms_nconcat_ars_loop_bound:
  "ms_nconcat_ars_loop m dest dl src num i = Inr (m', k) \<Longrightarrow> dl + i < 2 ^ LENGTH(64) \<Longrightarrow>
   size_ok m \<Longrightarrow> dl + k < 2 ^ LENGTH(64)"
proof (induction m dest dl src num i rule: ms_nconcat_ars_loop.induct)
  case (1 m dest dl src num i)
  show ?case
  proof (cases "\<exists>c m''. load m (ptr_add src i) = Inr c \<and> (c \<noteq> 0 \<and> of_nat i \<noteq> num) \<and>
                   store m (ptr_add dest (dl + i)) c = Inr m''")
    case True
    then obtain c m'' where l: "load m (ptr_add src i) = Inr c" and c: "c \<noteq> 0 \<and> of_nat i \<noteq> num"
      and st: "store m (ptr_add dest (dl + i)) c = Inr m''" by blast
    have "Suc (dl + i) < 2 ^ LENGTH(64)"
      using store_ptr_add_bound [OF st "1.prems"(3)] .
    then show ?thesis
      using "1.IH" [OF l c st] "1.prems" l c st store_size_ok [OF st]
      by (simp add: ms_nconcat_ars_loop.simps [of m dest dl src num i])
  next
    case False
    then show ?thesis
      using "1.prems"
      by (auto simp: ms_nconcat_ars_loop.simps [of m dest dl src num i] bindE_eq_Inr split: if_splits)
  qed
qed

lemma unat_size_t_add_Suc:
  "Suc (unat (a :: size_t) + unat (b :: size_t)) < 2 ^ LENGTH(64) \<Longrightarrow>
   unat (b + 1) = Suc (unat b) \<and> unat a + unat (b + 1) < 2 ^ LENGTH(64)"
  using unat_size_t_Suc_less [of b] by simp

lemma ms_concat_ars_w_loop_eq:
  "n = unat dl \<Longrightarrow> i = unat w \<Longrightarrow> n + i < 2 ^ LENGTH(64) \<Longrightarrow> size_ok m \<Longrightarrow>
   map_option (map_sum id (apsnd unat)) (ms_concat_ars_w_loop m dest dl src w) =
     Some (ms_concat_ars_loop m dest n src i)"
proof (induction m dest n src i arbitrary: w rule: ms_concat_ars_loop.induct)
  case (1 m dest n src i)
  have a: "unat (dl + w) = unat dl + unat w"
    using "1.prems" by (intro unat_size_t_add) simp
  show ?case
  proof (cases "load m (ptr_add src i)")
    case (Inr c)
    show ?thesis
    proof (cases "c = 0")
      case False
      show ?thesis
      proof (cases "store m (ptr_add dest (n + i)) c")
        case st: (Inr m')
        have s: "unat (w + 1) = Suc (unat w) \<and> unat dl + unat (w + 1) < 2 ^ LENGTH(64)"
          using st "1.prems" by (intro unat_size_t_add_Suc) (auto dest: store_ptr_add_bound)
        show ?thesis
          using Inr False st "1.IH" [OF Inr False st, of "w + 1"] "1.prems" s a store_size_ok [OF st]
          by (simp add: ms_concat_ars_w_loop.simps [of m dest dl src w]
                ms_concat_ars_loop.simps [of m dest "unat dl" src "unat w"])
      qed (use Inr False "1.prems" a in \<open>simp add: ms_concat_ars_w_loop.simps [of m dest dl src w]
              ms_concat_ars_loop.simps [of m dest "unat dl" src "unat w"]\<close>)
    qed (use Inr "1.prems" in \<open>simp add: ms_concat_ars_w_loop.simps [of m dest dl src w]
              ms_concat_ars_loop.simps [of m dest "unat dl" src "unat w"]\<close>)
  qed (simp add: "1.prems" ms_concat_ars_w_loop.simps [of m dest dl src w]
         ms_concat_ars_loop.simps [of m dest "unat dl" src "unat w"])
qed

lemma ms_nconcat_ars_w_loop_eq:
  "n = unat dl \<Longrightarrow> i = unat w \<Longrightarrow> n + i < 2 ^ LENGTH(64) \<Longrightarrow> size_ok m \<Longrightarrow>
   map_sum id (apsnd unat) (ms_nconcat_ars_w_loop m dest dl src num w) =
     ms_nconcat_ars_loop m dest n src num i"
proof (induction m dest n src num i arbitrary: w rule: ms_nconcat_ars_loop.induct)
  case (1 m dest n src num i)
  have a: "unat (dl + w) = unat dl + unat w"
    using "1.prems" by (intro unat_size_t_add) simp
  show ?case
  proof (cases "load m (ptr_add src i)")
    case (Inr c)
    show ?thesis
    proof (cases "c \<noteq> 0 \<and> w \<noteq> num")
      case True
      show ?thesis
      proof (cases "store m (ptr_add dest (n + i)) c")
        case st: (Inr m')
        have s: "unat (w + 1) = Suc (unat w) \<and> unat dl + unat (w + 1) < 2 ^ LENGTH(64)"
          using st "1.prems" by (intro unat_size_t_add_Suc) (auto dest: store_ptr_add_bound)
        show ?thesis
          using Inr True st "1.IH" [OF Inr _ st, of "w + 1"] "1.prems" s a store_size_ok [OF st]
          by (simp add: ms_nconcat_ars_w_loop.simps [of m dest dl src num w]
                ms_nconcat_ars_loop.simps [of m dest "unat dl" src num "unat w"])
      qed (use Inr True "1.prems" a in \<open>simp add: ms_nconcat_ars_w_loop.simps [of m dest dl src num w]
              ms_nconcat_ars_loop.simps [of m dest "unat dl" src num "unat w"]\<close>)
    qed (use Inr "1.prems" in \<open>auto simp: ms_nconcat_ars_w_loop.simps [of m dest dl src num w]
              ms_nconcat_ars_loop.simps [of m dest "unat dl" src num "unat w"]\<close>)
  qed (simp add: "1.prems" ms_nconcat_ars_w_loop.simps [of m dest dl src num w]
         ms_nconcat_ars_loop.simps [of m dest "unat dl" src num "unat w"])
qed

lemma ms_length_ars_w_eq: "size_ok m \<Longrightarrow> ms_length_ars_w m str = Some (ms_length_ars m str)"
proof -
  assume sz: "size_ok m"
  then obtain r where r: "ms_length_ars_w_loop m str 0 = Some r"
    and eq0: "map_sum id unat r = ms_length_ars_loop m str 0"
    using ms_length_ars_w_loop_eq [of 0 0 m str] by auto
  note eq = eq0 [symmetric]
  show ?thesis
    using r eq by (cases str; cases r) (auto simp: ms_length_ars_w_def ms_length_ars_def)
qed

lemma ms_copy_ars_w_eq: "size_ok m \<Longrightarrow> ms_copy_ars_w m dest src = Some (ms_copy_ars m dest src)"
proof -
  assume sz: "size_ok m"
  then obtain r where r: "ms_copy_ars_w_loop m dest src 0 = Some r"
    and eq0: "map_sum id (apsnd unat) r = ms_copy_ars_loop m dest src 0"
    using ms_copy_ars_w_loop_eq [of 0 0 m dest src] by auto
  note eq = eq0 [symmetric]
  show ?thesis
    using r eq by (cases dest; cases src; cases r) (auto simp: ms_copy_ars_w_def ms_copy_ars_def)
qed

lemma ms_ncopy_ars_w_eq: "size_ok m \<Longrightarrow> ms_ncopy_ars_w m dest src num = ms_ncopy_ars m dest src num"
proof -
  assume sz: "size_ok m"
  have eq: "ms_ncopy_ars_loop m dest src num 0 = map_sum id (apsnd unat) (ms_ncopy_ars_w_loop m dest src num 0)"
    using ms_ncopy_ars_w_loop_eq [of 0 0 m dest src num] sz by simp
  show ?thesis
  proof (cases "ms_ncopy_ars_w_loop m dest src num 0")
    case (Inr r)
    obtain m' k where mk: "r = (m', k)" by (cases r)
    have "size_ok m'"
      using eq Inr mk sz ms_ncopy_ars_loop_shape [of m dest src num 0 m' "unat k"]
      by (auto intro: same_shape_size_ok)
    then have "ms_ncopy_ars_w_pad m' dest num k = ms_ncopy_ars_pad m' dest num (unat k)"
      by (intro ms_ncopy_ars_w_pad_eq) simp_all
    then show ?thesis
      using eq Inr mk by (cases dest; cases src) (auto simp: ms_ncopy_ars_w_def ms_ncopy_ars_def)
  qed (use eq in \<open>cases dest; cases src; auto simp: ms_ncopy_ars_w_def ms_ncopy_ars_def\<close>)
qed

lemma ms_concat_ars_w_eq: "size_ok m \<Longrightarrow> ms_concat_ars_w m dest src = Some (ms_concat_ars m dest src)"
proof -
  assume sz: "size_ok m"
  show ?thesis
  proof (cases "ms_length_ars m dest")
    case (Inr dl)
    obtain r where r: "ms_concat_ars_w_loop m dest dl src 0 = Some r"
      and eq0: "map_sum id (apsnd unat) r = ms_concat_ars_loop m dest (unat dl) src 0"
      using ms_concat_ars_w_loop_eq [of "unat dl" dl 0 0 m dest src] sz unat_size_t_less [of dl]
      by auto
    note eq = eq0 [symmetric]
    show ?thesis
    proof (cases r)
      case rk: (Inr mk)
      obtain m' k where mk: "mk = (m', k)" by (cases mk)
      have u: "unat (dl + k) = unat dl + unat k"
        using eq rk mk ms_concat_ars_loop_bound [of m dest "unat dl" src 0 m' "unat k"] sz
          unat_size_t_less [of dl]
        by (intro unat_size_t_add) simp
      then have st: "store m' (ptr_add dest (unat (dl + k))) 0 = store m' (ptr_add dest (unat dl + unat k)) 0"
        by (simp only:)
      show ?thesis
        using Inr r eq rk mk ms_length_ars_w_eq [OF sz, of dest]
        by (simp add: ms_concat_ars_w_def ms_concat_ars_def assert_nonnull_def bindE_def st)
    qed (use Inr r eq ms_length_ars_w_eq [OF sz, of dest] in
           \<open>cases dest; cases src; simp add: ms_concat_ars_w_def ms_concat_ars_def\<close>)
  qed (use ms_length_ars_w_eq [OF sz, of dest] in
         \<open>cases dest; cases src; simp add: ms_concat_ars_w_def ms_concat_ars_def\<close>)
qed

lemma ms_nconcat_ars_w_eq:
  "size_ok m \<Longrightarrow> ms_nconcat_ars_w m dest src num = Some (ms_nconcat_ars m dest src num)"
proof -
  assume sz: "size_ok m"
  show ?thesis
  proof (cases "ms_length_ars m dest")
    case (Inr dl)
    have eq: "ms_nconcat_ars_loop m dest (unat dl) src num 0 =
                map_sum id (apsnd unat) (ms_nconcat_ars_w_loop m dest dl src num 0)"
      using ms_nconcat_ars_w_loop_eq [of "unat dl" dl 0 0 m dest src num] sz unat_size_t_less [of dl]
      by simp
    show ?thesis
    proof (cases "ms_nconcat_ars_w_loop m dest dl src num 0")
      case rk: (Inr mk)
      obtain m' k where mk: "mk = (m', k)" by (cases mk)
      have u: "unat (dl + k) = unat dl + unat k"
        using eq rk mk ms_nconcat_ars_loop_bound [of m dest "unat dl" src num 0 m' "unat k"] sz
          unat_size_t_less [of dl]
        by (intro unat_size_t_add) simp
      then have st: "store m' (ptr_add dest (unat (dl + k))) 0 = store m' (ptr_add dest (unat dl + unat k)) 0"
        by (simp only:)
      show ?thesis
        using Inr eq rk mk ms_length_ars_w_eq [OF sz, of dest]
        by (simp add: ms_nconcat_ars_w_def ms_nconcat_ars_def assert_nonnull_def bindE_def st)
    qed (use Inr eq ms_length_ars_w_eq [OF sz, of dest] in
           \<open>cases dest; cases src; simp add: ms_nconcat_ars_w_def ms_nconcat_ars_def\<close>)
  qed (use ms_length_ars_w_eq [OF sz, of dest] in
         \<open>cases dest; cases src; simp add: ms_nconcat_ars_w_def ms_nconcat_ars_def\<close>)
qed

lemma ms_compare_ars_w_eq: "size_ok m \<Longrightarrow> ms_compare_ars_w m str1 str2 = Some (ms_compare_ars m str1 str2)"
  using ms_compare_ars_w_loop_eq [of 0 0 m str1 str2]
  by (cases str1; cases str2) (simp_all add: ms_compare_ars_w_def ms_compare_ars_def)

lemma ms_ncompare_ars_w_eq:
  "size_ok m \<Longrightarrow> ms_ncompare_ars_w m str1 str2 num = ms_ncompare_ars m str1 str2 num"
  using ms_ncompare_ars_w_loop_eq [of 0 0 m str1 str2 num]
  by (cases str1; cases str2) (simp_all add: ms_ncompare_ars_w_def ms_ncompare_ars_def)

end
