(* ===== verification/Search_Counters.thy ===== *)
theory Search_Counters
  imports Ars_Counters Mystring_H
begin

text \<open>
  The loops of the array \<open>ms_search\<close> with their counters as the C code
  declares them: \<open>i\<close> and \<open>j\<close> are \<open>size_t\<close>, \<open>j + i\<close> and \<open>i++\<close> wrap around,
  and the outer test \<open>i <= haystack_length - needle_length\<close> holds for every
  \<open>i\<close> when the bound is \<open>SIZE_MAX\<close>. The outer loop may therefore run
  forever, and is a \<open>partial_function (option)\<close>: \<open>None\<close> is a run that does
  not return. The inner loop ends because \<open>j < needle_length\<close> bounds it.
  \<open>ms_length\<close> is the \<open>size_t\<close>-counter model of \<open>Ars_Counters\<close>, and
  \<open>run_ars_w\<close> binds the eight calls of the header to those models. The
  theorems show that on every memory whose blocks fit \<open>size_t\<close> this model
  returns, with the value of the \<open>nat\<close>-counter model of \<open>Mystring_Ars\<close>.
\<close>

function ms_search_ars_inner_w ::
  "mem \<Rightarrow> ptr \<Rightarrow> ptr \<Rightarrow> size_t \<Rightarrow> size_t \<Rightarrow> size_t \<Rightarrow> size_t result" where
  "ms_search_ars_inner_w m haystack needle needle_length i j =
     (if j < needle_length then
        bindE (load m (ptr_add haystack (unat (j + i)))) (\<lambda>a.
        bindE (load m (ptr_add needle (unat j))) (\<lambda>b.
          if a \<noteq> b then Inr j
          else ms_search_ars_inner_w m haystack needle needle_length i (j + 1)))
      else Inr j)"
  by pat_completeness auto
termination
  by (relation "measure (\<lambda>(m, h, n, nl, i, j). unat nl - unat j)")
     (auto simp: unat_size_t_Suc word_less_nat_alt)

partial_function (option) ms_search_ars_outer_w ::
  "mem \<Rightarrow> ptr \<Rightarrow> ptr \<Rightarrow> size_t \<Rightarrow> size_t \<Rightarrow> size_t \<Rightarrow> ptr result option" where
  "ms_search_ars_outer_w m haystack needle last_pos needle_length i =
     (if i \<le> last_pos then
        (case ms_search_ars_inner_w m haystack needle needle_length i 0 of
           Inl e \<Rightarrow> Some (Inl e)
         | Inr j \<Rightarrow>
             if j = needle_length then Some (Inr (ptr_add haystack (unat i)))
             else ms_search_ars_outer_w m haystack needle last_pos needle_length (i + 1))
      else Some (Inr NULL))"

definition ms_search_ars_w :: "mem \<Rightarrow> ptr \<Rightarrow> ptr \<Rightarrow> ptr result option" where
  "ms_search_ars_w m haystack needle =
     bindO (Some (assert_nonnull haystack)) (\<lambda>_.
     bindO (Some (assert_nonnull needle)) (\<lambda>_.
     bindO (ms_length_ars_w m haystack) (\<lambda>haystack_length.
     bindO (ms_length_ars_w m needle) (\<lambda>needle_length.
       if haystack_length < needle_length then Some (Inr NULL)
       else ms_search_ars_outer_w m haystack needle
              (haystack_length - needle_length) needle_length 0))))"

text \<open>
  The header's eight calls bound to this model of \<open>mystring_ars.c\<close>, as
  \<open>run_ars\<close> binds them to the \<open>nat\<close>-counter model; \<open>None\<close> is a call
  that does not return.
\<close>

fun run_ars_w :: "mem \<Rightarrow> ms_call \<Rightarrow> (mem \<times> ms_value) result option" where
  "run_ars_w m (Ms_length s) = map_option (ret_size m) (ms_length_ars_w m s)"
| "run_ars_w m (Ms_copy d s) = map_option ret_dest (ms_copy_ars_w m d s)"
| "run_ars_w m (Ms_ncopy d s n) = Some (ret_dest (ms_ncopy_ars_w m d s n))"
| "run_ars_w m (Ms_concat d s) = map_option ret_dest (ms_concat_ars_w m d s)"
| "run_ars_w m (Ms_nconcat d s n) = map_option ret_dest (ms_nconcat_ars_w m d s n)"
| "run_ars_w m (Ms_compare a b) = map_option (ret_int m) (ms_compare_ars_w m a b)"
| "run_ars_w m (Ms_ncompare a b n) = Some (ret_int m (ms_ncompare_ars_w m a b n))"
| "run_ars_w m (Ms_search h n) = map_option (ret_ptr m) (ms_search_ars_w m h n)"

declare ms_search_ars_inner_w.simps [simp del]

lemma ms_search_ars_inner_le:
  "j \<le> nl \<Longrightarrow> ms_search_ars_inner m h n nl i j = Inr k \<Longrightarrow> k \<le> nl"
proof (induction m h n nl i j rule: ms_search_ars_inner.induct)
  case (1 m h n nl i j)
  then show ?case
    by (subst (asm) ms_search_ars_inner.simps) (auto simp: bindE_eq_Inr split: if_splits)
qed

lemma ms_search_ars_inner_w_eq:
  "unat i + unat nl < 2 ^ LENGTH(64) \<Longrightarrow> j \<le> nl \<Longrightarrow>
   ms_search_ars_inner_w m h n nl i j = map_sum id of_nat (ms_search_ars_inner m h n (unat nl) (unat i) (unat j))"
proof (induction m h n nl i j rule: ms_search_ars_inner_w.induct)
  case (1 m h n nl i j)
  show ?case
  proof (cases "j < nl")
    case True
    then have lt: "unat j < unat nl"
      by (simp add: word_less_nat_alt)
    have ji: "unat (j + i) = unat j + unat i"
      using "1.prems"(1) lt by (intro unat_size_t_add) simp
    have s: "unat (j + 1) = Suc (unat j)"
      using True by (rule unat_size_t_Suc)
    have le: "j + 1 \<le> nl"
      using True by (simp add: word_le_nat_alt s word_less_nat_alt)
    show ?thesis
      using True lt ji s le "1.IH" [OF True] "1.prems"(1)
      by (auto simp: ms_search_ars_inner_w.simps [of m h n nl i j]
            ms_search_ars_inner.simps [of m h n "unat nl" "unat i" "unat j"] bindE_def
            split: sum.split)
  next
    case False
    then have "j = nl" using "1.prems"(2) by simp
    then show ?thesis
      by (simp add: ms_search_ars_inner_w.simps [of m h n nl i nl]
            ms_search_ars_inner.simps [of m h n "unat nl" "unat i" "unat nl"])
  qed
qed

lemma ms_search_ars_outer_w_eq:
  assumes "Suc (unat last_pos) < 2 ^ LENGTH(64)" and "unat last_pos + unat nl < 2 ^ LENGTH(64)"
    and "unat i \<le> Suc (unat last_pos)"
  shows "ms_search_ars_outer_w m h n last_pos nl i =
           Some (ms_search_ars_outer m h n (unat last_pos) (unat nl) (unat i))"
  using assms
proof (induction "Suc (unat last_pos) - unat i" arbitrary: i)
  case 0
  then have "\<not> i \<le> last_pos" and "\<not> unat i \<le> unat last_pos"
    by (simp_all add: word_le_nat_alt)
  then show ?case
    by (simp add: ms_search_ars_outer_w.simps [of m h n last_pos nl i]
          ms_search_ars_outer.simps [of m h n "unat last_pos" "unat nl" "unat i"])
next
  case (Suc d)
  then have le: "unat i \<le> unat last_pos" by simp
  then have ile: "i \<le> last_pos" by (simp add: word_le_nat_alt)
  have inner: "ms_search_ars_inner_w m h n nl i 0 =
                 map_sum id of_nat (ms_search_ars_inner m h n (unat nl) (unat i) 0)"
    using ms_search_ars_inner_w_eq [of i nl 0 m h n] Suc.prems(2) le by simp
  have s: "unat (i + 1) = Suc (unat i)"
    using Suc.prems(1) le by (subst unat_size_t_add) simp_all
  have rec: "ms_search_ars_outer_w m h n last_pos nl (i + 1) =
               Some (ms_search_ars_outer m h n (unat last_pos) (unat nl) (Suc (unat i)))"
    using Suc.hyps(1) [of "i + 1"] Suc.hyps(2) Suc.prems s by simp
  show ?case
  proof (cases "ms_search_ars_inner m h n (unat nl) (unat i) 0")
    case (Inl e)
    then show ?thesis
      using ile le inner
      by (simp add: ms_search_ars_outer_w.simps [of m h n last_pos nl i]
            ms_search_ars_outer.simps [of m h n "unat last_pos" "unat nl" "unat i"])
  next
    case (Inr k)
    then have "k \<le> unat nl"
      by (rule ms_search_ars_inner_le [rotated]) simp
    then have "(of_nat k = nl) = (k = unat nl)"
      by (rule of_nat_eq_size_t_iff)
    then show ?thesis
      using ile le inner rec Inr
      by (simp add: ms_search_ars_outer_w.simps [of m h n last_pos nl i]
            ms_search_ars_outer.simps [of m h n "unat last_pos" "unat nl" "unat i"])
  qed
qed

lemma ms_search_ars_w_eq:
  assumes sz: "size_ok m"
  shows "ms_search_ars_w m haystack needle = Some (ms_search_ars m haystack needle)"
proof (cases "haystack = NULL \<or> needle = NULL")
  case True
  then show ?thesis
    by (cases haystack; cases needle) (simp_all add: ms_search_ars_w_def ms_search_ars_def ms_length_ars_w_eq [OF sz])
next
  case False
  then have nn: "haystack \<noteq> NULL" "needle \<noteq> NULL" by simp_all
  show ?thesis
  proof (cases "cstr_at m haystack")
    case None
    then show ?thesis
      using ms_length_ars_unterminated [OF nn(1) None] nn
      by (cases haystack; cases needle) (simp_all add: ms_search_ars_w_def ms_search_ars_def ms_length_ars_w_eq [OF sz])
  next
    case (Some hs)
    note h = Some
    show ?thesis
    proof (cases "cstr_at m needle")
      case None
      then show ?thesis
        using ms_length_ars_unterminated [OF nn(2) None] ms_length_ars_cstr [OF h] nn
        by (cases haystack; cases needle) (simp_all add: ms_search_ars_w_def ms_search_ars_def ms_length_ars_w_eq [OF sz])
    next
      case (Some ns)
      note n = Some
      let ?hl = "of_nat (length hs) :: size_t" and ?nl = "of_nat (length ns) :: size_t"
      have uh: "unat ?hl = length hs" and un: "unat ?nl = length ns"
        using unat_length_cstr [OF h sz] unat_length_cstr [OF n sz] by simp_all
      have bh: "Suc (length hs) < 2 ^ LENGTH(64)"
        using cstr_at_length_less [OF h sz] .
      have outer: "\<not> ?hl < ?nl \<Longrightarrow>
          ms_search_ars_outer_w m haystack needle (?hl - ?nl) ?nl 0 =
            Some (ms_search_ars_outer m haystack needle (unat (?hl - ?nl)) (unat ?nl) 0)"
      proof -
        assume "\<not> ?hl < ?nl"
        then have "?nl \<le> ?hl" by simp
        then have "unat (?hl - ?nl) = length hs - length ns"
          using uh un by (simp add: unat_sub)
        moreover have "length ns \<le> length hs"
          using \<open>?nl \<le> ?hl\<close> uh un by (simp add: word_le_nat_alt)
        ultimately show ?thesis
          using ms_search_ars_outer_w_eq [of "?hl - ?nl" ?nl 0 m haystack needle] bh un by simp
      qed
      show ?thesis
        using ms_length_ars_cstr [OF h] ms_length_ars_cstr [OF n] nn outer
        by (cases haystack; cases needle) (simp_all add: ms_search_ars_w_def ms_search_ars_def ms_length_ars_w_eq [OF sz])
    qed
  qed
qed

text \<open>
  C23. The \<open>size_t\<close>-counter model of \<open>mystring_ars.c\<close> refines the
  \<open>nat\<close>-counter one: on every memory whose blocks fit \<open>size_t\<close>, each of
  the eight calls returns, with the memory and value \<open>run_ars\<close> gives, so
  every theorem proved of \<open>run_ars\<close> holds of the code with its machine
  counters.
\<close>

theorem run_ars_w_refines:
  assumes sz: "size_ok m"
  shows "run_ars_w m c = Some (run_ars m c)"
  by (cases c) (simp_all add: ms_length_ars_w_eq [OF sz] ms_copy_ars_w_eq [OF sz]
      ms_ncopy_ars_w_eq [OF sz] ms_concat_ars_w_eq [OF sz] ms_nconcat_ars_w_eq [OF sz]
      ms_compare_ars_w_eq [OF sz] ms_ncompare_ars_w_eq [OF sz] ms_search_ars_w_eq [OF sz])

theorem run_ars_w_refines_witness:
  "size_ok [0 \<mapsto> [97, 0, 0], 1 \<mapsto> [98, 0]] \<and>
   run_ars_w [0 \<mapsto> [97, 0, 0], 1 \<mapsto> [98, 0]] (Ms_concat (Ptr 0 0) (Ptr 1 0)) =
     Some (run_ars [0 \<mapsto> [97, 0, 0], 1 \<mapsto> [98, 0]] (Ms_concat (Ptr 0 0) (Ptr 1 0)))"
proof -
  have h: "size_ok [0 \<mapsto> [97, 0, 0], 1 \<mapsto> [98, 0]]"
    by (simp add: size_ok_def)
  show ?thesis
    using h run_ars_w_refines [of "[0 \<mapsto> [97, 0, 0], 1 \<mapsto> [98, 0]]" "Ms_concat (Ptr 0 0) (Ptr 1 0)", OF h]
    by simp
qed

end
