(* ===== verification/Search_Steps.thy ===== *)
theory Search_Steps
  imports Mystring_Ptrs
begin

text \<open>
  The pointer \<open>ms_search\<close> of \<open>src/mystring_ptrs.c\<close> as a transition
  system: one step per statement group of the source, one \<open>Scan\<close> step per
  iteration of the \<open>while (*haystack_ptr)\<close> loop. \<open>Entry\<close> is the call,
  \<open>Scan needle_length haystack_ptr\<close> the loop head with the locals it reads,
  \<open>Halt r\<close> the return (or the fault) with its value. The lemmas show that
  the relation is deterministic, that every step decreases
  \<open>search_measure\<close> (the units left in the haystack's block), and that from
  the call the run reaches the halting state that holds the result of the
  functional model \<open>ms_search_ptrs\<close>; \<open>Ptrs_Steps\<close> builds on them. The
  theorem here is the loop invariant \<open>scan_inv\<close> at every loop head a run
  reaches.
\<close>

datatype search_state = Entry ptr | Scan size_t ptr | Halt "ptr result"

inductive search_step :: "mem \<Rightarrow> ptr \<Rightarrow> search_state \<Rightarrow> search_state \<Rightarrow> bool"
  for m :: mem and needle :: ptr where
  assert_haystack: "haystack = NULL \<Longrightarrow>
     search_step m needle (Entry haystack) (Halt (Inl Assert_fail))"
| assert_needle: "haystack \<noteq> NULL \<Longrightarrow> needle = NULL \<Longrightarrow>
     search_step m needle (Entry haystack) (Halt (Inl Assert_fail))"
| needle_length_fault: "haystack \<noteq> NULL \<Longrightarrow> needle \<noteq> NULL \<Longrightarrow>
     ms_length_ptrs m needle = Inl e \<Longrightarrow>
     search_step m needle (Entry haystack) (Halt (Inl e))"
| haystack_length_fault: "haystack \<noteq> NULL \<Longrightarrow> needle \<noteq> NULL \<Longrightarrow>
     ms_length_ptrs m needle = Inr needle_length \<Longrightarrow> ms_length_ptrs m haystack = Inl e \<Longrightarrow>
     search_step m needle (Entry haystack) (Halt (Inl e))"
| too_short: "haystack \<noteq> NULL \<Longrightarrow> needle \<noteq> NULL \<Longrightarrow>
     ms_length_ptrs m needle = Inr needle_length \<Longrightarrow>
     ms_length_ptrs m haystack = Inr haystack_length \<Longrightarrow> haystack_length < needle_length \<Longrightarrow>
     search_step m needle (Entry haystack) (Halt (Inr NULL))"
| start: "haystack \<noteq> NULL \<Longrightarrow> needle \<noteq> NULL \<Longrightarrow>
     ms_length_ptrs m needle = Inr needle_length \<Longrightarrow>
     ms_length_ptrs m haystack = Inr haystack_length \<Longrightarrow> \<not> haystack_length < needle_length \<Longrightarrow>
     search_step m needle (Entry haystack) (Scan needle_length haystack)"
| load_fault: "load m haystack_ptr = Inl e \<Longrightarrow>
     search_step m needle (Scan needle_length haystack_ptr) (Halt (Inl e))"
| at_end: "load m haystack_ptr = Inr 0 \<Longrightarrow>
     search_step m needle (Scan needle_length haystack_ptr) (Halt (Inr NULL))"
| compare_fault: "load m haystack_ptr = Inr c \<Longrightarrow> c \<noteq> 0 \<Longrightarrow>
     ms_ncompare_ptrs m haystack_ptr needle needle_length = Inl e \<Longrightarrow>
     search_step m needle (Scan needle_length haystack_ptr) (Halt (Inl e))"
| found: "load m haystack_ptr = Inr c \<Longrightarrow> c \<noteq> 0 \<Longrightarrow>
     ms_ncompare_ptrs m haystack_ptr needle needle_length = Inr 0 \<Longrightarrow>
     search_step m needle (Scan needle_length haystack_ptr) (Halt (Inr haystack_ptr))"
| advance: "load m haystack_ptr = Inr c \<Longrightarrow> c \<noteq> 0 \<Longrightarrow>
     ms_ncompare_ptrs m haystack_ptr needle needle_length = Inr r \<Longrightarrow> r \<noteq> 0 \<Longrightarrow>
     search_step m needle (Scan needle_length haystack_ptr)
       (Scan needle_length (ptr_add haystack_ptr 1))"

code_pred search_step .

text \<open>The measure that decreases with every step: the units left to scan.\<close>

fun search_measure :: "mem \<Rightarrow> search_state \<Rightarrow> nat" where
  "search_measure m (Entry haystack) = Suc (Suc (remaining m haystack))"
| "search_measure m (Scan needle_length haystack_ptr) = Suc (remaining m haystack_ptr)"
| "search_measure m (Halt r) = 0"

text \<open>
  The loop invariant of \<open>ms_search\<close>: at the loop head \<open>haystack_ptr\<close> is
  \<open>haystack + k\<close>, \<open>needle_length\<close> is the needle's length, and each
  earlier position held a unit other than the terminator at which the
  needle did not match.
\<close>

definition scan_inv :: "mem \<Rightarrow> ptr \<Rightarrow> ptr \<Rightarrow> size_t \<Rightarrow> ptr \<Rightarrow> bool" where
  "scan_inv m needle haystack needle_length haystack_ptr =
     (haystack \<noteq> NULL \<and> ms_length_ptrs m needle = Inr needle_length \<and>
      (\<exists>k. haystack_ptr = ptr_add haystack k \<and>
        (\<forall>j<k. \<exists>c r. load m (ptr_add haystack j) = Inr c \<and> c \<noteq> 0 \<and>
           ms_ncompare_ptrs m (ptr_add haystack j) needle needle_length = Inr r \<and> r \<noteq> 0)))"

fun search_inv :: "mem \<Rightarrow> ptr \<Rightarrow> ptr \<Rightarrow> search_state \<Rightarrow> bool" where
  "search_inv m needle haystack (Entry h) = (h = haystack)"
| "search_inv m needle haystack (Scan needle_length haystack_ptr) =
     scan_inv m needle haystack needle_length haystack_ptr"
| "search_inv m needle haystack (Halt r) = True"

inductive_cases search_step_HaltE [elim!]: "search_step m needle (Halt r) s"
inductive_cases search_step_EntryE: "search_step m needle (Entry h) s"
inductive_cases search_step_ScanE: "search_step m needle (Scan nl p) s"

lemma search_step_deterministic:
  "search_step m needle s t \<Longrightarrow> search_step m needle s u \<Longrightarrow> t = u"
  by (induction rule: search_step.induct) (auto elim!: search_step_EntryE search_step_ScanE)

lemma search_scan_reaches:
  "(search_step m needle)\<^sup>*\<^sup>* (Scan nl p) (Halt (ms_search_ptrs_loop m needle nl p))"
proof (induction m needle nl p rule: ms_search_ptrs_loop.induct)
  case (1 m needle nl p)
  show ?case
  proof (cases "load m p")
    case (Inl e)
    then show ?thesis
      by (simp add: ms_search_ptrs_loop.simps [of m needle nl p] load_fault r_into_rtranclp)
  next
    case (Inr c)
    show ?thesis
    proof (cases "c = 0")
      case True
      then show ?thesis using Inr
        by (simp add: ms_search_ptrs_loop.simps [of m needle nl p] at_end r_into_rtranclp)
    next
      case False
      show ?thesis
      proof (cases "ms_ncompare_ptrs m p needle nl")
        case (Inl e)
        then show ?thesis using Inr False
          by (simp add: ms_search_ptrs_loop.simps [of m needle nl p] compare_fault r_into_rtranclp)
      next
        case r0: (Inr r)
        show ?thesis
        proof (cases "r = 0")
          case True
          then show ?thesis using Inr r0 False
            by (simp add: ms_search_ptrs_loop.simps [of m needle nl p] found r_into_rtranclp)
        next
          case r: False
          have "search_step m needle (Scan nl p) (Scan nl (ptr_add p 1))"
            using Inr False r0 r by (rule advance)
          moreover have "ms_search_ptrs_loop m needle nl p = ms_search_ptrs_loop m needle nl (ptr_add p 1)"
            using Inr r0 False r by (simp add: ms_search_ptrs_loop.simps [of m needle nl p])
          ultimately show ?thesis
            using "1.IH" [OF Inr False r0 r] by (simp add: converse_rtranclp_into_rtranclp)
        qed
      qed
    qed
  qed
qed

lemma search_entry_reaches:
  "(search_step m needle)\<^sup>*\<^sup>* (Entry haystack) (Halt (ms_search_ptrs m haystack needle))"
proof (cases "haystack = NULL \<or> needle = NULL")
  case True
  then have "search_step m needle (Entry haystack) (Halt (Inl Assert_fail))"
    by (cases "haystack = NULL") (auto intro: assert_haystack assert_needle)
  then show ?thesis
    using True by (cases haystack) (auto simp: ms_search_ptrs_def)
next
  case False
  then show ?thesis
  proof (cases "ms_length_ptrs m needle"; cases "ms_length_ptrs m haystack")
    fix nl hl
    assume nl: "ms_length_ptrs m needle = Inr nl" and hl: "ms_length_ptrs m haystack = Inr hl"
    show ?thesis
    proof (cases "hl < nl")
      case True
      then show ?thesis using False nl hl
        by (auto simp: ms_search_ptrs_def assert_nonnull_def intro: r_into_rtranclp too_short)
    next
      case ge: False
      have "search_step m needle (Entry haystack) (Scan nl haystack)"
        using False nl hl ge by (auto intro: start)
      then show ?thesis using False nl hl ge search_scan_reaches [of m needle nl haystack]
        by (simp add: ms_search_ptrs_def assert_nonnull_def converse_rtranclp_into_rtranclp)
    qed
  qed (auto simp: ms_search_ptrs_def assert_nonnull_def intro: r_into_rtranclp search_step.intros)
qed

lemma search_step_measure:
  "search_step m needle s t \<Longrightarrow> search_measure m t < search_measure m s"
  by (induction rule: search_step.induct) (auto dest: load_remaining_less_ptr)

lemma scan_inv_start:
  "haystack \<noteq> NULL \<Longrightarrow> ms_length_ptrs m needle = Inr nl \<Longrightarrow>
   scan_inv m needle haystack nl haystack"
  unfolding scan_inv_def by (rule conjI, assumption, rule conjI, assumption, rule exI [of _ 0]) (cases haystack, simp_all)

lemma scan_inv_advance:
  assumes inv: "scan_inv m needle haystack nl p" and c: "load m p = Inr c" "c \<noteq> 0"
    and r: "ms_ncompare_ptrs m p needle nl = Inr r" "r \<noteq> 0"
  shows "scan_inv m needle haystack nl (ptr_add p 1)"
proof -
  from inv obtain k where h: "haystack \<noteq> NULL" and nl: "ms_length_ptrs m needle = Inr nl"
    and p: "p = ptr_add haystack k"
    and before: "\<forall>j<k. \<exists>c r. load m (ptr_add haystack j) = Inr c \<and> c \<noteq> 0 \<and>
       ms_ncompare_ptrs m (ptr_add haystack j) needle nl = Inr r \<and> r \<noteq> 0"
    unfolding scan_inv_def by blast
  have "ptr_add p 1 = ptr_add haystack (Suc k)"
    using p h by (cases haystack) simp_all
  moreover have "\<forall>j<Suc k. \<exists>c r. load m (ptr_add haystack j) = Inr c \<and> c \<noteq> 0 \<and>
       ms_ncompare_ptrs m (ptr_add haystack j) needle nl = Inr r \<and> r \<noteq> 0"
    using before c r p by (auto simp: less_Suc_eq)
  ultimately show ?thesis
    using h nl unfolding scan_inv_def by blast
qed

lemma search_step_inv:
  "search_step m needle s t \<Longrightarrow> search_inv m needle haystack s \<Longrightarrow> search_inv m needle haystack t"
  by (induction rule: search_step.induct) (auto intro: scan_inv_start scan_inv_advance [simplified])

lemma search_reach_inv:
  "(search_step m needle)\<^sup>*\<^sup>* (Entry haystack) s \<Longrightarrow> search_inv m needle haystack s"
  by (induction rule: rtranclp_induct) (auto intro: search_step_inv)

text \<open>
  C22. The loop invariant of the pointer \<open>ms_search\<close>: whenever a run reaches
  the loop head, \<open>haystack_ptr\<close> points \<open>k\<close> units into the haystack,
  \<open>needle_length\<close> is what \<open>ms_length\<close> returned for the needle, and at
  every earlier position the haystack held a unit other than the terminator
  and \<open>ms_ncompare\<close> found no match there; so a match the loop returns is
  the first one.
\<close>

theorem search_scan_invariant:
  assumes "(search_step m needle)\<^sup>*\<^sup>* (Entry haystack) (Scan nl p)"
  shows "scan_inv m needle haystack nl p"
  using search_reach_inv [OF assms] by simp

theorem search_scan_invariant_witness:
  "scan_inv [0 \<mapsto> [104, 105, 0], 1 \<mapsto> [105, 0]] (Ptr 1 0) (Ptr 0 0) 1 (Ptr 0 1)"
proof -
  have l: "ms_length_ptrs [0 \<mapsto> [104, 105, 0], 1 \<mapsto> [105, 0]] (Ptr 1 0) = Inr 1"
    "ms_length_ptrs [0 \<mapsto> [104, 105, 0], 1 \<mapsto> [105, 0]] (Ptr 0 0) = Inr 2"
    by (simp_all add: ms_length_ptrs_def ms_length_ptrs_loop.simps)
  have "ms_ncompare_ptrs [0 \<mapsto> [104, 105, 0], 1 \<mapsto> [105, 0]] (Ptr 0 0) (Ptr 1 0) 1 = Inr (-1)"
    by (simp add: ms_ncompare_ptrs_def ms_ncompare_ptrs_loop.simps char_int_def)
  then have "search_step [0 \<mapsto> [104, 105, 0], 1 \<mapsto> [105, 0]] (Ptr 1 0) (Scan 1 (Ptr 0 0)) (Scan 1 (Ptr 0 1))"
    using advance [of "[0 \<mapsto> [104, 105, 0], 1 \<mapsto> [105, 0]]" "Ptr 0 0" 104 "Ptr 1 0" 1 "-1"] by simp
  moreover have "search_step [0 \<mapsto> [104, 105, 0], 1 \<mapsto> [105, 0]] (Ptr 1 0) (Entry (Ptr 0 0)) (Scan 1 (Ptr 0 0))"
    using start [of "Ptr 0 0" "Ptr 1 0" "[0 \<mapsto> [104, 105, 0], 1 \<mapsto> [105, 0]]" 1 2] l by simp
  ultimately have "(search_step [0 \<mapsto> [104, 105, 0], 1 \<mapsto> [105, 0]] (Ptr 1 0))\<^sup>*\<^sup>*
      (Entry (Ptr 0 0)) (Scan 1 (Ptr 0 1))"
    by (meson converse_rtranclp_into_rtranclp r_into_rtranclp)
  then show ?thesis
    by (rule search_scan_invariant [of "[0 \<mapsto> [104, 105, 0], 1 \<mapsto> [105, 0]]" "Ptr 1 0" "Ptr 0 0" 1 "Ptr 0 1"])
qed

end
