(* ===== verification/Ptrs_Steps.thy ===== *)
theory Ptrs_Steps
  imports Search_Steps Mystring_Contract
begin

text \<open>
  The pointer implementation as it is written in \<open>src/src/mystring_ptrs.c\<close>
  (the same code as \<open>src/mystring_ptrs.c\<close>, with longer comments), as a
  transition system on states \<open>(m, pc)\<close>: the memory and a control point
  that holds the locals in scope there. \<open>Call c\<close> is the entry of a
  function, one state per loop head holds its pointers, \<open>Done r\<close> is the
  return (or the fault) with the memory and value. One step is one
  statement group of the source: the \<open>assert\<close>s and the initialisation of
  the locals, one iteration of a loop, or the code after a loop up to the
  \<open>return\<close>. A call of another function of the module (\<open>ms_length\<close> in
  \<open>ms_concat\<close> and \<open>ms_nconcat\<close>) is one step with the value of its
  functional model; \<open>ms_search\<close> runs the transition system
  \<open>search_step\<close> of \<open>Search_Steps\<close>. Each function has its own relation,
  over its own control points; \<open>ptrs_step\<close> is their union.
\<close>

datatype ptrs_pc =
    Call ms_call
  | Length_loop ptr ptr
  | Copy_loop ptr ptr ptr ptr
  | Ncopy_loop ptr ptr ptr ptr size_t
  | Ncopy_pad ptr ptr ptr ptr size_t
  | Concat_loop ptr ptr ptr ptr
  | Nconcat_loop ptr ptr ptr ptr size_t
  | Compare_loop ptr ptr ptr ptr
  | Ncompare_loop ptr ptr ptr ptr size_t
  | Search_run ptr search_state
  | Done "(mem \<times> ms_value) result"

type_synonym ptrs_state = "mem \<times> ptrs_pc"

text \<open>\<open>ms_length\<close>: \<open>Length_loop str str_ptr\<close> is the head of \<open>while (*str_ptr)\<close>.\<close>

inductive length_step :: "ptrs_state \<Rightarrow> ptrs_state \<Rightarrow> bool" where
  length_assert: "str = NULL \<Longrightarrow>
     length_step (m, Call (Ms_length str)) (m, Done (Inl Assert_fail))"
| length_start: "str \<noteq> NULL \<Longrightarrow>
     length_step (m, Call (Ms_length str)) (m, Length_loop str str)"
| length_fault: "load m str_ptr = Inl e \<Longrightarrow>
     length_step (m, Length_loop str str_ptr) (m, Done (Inl e))"
| length_next: "load m str_ptr = Inr c \<Longrightarrow> c \<noteq> 0 \<Longrightarrow>
     length_step (m, Length_loop str str_ptr) (m, Length_loop str (ptr_add str_ptr 1))"
| length_return: "load m str_ptr = Inr 0 \<Longrightarrow>
     length_step (m, Length_loop str str_ptr)
       (m, Done (Inr (m, V_size (word_of_int (ptr_diff str_ptr str)))))"

text \<open>
  \<open>ms_copy\<close>: \<open>Copy_loop dest src dest_ptr src_ptr\<close> is the head of
  \<open>while (*src_ptr)\<close>; the last step writes the terminator and returns.
\<close>

inductive copy_step :: "ptrs_state \<Rightarrow> ptrs_state \<Rightarrow> bool" where
  copy_assert: "dest = NULL \<or> src = NULL \<Longrightarrow>
     copy_step (m, Call (Ms_copy dest src)) (m, Done (Inl Assert_fail))"
| copy_start: "dest \<noteq> NULL \<Longrightarrow> src \<noteq> NULL \<Longrightarrow>
     copy_step (m, Call (Ms_copy dest src)) (m, Copy_loop dest src dest src)"
| copy_load_fault: "load m src_ptr = Inl e \<Longrightarrow>
     copy_step (m, Copy_loop dest src dest_ptr src_ptr) (m, Done (Inl e))"
| copy_store_fault: "load m src_ptr = Inr c \<Longrightarrow> c \<noteq> 0 \<Longrightarrow> store m dest_ptr c = Inl e \<Longrightarrow>
     copy_step (m, Copy_loop dest src dest_ptr src_ptr) (m, Done (Inl e))"
| copy_next: "load m src_ptr = Inr c \<Longrightarrow> c \<noteq> 0 \<Longrightarrow> store m dest_ptr c = Inr m' \<Longrightarrow>
     copy_step (m, Copy_loop dest src dest_ptr src_ptr)
       (m', Copy_loop dest src (ptr_add dest_ptr 1) (ptr_add src_ptr 1))"
| copy_return: "load m src_ptr = Inr 0 \<Longrightarrow>
     copy_step (m, Copy_loop dest src dest_ptr src_ptr)
       (m, Done (ret_dest (bindE (store m dest_ptr 0) (\<lambda>m'. Inr (m', dest)))))"

text \<open>
  \<open>ms_ncopy\<close>: \<open>Ncopy_loop\<close> is the head of the copying loop, \<open>Ncopy_pad\<close>
  the head of the padding loop \<open>while (src_ptr - src != num)\<close>.
\<close>

inductive ncopy_step :: "ptrs_state \<Rightarrow> ptrs_state \<Rightarrow> bool" where
  ncopy_assert: "dest = NULL \<or> src = NULL \<Longrightarrow>
     ncopy_step (m, Call (Ms_ncopy dest src num)) (m, Done (Inl Assert_fail))"
| ncopy_start: "dest \<noteq> NULL \<Longrightarrow> src \<noteq> NULL \<Longrightarrow>
     ncopy_step (m, Call (Ms_ncopy dest src num)) (m, Ncopy_loop dest src dest src num)"
| ncopy_load_fault: "load m src_ptr = Inl e \<Longrightarrow>
     ncopy_step (m, Ncopy_loop dest src dest_ptr src_ptr num) (m, Done (Inl e))"
| ncopy_store_fault: "load m src_ptr = Inr c \<Longrightarrow> c \<noteq> 0 \<Longrightarrow>
     word_of_int (ptr_diff src_ptr src) \<noteq> num \<Longrightarrow> store m dest_ptr c = Inl e \<Longrightarrow>
     ncopy_step (m, Ncopy_loop dest src dest_ptr src_ptr num) (m, Done (Inl e))"
| ncopy_next: "load m src_ptr = Inr c \<Longrightarrow> c \<noteq> 0 \<Longrightarrow>
     word_of_int (ptr_diff src_ptr src) \<noteq> num \<Longrightarrow> store m dest_ptr c = Inr m' \<Longrightarrow>
     ncopy_step (m, Ncopy_loop dest src dest_ptr src_ptr num)
       (m', Ncopy_loop dest src (ptr_add dest_ptr 1) (ptr_add src_ptr 1) num)"
| ncopy_exit: "load m src_ptr = Inr c \<Longrightarrow> \<not> (c \<noteq> 0 \<and> word_of_int (ptr_diff src_ptr src) \<noteq> num) \<Longrightarrow>
     ncopy_step (m, Ncopy_loop dest src dest_ptr src_ptr num) (m, Ncopy_pad dest src dest_ptr src_ptr num)"
| ncopy_pad_fault: "word_of_int (ptr_diff src_ptr src) \<noteq> num \<Longrightarrow> store m dest_ptr 0 = Inl e \<Longrightarrow>
     ncopy_step (m, Ncopy_pad dest src dest_ptr src_ptr num) (m, Done (Inl e))"
| ncopy_pad_next: "word_of_int (ptr_diff src_ptr src) \<noteq> num \<Longrightarrow> store m dest_ptr 0 = Inr m' \<Longrightarrow>
     ncopy_step (m, Ncopy_pad dest src dest_ptr src_ptr num)
       (m', Ncopy_pad dest src (ptr_add dest_ptr 1) (ptr_add src_ptr 1) num)"
| ncopy_return: "word_of_int (ptr_diff src_ptr src) = num \<Longrightarrow>
     ncopy_step (m, Ncopy_pad dest src dest_ptr src_ptr num) (m, Done (Inr (m, V_ptr dest)))"

text \<open>
  \<open>ms_concat\<close>: the first step computes \<open>dest_ptr = &dest[ms_length(dest)]\<close>;
  \<open>Concat_loop\<close> is the head of \<open>while (*src_ptr)\<close>.
\<close>

inductive concat_step :: "ptrs_state \<Rightarrow> ptrs_state \<Rightarrow> bool" where
  concat_assert: "dest = NULL \<or> src = NULL \<Longrightarrow>
     concat_step (m, Call (Ms_concat dest src)) (m, Done (Inl Assert_fail))"
| concat_length_fault: "dest \<noteq> NULL \<Longrightarrow> src \<noteq> NULL \<Longrightarrow> ms_length_ptrs m dest = Inl e \<Longrightarrow>
     concat_step (m, Call (Ms_concat dest src)) (m, Done (Inl e))"
| concat_start: "dest \<noteq> NULL \<Longrightarrow> src \<noteq> NULL \<Longrightarrow> ms_length_ptrs m dest = Inr dest_length \<Longrightarrow>
     concat_step (m, Call (Ms_concat dest src))
       (m, Concat_loop dest src (ptr_add dest (unat dest_length)) src)"
| concat_load_fault: "load m src_ptr = Inl e \<Longrightarrow>
     concat_step (m, Concat_loop dest src dest_ptr src_ptr) (m, Done (Inl e))"
| concat_store_fault: "load m src_ptr = Inr c \<Longrightarrow> c \<noteq> 0 \<Longrightarrow> store m dest_ptr c = Inl e \<Longrightarrow>
     concat_step (m, Concat_loop dest src dest_ptr src_ptr) (m, Done (Inl e))"
| concat_next: "load m src_ptr = Inr c \<Longrightarrow> c \<noteq> 0 \<Longrightarrow> store m dest_ptr c = Inr m' \<Longrightarrow>
     concat_step (m, Concat_loop dest src dest_ptr src_ptr)
       (m', Concat_loop dest src (ptr_add dest_ptr 1) (ptr_add src_ptr 1))"
| concat_return: "load m src_ptr = Inr 0 \<Longrightarrow>
     concat_step (m, Concat_loop dest src dest_ptr src_ptr)
       (m, Done (ret_dest (bindE (store m dest_ptr 0) (\<lambda>m'. Inr (m', dest)))))"

text \<open>\<open>ms_nconcat\<close>: as \<open>ms_concat\<close>, the loop also stopping at \<open>src_ptr - src == num\<close>.\<close>

inductive nconcat_step :: "ptrs_state \<Rightarrow> ptrs_state \<Rightarrow> bool" where
  nconcat_assert: "dest = NULL \<or> src = NULL \<Longrightarrow>
     nconcat_step (m, Call (Ms_nconcat dest src num)) (m, Done (Inl Assert_fail))"
| nconcat_length_fault: "dest \<noteq> NULL \<Longrightarrow> src \<noteq> NULL \<Longrightarrow> ms_length_ptrs m dest = Inl e \<Longrightarrow>
     nconcat_step (m, Call (Ms_nconcat dest src num)) (m, Done (Inl e))"
| nconcat_start: "dest \<noteq> NULL \<Longrightarrow> src \<noteq> NULL \<Longrightarrow> ms_length_ptrs m dest = Inr dest_length \<Longrightarrow>
     nconcat_step (m, Call (Ms_nconcat dest src num))
       (m, Nconcat_loop dest src (ptr_add dest (unat dest_length)) src num)"
| nconcat_load_fault: "load m src_ptr = Inl e \<Longrightarrow>
     nconcat_step (m, Nconcat_loop dest src dest_ptr src_ptr num) (m, Done (Inl e))"
| nconcat_store_fault: "load m src_ptr = Inr c \<Longrightarrow> c \<noteq> 0 \<Longrightarrow>
     word_of_int (ptr_diff src_ptr src) \<noteq> num \<Longrightarrow> store m dest_ptr c = Inl e \<Longrightarrow>
     nconcat_step (m, Nconcat_loop dest src dest_ptr src_ptr num) (m, Done (Inl e))"
| nconcat_next: "load m src_ptr = Inr c \<Longrightarrow> c \<noteq> 0 \<Longrightarrow>
     word_of_int (ptr_diff src_ptr src) \<noteq> num \<Longrightarrow> store m dest_ptr c = Inr m' \<Longrightarrow>
     nconcat_step (m, Nconcat_loop dest src dest_ptr src_ptr num)
       (m', Nconcat_loop dest src (ptr_add dest_ptr 1) (ptr_add src_ptr 1) num)"
| nconcat_return: "load m src_ptr = Inr c \<Longrightarrow> \<not> (c \<noteq> 0 \<and> word_of_int (ptr_diff src_ptr src) \<noteq> num) \<Longrightarrow>
     nconcat_step (m, Nconcat_loop dest src dest_ptr src_ptr num)
       (m, Done (ret_dest (bindE (store m dest_ptr 0) (\<lambda>m'. Inr (m', dest)))))"

text \<open>
  \<open>ms_compare\<close>: \<open>Compare_loop str1 str2 ptr1 ptr2\<close> is the head of
  \<open>while (*ptr1 && *ptr2)\<close>; a step returns from inside the loop when the
  units differ, or after it.
\<close>

inductive compare_step :: "ptrs_state \<Rightarrow> ptrs_state \<Rightarrow> bool" where
  compare_assert: "str1 = NULL \<or> str2 = NULL \<Longrightarrow>
     compare_step (m, Call (Ms_compare str1 str2)) (m, Done (Inl Assert_fail))"
| compare_start: "str1 \<noteq> NULL \<Longrightarrow> str2 \<noteq> NULL \<Longrightarrow>
     compare_step (m, Call (Ms_compare str1 str2)) (m, Compare_loop str1 str2 str1 str2)"
| compare_fault1: "load m ptr1 = Inl e \<Longrightarrow>
     compare_step (m, Compare_loop str1 str2 ptr1 ptr2) (m, Done (Inl e))"
| compare_fault2: "load m ptr1 = Inr c1 \<Longrightarrow> c1 \<noteq> 0 \<Longrightarrow> load m ptr2 = Inl e \<Longrightarrow>
     compare_step (m, Compare_loop str1 str2 ptr1 ptr2) (m, Done (Inl e))"
| compare_differ: "load m ptr1 = Inr c1 \<Longrightarrow> c1 \<noteq> 0 \<Longrightarrow> load m ptr2 = Inr c2 \<Longrightarrow> c2 \<noteq> 0 \<Longrightarrow>
     c1 \<noteq> c2 \<Longrightarrow>
     compare_step (m, Compare_loop str1 str2 ptr1 ptr2)
       (m, Done (Inr (m, V_int (char_int c1 - char_int c2))))"
| compare_next: "load m ptr1 = Inr c1 \<Longrightarrow> c1 \<noteq> 0 \<Longrightarrow> load m ptr2 = Inr c2 \<Longrightarrow> c2 \<noteq> 0 \<Longrightarrow>
     c1 = c2 \<Longrightarrow>
     compare_step (m, Compare_loop str1 str2 ptr1 ptr2)
       (m, Compare_loop str1 str2 (ptr_add ptr1 1) (ptr_add ptr2 1))"
| compare_stop: "load m ptr1 = Inr c1 \<Longrightarrow> c1 \<noteq> 0 \<Longrightarrow> load m ptr2 = Inr c2 \<Longrightarrow> c2 = 0 \<Longrightarrow>
     compare_step (m, Compare_loop str1 str2 ptr1 ptr2)
       (m, Done (Inr (m, V_int (char_int c1 - char_int c2))))"
| compare_end: "load m ptr1 = Inr c1 \<Longrightarrow> c1 = 0 \<Longrightarrow>
     compare_step (m, Compare_loop str1 str2 ptr1 ptr2)
       (m, Done (ret_int m (bindE (load m ptr2) (\<lambda>c2. Inr (char_int c1 - char_int c2)))))"

text \<open>
  \<open>ms_ncompare\<close>: \<open>Ncompare_loop\<close> is the head of
  \<open>while (*ptr1 && *ptr2 && (ptr1 - str1) != num)\<close>; after the loop the
  code returns \<open>0\<close> when \<open>ptr1 - str1 == num\<close>, else \<open>*ptr1 - *ptr2\<close>.
\<close>

inductive ncompare_step :: "ptrs_state \<Rightarrow> ptrs_state \<Rightarrow> bool" where
  ncompare_assert: "str1 = NULL \<or> str2 = NULL \<Longrightarrow>
     ncompare_step (m, Call (Ms_ncompare str1 str2 num)) (m, Done (Inl Assert_fail))"
| ncompare_start: "str1 \<noteq> NULL \<Longrightarrow> str2 \<noteq> NULL \<Longrightarrow>
     ncompare_step (m, Call (Ms_ncompare str1 str2 num)) (m, Ncompare_loop str1 str2 str1 str2 num)"
| ncompare_fault1: "load m ptr1 = Inl e \<Longrightarrow>
     ncompare_step (m, Ncompare_loop str1 str2 ptr1 ptr2 num) (m, Done (Inl e))"
| ncompare_fault2: "load m ptr1 = Inr c1 \<Longrightarrow> c1 \<noteq> 0 \<Longrightarrow> load m ptr2 = Inl e \<Longrightarrow>
     ncompare_step (m, Ncompare_loop str1 str2 ptr1 ptr2 num) (m, Done (Inl e))"
| ncompare_differ: "load m ptr1 = Inr c1 \<Longrightarrow> c1 \<noteq> 0 \<Longrightarrow> load m ptr2 = Inr c2 \<Longrightarrow> c2 \<noteq> 0 \<Longrightarrow>
     word_of_int (ptr_diff ptr1 str1) \<noteq> num \<Longrightarrow> c1 \<noteq> c2 \<Longrightarrow>
     ncompare_step (m, Ncompare_loop str1 str2 ptr1 ptr2 num)
       (m, Done (Inr (m, V_int (char_int c1 - char_int c2))))"
| ncompare_next: "load m ptr1 = Inr c1 \<Longrightarrow> c1 \<noteq> 0 \<Longrightarrow> load m ptr2 = Inr c2 \<Longrightarrow> c2 \<noteq> 0 \<Longrightarrow>
     word_of_int (ptr_diff ptr1 str1) \<noteq> num \<Longrightarrow> c1 = c2 \<Longrightarrow>
     ncompare_step (m, Ncompare_loop str1 str2 ptr1 ptr2 num)
       (m, Ncompare_loop str1 str2 (ptr_add ptr1 1) (ptr_add ptr2 1) num)"
| ncompare_stop_equal: "load m ptr1 = Inr c1 \<Longrightarrow> c1 \<noteq> 0 \<Longrightarrow> load m ptr2 = Inr c2 \<Longrightarrow>
     word_of_int (ptr_diff ptr1 str1) = num \<Longrightarrow>
     ncompare_step (m, Ncompare_loop str1 str2 ptr1 ptr2 num) (m, Done (Inr (m, V_int 0)))"
| ncompare_stop_differ: "load m ptr1 = Inr c1 \<Longrightarrow> c1 \<noteq> 0 \<Longrightarrow> load m ptr2 = Inr c2 \<Longrightarrow> c2 = 0 \<Longrightarrow>
     word_of_int (ptr_diff ptr1 str1) \<noteq> num \<Longrightarrow>
     ncompare_step (m, Ncompare_loop str1 str2 ptr1 ptr2 num)
       (m, Done (Inr (m, V_int (char_int c1 - char_int c2))))"
| ncompare_end_equal: "load m ptr1 = Inr c1 \<Longrightarrow> c1 = 0 \<Longrightarrow> word_of_int (ptr_diff ptr1 str1) = num \<Longrightarrow>
     ncompare_step (m, Ncompare_loop str1 str2 ptr1 ptr2 num) (m, Done (Inr (m, V_int 0)))"
| ncompare_end_differ: "load m ptr1 = Inr c1 \<Longrightarrow> c1 = 0 \<Longrightarrow> word_of_int (ptr_diff ptr1 str1) \<noteq> num \<Longrightarrow>
     ncompare_step (m, Ncompare_loop str1 str2 ptr1 ptr2 num)
       (m, Done (ret_int m (bindE (load m ptr2) (\<lambda>c2. Inr (char_int c1 - char_int c2)))))"

text \<open>\<open>ms_search\<close>: the steps of \<open>search_step\<close>, then the return.\<close>

inductive search_run_step :: "ptrs_state \<Rightarrow> ptrs_state \<Rightarrow> bool" where
  search_call: "search_run_step (m, Call (Ms_search haystack needle)) (m, Search_run needle (Entry haystack))"
| search_move: "search_step m needle s s' \<Longrightarrow>
     search_run_step (m, Search_run needle s) (m, Search_run needle s')"
| search_return: "search_run_step (m, Search_run needle (Halt r)) (m, Done (ret_ptr m r))"

text \<open>A step of the module: a step of the function whose control point the state holds.\<close>

definition ptrs_step :: "ptrs_state \<Rightarrow> ptrs_state \<Rightarrow> bool" where
  "ptrs_step s t \<longleftrightarrow>
     length_step s t \<or> copy_step s t \<or> ncopy_step s t \<or> concat_step s t \<or> nconcat_step s t \<or>
     compare_step s t \<or> ncompare_step s t \<or> search_run_step s t"

text \<open>
  The measure that every step decreases: the units left to read or write
  from the moving pointers, plus the statements left around the loops.
\<close>

fun call_measure :: "mem \<Rightarrow> ms_call \<Rightarrow> nat" where
  "call_measure m (Ms_length s) = Suc (Suc (remaining m s))"
| "call_measure m (Ms_copy d s) = Suc (Suc (remaining m s))"
| "call_measure m (Ms_ncopy d s n) = Suc (Suc (Suc (remaining m s + remaining m d)))"
| "call_measure m (Ms_concat d s) = Suc (Suc (remaining m s))"
| "call_measure m (Ms_nconcat d s n) = Suc (Suc (remaining m s))"
| "call_measure m (Ms_compare a b) = Suc (Suc (remaining m a))"
| "call_measure m (Ms_ncompare a b n) = Suc (Suc (remaining m a))"
| "call_measure m (Ms_search h n) = Suc (Suc (search_measure m (Entry h)))"

fun ptrs_measure :: "ptrs_state \<Rightarrow> nat" where
  "ptrs_measure (m, Call c) = call_measure m c"
| "ptrs_measure (m, Length_loop str str_ptr) = Suc (remaining m str_ptr)"
| "ptrs_measure (m, Copy_loop dest src dest_ptr src_ptr) = Suc (remaining m src_ptr)"
| "ptrs_measure (m, Ncopy_loop dest src dest_ptr src_ptr num) =
     Suc (Suc (remaining m src_ptr + remaining m dest_ptr))"
| "ptrs_measure (m, Ncopy_pad dest src dest_ptr src_ptr num) = Suc (remaining m dest_ptr)"
| "ptrs_measure (m, Concat_loop dest src dest_ptr src_ptr) = Suc (remaining m src_ptr)"
| "ptrs_measure (m, Nconcat_loop dest src dest_ptr src_ptr num) = Suc (remaining m src_ptr)"
| "ptrs_measure (m, Compare_loop str1 str2 ptr1 ptr2) = Suc (remaining m ptr1)"
| "ptrs_measure (m, Ncompare_loop str1 str2 ptr1 ptr2 num) = Suc (remaining m ptr1)"
| "ptrs_measure (m, Search_run needle s) = Suc (search_measure m s)"
| "ptrs_measure (m, Done r) = 0"

text \<open>
  How far a pointer is into the array that starts at another (\<open>p - base\<close>
  when \<open>p\<close> points into it), and the loop invariant of the functions that
  move two pointers: they advance together, at the same distance from the
  start of their arrays, except in \<open>ms_concat\<close> and \<open>ms_nconcat\<close>, where
  the destination pointer started \<open>ms_length(dest)\<close> units further in.
\<close>

fun offset_in :: "ptr \<Rightarrow> ptr \<Rightarrow> nat option" where
  "offset_in (Ptr b i) (Ptr c j) = (if b = c \<and> i \<le> j then Some (j - i) else None)"
| "offset_in _ _ = None"

fun lockstep :: "ptrs_pc \<Rightarrow> bool" where
  "lockstep (Length_loop str str_ptr) = (offset_in str str_ptr \<noteq> None)"
| "lockstep (Copy_loop dest src dest_ptr src_ptr) =
     (offset_in src src_ptr \<noteq> None \<and> offset_in dest dest_ptr = offset_in src src_ptr)"
| "lockstep (Ncopy_loop dest src dest_ptr src_ptr num) =
     (offset_in src src_ptr \<noteq> None \<and> offset_in dest dest_ptr = offset_in src src_ptr)"
| "lockstep (Ncopy_pad dest src dest_ptr src_ptr num) =
     (offset_in src src_ptr \<noteq> None \<and> offset_in dest dest_ptr = offset_in src src_ptr)"
| "lockstep (Concat_loop dest src dest_ptr src_ptr) =
     (case (offset_in dest dest_ptr, offset_in src src_ptr) of
        (Some k, Some l) \<Rightarrow> l \<le> k | _ \<Rightarrow> False)"
| "lockstep (Nconcat_loop dest src dest_ptr src_ptr num) =
     (case (offset_in dest dest_ptr, offset_in src src_ptr) of
        (Some k, Some l) \<Rightarrow> l \<le> k | _ \<Rightarrow> False)"
| "lockstep (Compare_loop str1 str2 ptr1 ptr2) =
     (offset_in str1 ptr1 \<noteq> None \<and> offset_in str2 ptr2 = offset_in str1 ptr1)"
| "lockstep (Ncompare_loop str1 str2 ptr1 ptr2 num) =
     (offset_in str1 ptr1 \<noteq> None \<and> offset_in str2 ptr2 = offset_in str1 ptr1)"
| "lockstep _ = True"

lemma length_loop_reaches:
  "\<exists>m'. length_step\<^sup>*\<^sup>* (m, Length_loop str p)
     (m', Done (bindE (ms_length_ptrs_loop m p) (\<lambda>q. Inr (m, V_size (word_of_int (ptr_diff q str))))))"
proof (induction m p rule: ms_length_ptrs_loop.induct)
  case (1 m p)
  then show ?case
    by (cases "load m p")
       (auto simp: ms_length_ptrs_loop.simps [of m p]
          intro: step_reaches_final step_then_reaches length_step.intros)
qed

lemma copy_loop_reaches:
  "\<exists>m'. copy_step\<^sup>*\<^sup>* (m, Copy_loop dest src dp sp)
     (m', Done (ret_dest (bindE (ms_copy_ptrs_loop m dp sp) (\<lambda>(m', dest_ptr).
        bindE (store m' dest_ptr 0) (\<lambda>m''. Inr (m'', dest))))))"
proof (induction m dp sp rule: ms_copy_ptrs_loop.induct)
  case (1 m dp sp)
  note simps = ms_copy_ptrs_loop.simps [of m dp sp]
  show ?case
  proof (cases "load m sp")
    case (Inl e)
    show ?thesis
      using copy_load_fault [OF Inl] by (rule final_step_reaches) (simp add: simps Inl ret_dest_def)
  next
    case l: (Inr c)
    show ?thesis
    proof (cases "c = 0")
      case True
      show ?thesis
        using copy_return [OF l [unfolded True]] by (rule final_step_reaches) (simp add: simps l True)
    next
      case c: False
      show ?thesis
      proof (cases "store m dp c")
        case (Inl e)
        show ?thesis
          using copy_store_fault [OF l c Inl] by (rule final_step_reaches) (simp add: simps l c Inl ret_dest_def)
      next
        case st: (Inr m')
        have "ms_copy_ptrs_loop m dp sp = ms_copy_ptrs_loop m' (ptr_add dp 1) (ptr_add sp 1)"
          by (simp add: simps l c st)
        then show ?thesis
          using step_then_reaches [OF copy_next [OF l c st] "1.IH" [OF l c st]] by simp
      qed
    qed
  qed
qed

lemma compare_loop_reaches:
  "\<exists>m'. compare_step\<^sup>*\<^sup>* (m, Compare_loop str1 str2 p1 p2)
     (m', Done (ret_int m (ms_compare_ptrs_loop m p1 p2)))"
proof (induction m p1 p2 rule: ms_compare_ptrs_loop.induct)
  case (1 m p1 p2)
  note simps = ms_compare_ptrs_loop.simps [of m p1 p2]
  show ?case
  proof (cases "load m p1")
    case (Inl e)
    show ?thesis
      using compare_fault1 [OF Inl] by (rule final_step_reaches) (simp add: simps Inl ret_int_def)
  next
    case l1: (Inr c1)
    show ?thesis
    proof (cases "c1 = 0")
      case True
      show ?thesis
        using compare_end [OF l1 [unfolded True] refl] by (rule final_step_reaches) (simp add: simps l1 True)
    next
      case c1: False
      show ?thesis
      proof (cases "load m p2")
        case (Inl e)
        show ?thesis
          using compare_fault2 [OF l1 c1 Inl] by (rule final_step_reaches) (simp add: simps l1 c1 Inl ret_int_def)
      next
        case l2: (Inr c2)
        consider (z) "c2 = 0" | (d) "c2 \<noteq> 0" "c1 \<noteq> c2" | (e) "c2 \<noteq> 0" "c1 = c2" by blast
        then show ?thesis
        proof cases
          case z
          show ?thesis
            using compare_stop [OF l1 c1 l2 z] by (rule final_step_reaches) (simp add: simps l1 c1 l2 z ret_int_def)
        next
          case d
          show ?thesis
            using compare_differ [OF l1 c1 l2 d] by (rule final_step_reaches) (simp add: simps l1 c1 l2 d ret_int_def)
        next
          case e
          have "ms_compare_ptrs_loop m p1 p2 = ms_compare_ptrs_loop m (ptr_add p1 1) (ptr_add p2 1)"
            by (simp add: simps l1 c1 l2 e)
          moreover have "\<not> c1 \<noteq> c2" using e by simp
          ultimately show ?thesis
            using step_then_reaches [OF compare_next [OF l1 c1 l2 e] "1.IH" [OF l1 c1 l2 e(1)]] by simp
        qed
      qed
    qed
  qed
qed

lemma concat_loop_reaches:
  "\<exists>m'. concat_step\<^sup>*\<^sup>* (m, Concat_loop dest src dp sp)
     (m', Done (ret_dest (bindE (ms_concat_ptrs_loop m dp sp) (\<lambda>(m', dest_ptr).
        bindE (store m' dest_ptr 0) (\<lambda>m''. Inr (m'', dest))))))"
proof (induction m dp sp rule: ms_concat_ptrs_loop.induct)
  case (1 m dp sp)
  note simps = ms_concat_ptrs_loop.simps [of m dp sp]
  show ?case
  proof (cases "load m sp")
    case (Inl e)
    show ?thesis
      using concat_load_fault [OF Inl] by (rule final_step_reaches) (simp add: simps Inl ret_dest_def)
  next
    case l: (Inr c)
    show ?thesis
    proof (cases "c = 0")
      case True
      show ?thesis
        using concat_return [OF l [unfolded True]] by (rule final_step_reaches) (simp add: simps l True)
    next
      case c: False
      show ?thesis
      proof (cases "store m dp c")
        case (Inl e)
        show ?thesis
          using concat_store_fault [OF l c Inl] by (rule final_step_reaches) (simp add: simps l c Inl ret_dest_def)
      next
        case st: (Inr m')
        have "ms_concat_ptrs_loop m dp sp = ms_concat_ptrs_loop m' (ptr_add dp 1) (ptr_add sp 1)"
          by (simp add: simps l c st)
        then show ?thesis
          using step_then_reaches [OF concat_next [OF l c st] "1.IH" [OF l c st]] by simp
      qed
    qed
  qed
qed

lemma ncopy_pad_reaches:
  "\<exists>m'. ncopy_step\<^sup>*\<^sup>* (m, Ncopy_pad dest src dp sp num)
     (m', Done (ret_dest (bindE (ms_ncopy_ptrs_pad m src dp sp num) (\<lambda>m''. Inr (m'', dest)))))"
proof (induction m src dp sp num rule: ms_ncopy_ptrs_pad.induct)
  case (1 m src dp sp num)
  note simps = ms_ncopy_ptrs_pad.simps [of m src dp sp num]
  show ?case
  proof (cases "word_of_int (ptr_diff sp src) = num")
    case True
    show ?thesis
      using ncopy_return [OF True] by (rule final_step_reaches) (simp add: simps True ret_dest_def)
  next
    case d: False
    show ?thesis
    proof (cases "store m dp 0")
      case (Inl e)
      show ?thesis
        using ncopy_pad_fault [OF d Inl] by (rule final_step_reaches) (simp add: simps d Inl ret_dest_def)
    next
      case st: (Inr m')
      have "ms_ncopy_ptrs_pad m src dp sp num = ms_ncopy_ptrs_pad m' src (ptr_add dp 1) (ptr_add sp 1) num"
        by (simp add: simps d st)
      then show ?thesis
        using step_then_reaches [OF ncopy_pad_next [OF d st] "1.IH" [OF d st]] by simp
    qed
  qed
qed

lemma ncopy_loop_reaches:
  "\<exists>m'. ncopy_step\<^sup>*\<^sup>* (m, Ncopy_loop dest src dp sp num)
     (m', Done (ret_dest (bindE (ms_ncopy_ptrs_loop m src dp sp num) (\<lambda>(m', dest_ptr, src_ptr).
        bindE (ms_ncopy_ptrs_pad m' src dest_ptr src_ptr num) (\<lambda>m''. Inr (m'', dest))))))"
proof (induction m src dp sp num rule: ms_ncopy_ptrs_loop.induct)
  case (1 m src dp sp num)
  note simps = ms_ncopy_ptrs_loop.simps [of m src dp sp num]
  show ?case
  proof (cases "load m sp")
    case (Inl e)
    show ?thesis
      using ncopy_load_fault [OF Inl] by (rule final_step_reaches) (simp add: simps Inl ret_dest_def)
  next
    case l: (Inr c)
    show ?thesis
    proof (cases "c \<noteq> 0 \<and> word_of_int (ptr_diff sp src) \<noteq> num")
      case False
      have "ms_ncopy_ptrs_loop m src dp sp num = Inr (m, dp, sp)"
        by (simp add: simps l False)
      then show ?thesis
        using step_then_reaches [OF ncopy_exit [OF l False] ncopy_pad_reaches] by simp
    next
      case cnd: True
      show ?thesis
      proof (cases "store m dp c")
        case (Inl e)
        show ?thesis
          using ncopy_store_fault [OF l conjunct1 [OF cnd] conjunct2 [OF cnd] Inl]
          by (rule final_step_reaches) (simp add: simps l cnd Inl ret_dest_def)
      next
        case st: (Inr m')
        have "ms_ncopy_ptrs_loop m src dp sp num = ms_ncopy_ptrs_loop m' src (ptr_add dp 1) (ptr_add sp 1) num"
          by (simp add: simps l cnd st)
        then show ?thesis
          using step_then_reaches [OF ncopy_next [OF l conjunct1 [OF cnd] conjunct2 [OF cnd] st]
              "1.IH" [OF l cnd st]] by simp
      qed
    qed
  qed
qed

lemma nconcat_loop_reaches:
  "\<exists>m'. nconcat_step\<^sup>*\<^sup>* (m, Nconcat_loop dest src dp sp num)
     (m', Done (ret_dest (bindE (ms_nconcat_ptrs_loop m src dp sp num) (\<lambda>(m', dest_ptr).
        bindE (store m' dest_ptr 0) (\<lambda>m''. Inr (m'', dest))))))"
proof (induction m src dp sp num rule: ms_nconcat_ptrs_loop.induct)
  case (1 m src dp sp num)
  note simps = ms_nconcat_ptrs_loop.simps [of m src dp sp num]
  show ?case
  proof (cases "load m sp")
    case (Inl e)
    show ?thesis
      using nconcat_load_fault [OF Inl] by (rule final_step_reaches) (simp add: simps Inl ret_dest_def)
  next
    case l: (Inr c)
    show ?thesis
    proof (cases "c \<noteq> 0 \<and> word_of_int (ptr_diff sp src) \<noteq> num")
      case False
      show ?thesis
        using nconcat_return [OF l False] by (rule final_step_reaches) (simp add: simps l False)
    next
      case cnd: True
      show ?thesis
      proof (cases "store m dp c")
        case (Inl e)
        show ?thesis
          using nconcat_store_fault [OF l conjunct1 [OF cnd] conjunct2 [OF cnd] Inl]
          by (rule final_step_reaches) (simp add: simps l cnd Inl ret_dest_def)
      next
        case st: (Inr m')
        have "ms_nconcat_ptrs_loop m src dp sp num = ms_nconcat_ptrs_loop m' src (ptr_add dp 1) (ptr_add sp 1) num"
          by (simp add: simps l cnd st)
        then show ?thesis
          using step_then_reaches [OF nconcat_next [OF l conjunct1 [OF cnd] conjunct2 [OF cnd] st]
              "1.IH" [OF l cnd st]] by simp
      qed
    qed
  qed
qed

lemma ncompare_end_reaches:
  assumes l1: "load m p1 = Inr 0"
  shows "\<exists>m'. ncompare_step\<^sup>*\<^sup>* (m, Ncompare_loop str1 str2 p1 p2 num)
           (m', Done (ret_int m (ms_ncompare_ptrs_loop m str1 p1 p2 num)))"
proof (cases "word_of_int (ptr_diff p1 str1) = num")
  case eq: True
  show ?thesis
    using ncompare_end_equal [OF l1 refl eq]
    by (rule final_step_reaches) (simp add: ms_ncompare_ptrs_loop.simps [of m str1 p1 p2 num] l1 eq ret_int_def)
next
  case ne: False
  show ?thesis
    using ncompare_end_differ [OF l1 refl ne]
    by (rule final_step_reaches) (simp add: ms_ncompare_ptrs_loop.simps [of m str1 p1 p2 num] l1 ne)
qed

lemma ncompare_stop_reaches:
  assumes l1: "load m p1 = Inr c1" and c1: "c1 \<noteq> 0" and l2: "load m p2 = Inr c2"
    and stop: "\<not> (c2 \<noteq> 0 \<and> word_of_int (ptr_diff p1 str1) \<noteq> num)"
  shows "\<exists>m'. ncompare_step\<^sup>*\<^sup>* (m, Ncompare_loop str1 str2 p1 p2 num)
           (m', Done (ret_int m (ms_ncompare_ptrs_loop m str1 p1 p2 num)))"
proof (cases "word_of_int (ptr_diff p1 str1) = num")
  case eq: True
  show ?thesis
    using ncompare_stop_equal [OF l1 c1 l2 eq]
    by (rule final_step_reaches)
       (simp add: ms_ncompare_ptrs_loop.simps [of m str1 p1 p2 num] l1 c1 l2 eq ret_int_def)
next
  case ne: False
  have z: "c2 = 0" using stop ne by simp
  show ?thesis
    using ncompare_stop_differ [OF l1 c1 l2 z ne]
    by (rule final_step_reaches)
       (simp add: ms_ncompare_ptrs_loop.simps [of m str1 p1 p2 num] l1 c1 l2 z ne ret_int_def)
qed

lemma ncompare_loop_reaches:
  "\<exists>m'. ncompare_step\<^sup>*\<^sup>* (m, Ncompare_loop str1 str2 p1 p2 num)
     (m', Done (ret_int m (ms_ncompare_ptrs_loop m str1 p1 p2 num)))"
proof (induction m str1 p1 p2 num rule: ms_ncompare_ptrs_loop.induct)
  case (1 m str1 p1 p2 num)
  note simps = ms_ncompare_ptrs_loop.simps [of m str1 p1 p2 num]
  show ?case
  proof (cases "load m p1")
    case (Inl e)
    show ?thesis
      using ncompare_fault1 [OF Inl] by (rule final_step_reaches) (simp add: simps Inl ret_int_def)
  next
    case l1: (Inr c1)
    show ?thesis
    proof (cases "c1 = 0")
      case True
      show ?thesis
        using ncompare_end_reaches [OF l1 [unfolded True]] .
    next
      case c1: False
      show ?thesis
      proof (cases "load m p2")
        case (Inl e)
        show ?thesis
          using ncompare_fault2 [OF l1 c1 Inl] by (rule final_step_reaches) (simp add: simps l1 c1 Inl ret_int_def)
      next
        case l2: (Inr c2)
        show ?thesis
        proof (cases "c2 \<noteq> 0 \<and> word_of_int (ptr_diff p1 str1) \<noteq> num")
          case cnd: True
          show ?thesis
          proof (cases "c1 = c2")
            case False
            show ?thesis
              using ncompare_differ [OF l1 c1 l2 conjunct1 [OF cnd] conjunct2 [OF cnd] False]
              by (rule final_step_reaches) (simp add: simps l1 c1 l2 cnd False ret_int_def)
          next
            case e: True
            have "ms_ncompare_ptrs_loop m str1 p1 p2 num =
                    ms_ncompare_ptrs_loop m str1 (ptr_add p1 1) (ptr_add p2 1) num"
              by (simp add: simps l1 c1 l2 cnd e)
            moreover have "\<not> c1 \<noteq> c2" using e by simp
            ultimately show ?thesis
              using step_then_reaches [OF ncompare_next [OF l1 c1 l2 conjunct1 [OF cnd] conjunct2 [OF cnd] e]
                  "1.IH" [OF l1 c1 l2 cnd]] by simp
          qed
        next
          case stop: False
          show ?thesis
            using ncompare_stop_reaches [OF l1 c1 l2 stop] .
        qed
      qed
    qed
  qed
qed

lemma ptrs_step_sub:
  "length_step s t \<Longrightarrow> ptrs_step s t" "copy_step s t \<Longrightarrow> ptrs_step s t"
  "ncopy_step s t \<Longrightarrow> ptrs_step s t" "concat_step s t \<Longrightarrow> ptrs_step s t"
  "nconcat_step s t \<Longrightarrow> ptrs_step s t" "compare_step s t \<Longrightarrow> ptrs_step s t"
  "ncompare_step s t \<Longrightarrow> ptrs_step s t" "search_run_step s t \<Longrightarrow> ptrs_step s t"
  by (simp_all add: ptrs_step_def)

lemma search_run_steps:
  "(search_step m needle)\<^sup>*\<^sup>* s s' \<Longrightarrow>
   search_run_step\<^sup>*\<^sup>* (m, Search_run needle s) (m, Search_run needle s')"
  by (induction rule: rtranclp_induct) (auto intro: rtranclp.rtrancl_into_rtrancl search_move)

lemma search_call_reaches:
  "\<exists>m'. search_run_step\<^sup>*\<^sup>* (m, Call (Ms_search haystack needle))
     (m', Done (run_ptrs m (Ms_search haystack needle)))"
proof -
  have "search_run_step\<^sup>*\<^sup>* (m, Call (Ms_search haystack needle))
          (m, Search_run needle (Halt (ms_search_ptrs m haystack needle)))"
    using search_call search_run_steps [OF search_entry_reaches] by (rule converse_rtranclp_into_rtranclp)
  then have "search_run_step\<^sup>*\<^sup>* (m, Call (Ms_search haystack needle))
      (m, Done (ret_ptr m (ms_search_ptrs m haystack needle)))"
    using search_return by (rule rtranclp.rtrancl_into_rtrancl)
  then show ?thesis
    by auto
qed

lemma length_call_reaches:
  "\<exists>m'. length_step\<^sup>*\<^sup>* (m, Call (Ms_length s)) (m', Done (run_ptrs m (Ms_length s)))"
proof (cases "s = NULL")
  case True
  show ?thesis
    using length_assert [OF True] by (rule final_step_reaches) (simp add: True ret_size_def ms_length_ptrs_def)
next
  case False
  show ?thesis
    using step_then_reaches [OF length_start [OF False] length_loop_reaches [of m s s]] False
    by (cases s; cases "ms_length_ptrs_loop m s") (simp_all add: ret_size_def ms_length_ptrs_def)
qed

lemma copy_call_reaches:
  "\<exists>m'. copy_step\<^sup>*\<^sup>* (m, Call (Ms_copy d s)) (m', Done (run_ptrs m (Ms_copy d s)))"
proof (cases "d = NULL \<or> s = NULL")
  case True
  show ?thesis
    using copy_assert [OF True] by (rule final_step_reaches) (use True in \<open>cases d; cases s; simp add: ret_dest_def ms_copy_ptrs_def\<close>)
next
  case False
  then show ?thesis
    using step_then_reaches [OF copy_start copy_loop_reaches] False
    by (cases d; cases s) (simp_all add: ms_copy_ptrs_def)
qed

lemma ncopy_call_reaches:
  "\<exists>m'. ncopy_step\<^sup>*\<^sup>* (m, Call (Ms_ncopy d s n)) (m', Done (run_ptrs m (Ms_ncopy d s n)))"
proof (cases "d = NULL \<or> s = NULL")
  case True
  show ?thesis
    using ncopy_assert [OF True] by (rule final_step_reaches) (use True in \<open>cases d; cases s; simp add: ret_dest_def ms_ncopy_ptrs_def\<close>)
next
  case False
  then show ?thesis
    using step_then_reaches [OF ncopy_start ncopy_loop_reaches] False
    by (cases d; cases s) (simp_all add: ms_ncopy_ptrs_def)
qed

lemma concat_call_reaches:
  "\<exists>m'. concat_step\<^sup>*\<^sup>* (m, Call (Ms_concat d s)) (m', Done (run_ptrs m (Ms_concat d s)))"
proof (cases "d = NULL \<or> s = NULL")
  case True
  show ?thesis
    using concat_assert [OF True] by (rule final_step_reaches) (use True in \<open>cases d; cases s; simp add: ret_dest_def ms_concat_ptrs_def\<close>)
next
  case False
  then have nn: "d \<noteq> NULL" "s \<noteq> NULL" by simp_all
  show ?thesis
  proof (cases "ms_length_ptrs m d")
    case (Inl e)
    show ?thesis
      using concat_length_fault [OF nn Inl] by (rule final_step_reaches)
        (use nn Inl in \<open>cases d; cases s; simp add: ret_dest_def ms_concat_ptrs_def\<close>)
  next
    case (Inr dl)
    show ?thesis
      using step_then_reaches [OF concat_start [OF nn Inr] concat_loop_reaches] nn Inr
      by (simp add: ms_concat_ptrs_def assert_nonnull_def)
  qed
qed

lemma nconcat_call_reaches:
  "\<exists>m'. nconcat_step\<^sup>*\<^sup>* (m, Call (Ms_nconcat d s n)) (m', Done (run_ptrs m (Ms_nconcat d s n)))"
proof (cases "d = NULL \<or> s = NULL")
  case True
  show ?thesis
    using nconcat_assert [OF True] by (rule final_step_reaches) (use True in \<open>cases d; cases s; simp add: ret_dest_def ms_nconcat_ptrs_def\<close>)
next
  case False
  then have nn: "d \<noteq> NULL" "s \<noteq> NULL" by simp_all
  show ?thesis
  proof (cases "ms_length_ptrs m d")
    case (Inl e)
    show ?thesis
      using nconcat_length_fault [OF nn Inl] by (rule final_step_reaches)
        (use nn Inl in \<open>cases d; cases s; simp add: ret_dest_def ms_nconcat_ptrs_def\<close>)
  next
    case (Inr dl)
    show ?thesis
      using step_then_reaches [OF nconcat_start [OF nn Inr] nconcat_loop_reaches] nn Inr
      by (simp add: ms_nconcat_ptrs_def assert_nonnull_def)
  qed
qed

lemma compare_call_reaches:
  "\<exists>m'. compare_step\<^sup>*\<^sup>* (m, Call (Ms_compare a b)) (m', Done (run_ptrs m (Ms_compare a b)))"
proof (cases "a = NULL \<or> b = NULL")
  case True
  show ?thesis
    using compare_assert [OF True] by (rule final_step_reaches) (use True in \<open>cases a; cases b; simp add: ret_int_def ms_compare_ptrs_def\<close>)
next
  case False
  then show ?thesis
    using step_then_reaches [OF compare_start compare_loop_reaches] False
    by (cases a; cases b) (simp_all add: ms_compare_ptrs_def)
qed

lemma ncompare_call_reaches:
  "\<exists>m'. ncompare_step\<^sup>*\<^sup>* (m, Call (Ms_ncompare a b n)) (m', Done (run_ptrs m (Ms_ncompare a b n)))"
proof (cases "a = NULL \<or> b = NULL")
  case True
  show ?thesis
    using ncompare_assert [OF True] by (rule final_step_reaches) (use True in \<open>cases a; cases b; simp add: ret_int_def ms_ncompare_ptrs_def\<close>)
next
  case False
  then show ?thesis
    using step_then_reaches [OF ncompare_start ncompare_loop_reaches] False
    by (cases a; cases b) (simp_all add: ms_ncompare_ptrs_def)
qed

lemma ptrs_call_reaches: "\<exists>m'. ptrs_step\<^sup>*\<^sup>* (m, Call c) (m', Done (run_ptrs m c))"
  using reaches_mono [OF ptrs_step_sub(1) length_call_reaches]
    reaches_mono [OF ptrs_step_sub(2) copy_call_reaches]
    reaches_mono [OF ptrs_step_sub(3) ncopy_call_reaches]
    reaches_mono [OF ptrs_step_sub(4) concat_call_reaches]
    reaches_mono [OF ptrs_step_sub(5) nconcat_call_reaches]
    reaches_mono [OF ptrs_step_sub(6) compare_call_reaches]
    reaches_mono [OF ptrs_step_sub(7) ncompare_call_reaches]
    reaches_mono [OF ptrs_step_sub(8) search_call_reaches]
  by (cases c) simp_all

lemma ptrs_step_Done: "\<not> ptrs_step (m, Done r) t"
  by (auto simp: ptrs_step_def elim: length_step.cases copy_step.cases ncopy_step.cases
      concat_step.cases nconcat_step.cases compare_step.cases ncompare_step.cases search_run_step.cases)

lemma ptrs_step_deterministic: "ptrs_step s t \<Longrightarrow> ptrs_step s u \<Longrightarrow> t = u"
  unfolding ptrs_step_def
  by (elim disjE; erule length_step.cases copy_step.cases ncopy_step.cases concat_step.cases
        nconcat_step.cases compare_step.cases ncompare_step.cases search_run_step.cases;
      auto elim: length_step.cases copy_step.cases ncopy_step.cases concat_step.cases
        nconcat_step.cases compare_step.cases ncompare_step.cases search_run_step.cases
        dest: search_step_deterministic)

lemma offset_in_ptr_add [simp]: "p \<noteq> NULL \<Longrightarrow> offset_in p (ptr_add p k) = Some k"
  by (cases p) simp_all

lemma offset_in_self [simp]: "p \<noteq> NULL \<Longrightarrow> offset_in p p = Some 0"
  by (cases p) simp_all

lemma offset_in_Suc [simp]:
  "offset_in p q \<noteq> None \<Longrightarrow> offset_in p (ptr_add q (Suc 0)) = map_option Suc (offset_in p q)"
  by (cases p; cases q) (auto split: if_splits)

lemma length_step_measure: "length_step s t \<Longrightarrow> ptrs_measure t < ptrs_measure s"
  by (induction rule: length_step.induct) (auto dest: load_remaining_less_Suc0)

lemma copy_step_measure: "copy_step s t \<Longrightarrow> ptrs_measure t < ptrs_measure s"
  by (induction rule: copy_step.induct)
     (auto simp: store_remaining dest: load_remaining_less_Suc0)

lemma ncopy_step_measure: "ncopy_step s t \<Longrightarrow> ptrs_measure t < ptrs_measure s"
proof (induction rule: ncopy_step.induct)
  case (ncopy_next m src_ptr c src num dest_ptr m' dest)
  then show ?case
    using load_remaining_less_Suc0 [OF ncopy_next(1)] store_remaining_less_Suc0 [OF ncopy_next(4)]
    by (simp add: store_remaining [OF ncopy_next(4)])
next
  case (ncopy_pad_next src_ptr src num m dest_ptr m' dest)
  then show ?case
    using store_remaining_less_Suc0 [OF ncopy_pad_next(2)]
    by (simp add: store_remaining [OF ncopy_pad_next(2)])
qed auto

lemma concat_step_measure: "concat_step s t \<Longrightarrow> ptrs_measure t < ptrs_measure s"
  by (induction rule: concat_step.induct)
     (auto simp: store_remaining dest: load_remaining_less_Suc0)

lemma nconcat_step_measure: "nconcat_step s t \<Longrightarrow> ptrs_measure t < ptrs_measure s"
  by (induction rule: nconcat_step.induct)
     (auto simp: store_remaining dest: load_remaining_less_Suc0)

lemma compare_step_measure: "compare_step s t \<Longrightarrow> ptrs_measure t < ptrs_measure s"
  by (induction rule: compare_step.induct) (auto dest: load_remaining_less_Suc0)

lemma ncompare_step_measure: "ncompare_step s t \<Longrightarrow> ptrs_measure t < ptrs_measure s"
  by (induction rule: ncompare_step.induct) (auto dest: load_remaining_less_Suc0)

lemma search_run_step_measure: "search_run_step s t \<Longrightarrow> ptrs_measure t < ptrs_measure s"
  by (induction rule: search_run_step.induct) (auto dest: search_step_measure)

lemma length_step_lockstep: "length_step s t \<Longrightarrow> lockstep (snd s) \<Longrightarrow> lockstep (snd t)"
  by (induction rule: length_step.induct) auto

lemma copy_step_lockstep: "copy_step s t \<Longrightarrow> lockstep (snd s) \<Longrightarrow> lockstep (snd t)"
  by (induction rule: copy_step.induct) auto

lemma ncopy_step_lockstep: "ncopy_step s t \<Longrightarrow> lockstep (snd s) \<Longrightarrow> lockstep (snd t)"
  by (induction rule: ncopy_step.induct) auto

lemma concat_step_lockstep: "concat_step s t \<Longrightarrow> lockstep (snd s) \<Longrightarrow> lockstep (snd t)"
  by (induction rule: concat_step.induct) (auto split: option.splits)

lemma nconcat_step_lockstep: "nconcat_step s t \<Longrightarrow> lockstep (snd s) \<Longrightarrow> lockstep (snd t)"
  by (induction rule: nconcat_step.induct) (auto split: option.splits)

lemma compare_step_lockstep: "compare_step s t \<Longrightarrow> lockstep (snd s) \<Longrightarrow> lockstep (snd t)"
  by (induction rule: compare_step.induct) auto

lemma ncompare_step_lockstep: "ncompare_step s t \<Longrightarrow> lockstep (snd s) \<Longrightarrow> lockstep (snd t)"
  by (induction rule: ncompare_step.induct) auto

lemma search_run_step_lockstep: "search_run_step s t \<Longrightarrow> lockstep (snd s) \<Longrightarrow> lockstep (snd t)"
  by (induction rule: search_run_step.induct) auto

lemma ptrs_step_measure: "ptrs_step s t \<Longrightarrow> ptrs_measure t < ptrs_measure s"
  unfolding ptrs_step_def
  by (elim disjE) (simp_all add: length_step_measure copy_step_measure ncopy_step_measure
      concat_step_measure nconcat_step_measure compare_step_measure ncompare_step_measure
      search_run_step_measure)

lemma ptrs_step_lockstep: "ptrs_step s t \<Longrightarrow> lockstep (snd s) \<Longrightarrow> lockstep (snd t)"
  unfolding ptrs_step_def
  by (elim disjE) (simp_all add: length_step_lockstep copy_step_lockstep ncopy_step_lockstep
      concat_step_lockstep nconcat_step_lockstep compare_step_lockstep ncompare_step_lockstep
      search_run_step_lockstep)

lemma ptrs_reach_lockstep: "ptrs_step\<^sup>*\<^sup>* (m, Call c) s \<Longrightarrow> lockstep (snd s)"
  by (induction rule: rtranclp_induct) (auto dest: ptrs_step_lockstep)

lemma ptrs_run_result:
  "ptrs_step\<^sup>*\<^sup>* (m, Call c) (m', Done r) \<Longrightarrow> r = run_ptrs m c"
proof -
  assume run: "ptrs_step\<^sup>*\<^sup>* (m, Call c) (m', Done r)"
  obtain m'' where res: "ptrs_step\<^sup>*\<^sup>* (m, Call c) (m'', Done (run_ptrs m c))"
    using ptrs_call_reaches by blast
  have "(m', Done r) = (m'', Done (run_ptrs m c))"
  proof (rule rtranclp_deterministic_final [of ptrs_step])
    show "\<And>s t u. ptrs_step s t \<Longrightarrow> ptrs_step s u \<Longrightarrow> t = u"
      by (rule ptrs_step_deterministic)
  qed (use run res ptrs_step_Done in blast)+
  then show "r = run_ptrs m c" by simp
qed

text \<open>
  C24. Liveness of the pointer implementation, run statement by statement,
  against the header's contract: on a memory whose blocks fit \<open>size_t\<close>,
  for every call within the contract \<open>ms_contract\<close> (an \<open>ms_search\<close> of an
  empty needle in an empty haystack apart), the run from the call reaches
  a return with the memory and value the contract specifies, and no run
  from the call reaches any other return.
\<close>

theorem ptrs_steps_meet_contract:
  assumes "size_ok m" and "ms_contract m c = Some r" and "\<not> empty_search m c"
  shows "(\<exists>m'. ptrs_step\<^sup>*\<^sup>* (m, Call c) (m', Done (Inr r))) \<and>
         (\<forall>m' r'. ptrs_step\<^sup>*\<^sup>* (m, Call c) (m', Done r') \<longrightarrow> r' = Inr r)"
  using run_ptrs_contract [OF assms] ptrs_call_reaches [of m c] ptrs_run_result [of m c] by auto

text \<open>
  C25. Termination of the pointer implementation as a transition system:
  no run is infinite, whatever the memory and the call.
\<close>

theorem ptrs_runs_finite: "wfp (\<lambda>t s. ptrs_step s t)"
  by (rule wfp_if_convertible_to_nat [of _ ptrs_measure]) (rule ptrs_step_measure)

text \<open>
  C26. The loop invariant of the pointer functions: at every loop head a
  run reaches, the moving pointers point into the arrays they started at,
  and the two pointers of \<open>ms_copy\<close>, \<open>ms_ncopy\<close> (both loops),
  \<open>ms_compare\<close> and \<open>ms_ncompare\<close> are at the same distance from the start
  of their arrays; in \<open>ms_concat\<close> and \<open>ms_nconcat\<close> the destination
  pointer is at least as far into \<open>dest\<close> as the source pointer into
  \<open>src\<close>.
\<close>

theorem ptrs_runs_lockstep:
  assumes "ptrs_step\<^sup>*\<^sup>* (m, Call c) (m', pc)"
  shows "lockstep pc"
  using ptrs_reach_lockstep [OF assms] by simp

theorem ptrs_steps_meet_contract_witness:
  "size_ok [0 \<mapsto> [0, 0], 1 \<mapsto> [104, 0]] \<and>
   ms_contract [0 \<mapsto> [0, 0], 1 \<mapsto> [104, 0]] (Ms_copy (Ptr 0 0) (Ptr 1 0)) =
     Some ([0 \<mapsto> [104, 0], 1 \<mapsto> [104, 0]], V_ptr (Ptr 0 0)) \<and>
   (\<exists>m'. ptrs_step\<^sup>*\<^sup>* ([0 \<mapsto> [0, 0], 1 \<mapsto> [104, 0]], Call (Ms_copy (Ptr 0 0) (Ptr 1 0)))
     (m', Done (Inr ([0 \<mapsto> [104, 0], 1 \<mapsto> [104, 0]], V_ptr (Ptr 0 0)))))"
proof -
  let ?m = "[0 \<mapsto> [0, 0], 1 \<mapsto> [104, 0]] :: mem"
  have s: "size_ok ?m"
    by (simp add: size_ok_def)
  have c: "ms_contract ?m (Ms_copy (Ptr 0 0) (Ptr 1 0)) = Some ([0 \<mapsto> [104, 0], 1 \<mapsto> [104, 0]], V_ptr (Ptr 0 0))"
    by (simp add: block_str_def splice_def fun_upd_twist)
  have e: "\<not> empty_search ?m (Ms_copy (Ptr 0 0) (Ptr 1 0))"
    by simp
  show ?thesis
    using s c ptrs_steps_meet_contract [OF s c e] by blast
qed

theorem ptrs_runs_finite_witness:
  "wfp (\<lambda>t s. ptrs_step s t)"
  by (rule ptrs_runs_finite)

theorem ptrs_runs_lockstep_witness:
  "lockstep (Copy_loop (Ptr 0 0) (Ptr 1 0) (Ptr 0 1) (Ptr 1 1))"
proof -
  have "copy_step ([0 \<mapsto> [0, 0], 1 \<mapsto> [97, 0]], Call (Ms_copy (Ptr 0 0) (Ptr 1 0)))
          ([0 \<mapsto> [0, 0], 1 \<mapsto> [97, 0]], Copy_loop (Ptr 0 0) (Ptr 1 0) (Ptr 0 0) (Ptr 1 0))"
    by (rule copy_start) simp_all
  moreover have "copy_step ([0 \<mapsto> [0, 0], 1 \<mapsto> [97, 0]], Copy_loop (Ptr 0 0) (Ptr 1 0) (Ptr 0 0) (Ptr 1 0))
          ([0 \<mapsto> [97, 0], 1 \<mapsto> [97, 0]], Copy_loop (Ptr 0 0) (Ptr 1 0) (Ptr 0 1) (Ptr 1 1))"
    using copy_next [of "[0 \<mapsto> [0, 0], 1 \<mapsto> [97, 0]]" "Ptr 1 0" 97 "Ptr 0 0"
        "[0 \<mapsto> [97, 0], 1 \<mapsto> [97, 0]]" "Ptr 0 0" "Ptr 1 0"]
    by (simp add: fun_upd_twist)
  ultimately have "ptrs_step\<^sup>*\<^sup>* ([0 \<mapsto> [0, 0], 1 \<mapsto> [97, 0]], Call (Ms_copy (Ptr 0 0) (Ptr 1 0)))
          ([0 \<mapsto> [97, 0], 1 \<mapsto> [97, 0]], Copy_loop (Ptr 0 0) (Ptr 1 0) (Ptr 0 1) (Ptr 1 1))"
    by (meson ptrs_step_sub(2) converse_rtranclp_into_rtranclp r_into_rtranclp)
  then show ?thesis
    by (rule ptrs_runs_lockstep)
qed

end
