(* ===== verification/Spec2Isabelle.thy ===== *)
theory Spec2Isabelle
  imports Test_Driver Mystring_Contract Search_Counters Ptrs_Steps
begin

text \<open>
  \<^bold>\<open>A verification of the c-string module.\<close>

  The program is a C module of eight string functions declared in
  \<open>src/mystring.h\<close> (\<open>ms_length\<close>, \<open>ms_copy\<close>, \<open>ms_ncopy\<close>, \<open>ms_concat\<close>,
  \<open>ms_nconcat\<close>, \<open>ms_compare\<close>, \<open>ms_ncompare\<close>, \<open>ms_search\<close>), implemented
  twice: with array indices in \<open>src/mystring_ars.c\<close> and with advancing
  pointers in \<open>src/mystring_ptrs.c\<close>. \<open>ms_concat\<close> and \<open>ms_nconcat\<close> call
  \<open>ms_length\<close>; the array \<open>ms_search\<close> calls \<open>ms_length\<close>, the pointer one
  \<open>ms_length\<close> and \<open>ms_ncompare\<close>. The driver \<open>src/main.c\<close> runs each
  function beside the C library function it shadows and prints when they
  differ. (\<open>src/src/\<close> holds the same two implementations with longer
  comments.)

  \<^bold>\<open>Theories.\<close>
  \<^item> \<open>CMem\<close>, the prelude: the C memory the functions work on. Memory maps
    block numbers to lists of 8-bit units (\<open>mem\<close>); a pointer is \<open>NULL\<close> or
    a block with an offset (\<open>ptr\<close>); \<open>load\<close> and \<open>store\<close> are \<open>*p\<close> and
    \<open>*p = c\<close>, failing with \<open>Invalid_access\<close> outside a block, which is
    where the C code has undefined behaviour; \<open>assert\<close> on a pointer is
    \<open>assert_nonnull\<close>, failing with \<open>Assert_fail\<close>. A computation is an
    \<open>'a result = error + 'a\<close> threaded by \<open>bindE\<close>. \<open>size_t\<close> is \<open>64 word\<close>,
    \<open>char\<close> is \<open>8 word\<close> read as signed (\<open>char_int = sint\<close>) when promoted
    to \<open>int\<close>, as on x86-64.
  \<^item> \<open>CString\<close>: the abstract view. \<open>cstr_at m p\<close> is the null-terminated
    string at \<open>p\<close>; \<open>write_bytes\<close> writes a list of units; \<open>fits\<close> and
    \<open>separate\<close> say a range lies in a block and two ranges do not overlap;
    \<open>cmp_ref\<close> and \<open>search_ref\<close> are the list-level results of comparison
    and search. Its lemmas relate strings and writes to single loads and
    stores (frame lemmas, reading after writing).
  \<^item> \<open>Mystring_Ars\<close>: \<open>mystring_ars.c\<close>. Each function is a definition
    \<open>ms_X_ars\<close> running the \<open>assert\<close>s, loops and trailing code of the
    source in order; each loop is a recursive function \<open>ms_X_ars_loop\<close>
    (\<open>ms_ncopy_ars_pad\<close> for the padding loop, \<open>ms_search_ars_inner\<close> and
    \<open>_outer\<close> for the nested loops of search) over the loop counter.
  \<^item> \<open>Mystring_Ptrs\<close>: \<open>mystring_ptrs.c\<close>, the same shape with \<open>ms_X_ptrs\<close>;
    each loop recurses on the pointers it advances, \<open>ptr - base\<close> is
    \<open>ptr_diff\<close>, and the comparisons with \<open>num\<close> are on \<open>size_t\<close> values.
  \<^item> \<open>Mystring_H\<close>: the header as an interface. \<open>ms_call\<close> is a datatype of
    the eight calls; \<open>run_ars\<close> and \<open>run_ptrs\<close> run a call with one
    implementation (\<open>ms_impl\<close>), as the linker binds \<open>main.c\<close> to one object.
  \<^item> \<open>Mystring_Contract\<close>: the contract the header's comments document,
    \<open>ms_contract\<close>, a partial function from a memory and a call to the
    memory and value promised (\<open>None\<close> when a documented precondition
    fails), and the refinement of it by both implementations.
  \<^item> \<open>Test_Driver\<close>: \<open>main.c\<close>. Each test is a function of an \<open>ms_impl\<close>
    returning whether it prints; the C library functions it calls
    (\<open>strcpy_ref\<close>, \<open>strcmp_ref\<close>, ...) are their ISO C contracts;
    \<open>char_array\<close> is an initialised \<open>char a[n] = "s"\<close>.
  \<^item> \<open>Ars_Counters\<close>: \<open>src/src/mystring_ars.c\<close>, the same array code as
    \<open>src/mystring_ars.c\<close> with longer comments, modelled with its counters
    as C declares them: \<open>str_length\<close>, \<open>i\<close> are \<open>size_t\<close> words that wrap
    (\<open>ms_X_ars_w\<close>). A loop whose only exit is a terminator is a
    \<open>partial_function (option)\<close>, \<open>None\<close> being a run that never returns;
    a loop that also tests \<open>i != num\<close> is a total \<open>function\<close>, whose
    measure is \<open>num - i\<close> as a word. \<open>bindO\<close> (in \<open>CMem\<close>) sequences such
    computations.
  \<^item> \<open>Search_Counters\<close>: the array \<open>ms_search\<close> with wrapping
    counters \<open>i\<close> and \<open>j\<close> (\<open>ms_search_ars_w\<close>), and \<open>run_ars_w\<close>, the
    header's calls bound to the \<open>size_t\<close>-counter models.
  \<^item> \<open>Search_Steps\<close>: the pointer \<open>ms_search\<close> as a transition system
    (\<open>search_step\<close>, an \<open>inductive\<close> relation on \<open>Entry\<close>, \<open>Scan\<close>
    and \<open>Halt\<close> states), one step per iteration of its loop; its lemmas
    (determinism, a decreasing measure, the run from the call to the
    halting state of \<open>ms_search_ptrs\<close>) are used by \<open>Ptrs_Steps\<close>.
  \<^item> \<open>Ptrs_Steps\<close>: \<open>src/src/mystring_ptrs.c\<close>, the same pointer code as
    \<open>src/mystring_ptrs.c\<close> with longer comments, statement by statement: a
    state is a memory and a control point (\<open>ptrs_pc\<close>: the call, each loop
    head with the locals in scope, the return); each function has its own
    \<open>inductive\<close> step relation (\<open>length_step\<close>, ..., \<open>ncompare_step\<close>,
    \<open>search_run_step\<close>, which runs \<open>search_step\<close>), one step per
    statement group or loop iteration, and \<open>ptrs_step\<close> is their union.
    A call of \<open>ms_length\<close> inside \<open>ms_concat\<close> and \<open>ms_nconcat\<close> is one
    step with the value of its functional model.

  \<^bold>\<open>Results.\<close>
  \<^item> Refinement (C1): whenever the header's contract (\<open>ms_contract\<close>)
    applies to a call, both implementations return what it promises, the
    pointer one except on the empty search of C4.
  \<^item> Equivalence of the two implementations (C2 to C4): equal on every
    input for the seven functions other than \<open>ms_search\<close>; \<open>ms_search\<close>
    agrees except on two empty strings, where the pointer version returns
    \<open>NULL\<close> and the array version the haystack.
  \<^item> Functional correctness of every array function (C5 to C12): on
    null-terminated arguments with room and no overlap, the memory and the
    value each returns, in terms of \<open>cstr_at\<close>, \<open>write_bytes\<close>, \<open>cmp_ref\<close>
    and \<open>search_ref\<close>, and what the destination reads afterwards;
    \<open>ms_length\<close> is characterised on every input, faults included; the
    sign of \<open>ms_compare\<close> is the lexicographic order of the strings with
    their terminators, read as signed \<open>char\<close>s.
  \<^item> Properties of every call (C13, C14): \<open>Assert_fail\<close> exactly on
    \<open>NULL\<close> arguments; a call writes only at or after its \<open>dest\<close>
    argument within \<open>dest\<close>'s block (\<open>dest_arg\<close>), on every memory and
    argument, and the functions without \<open>dest\<close> write nothing.
  \<^item> Differences from the C library (C15, C16): the bounded functions read
    the unit at the bound, past an array of exactly \<open>num\<close> units; for
    every pair of strings whose first difference is a unit of 128 or more
    against one below 128, \<open>ms_compare\<close> (signed \<open>char\<close>) and \<open>strcmp\<close>
    (\<open>unsigned char\<close>) return results of opposite sign.
  \<^item> Properties the spec lists (C17, C18): a copy reads back as its source;
    \<open>ms_ncompare\<close> with a bound past both strings is \<open>ms_compare\<close>.
  \<^item> Beyond terminated arguments (C19, C20): \<open>ms_ncopy\<close> on a source
    with no terminator among more than \<open>num\<close> units copies exactly \<open>num\<close>
    units and leaves the destination unterminated, as the header says;
    \<open>ms_copy(s + 1, s)\<close> smears the first unit and writes past the block.
  \<^item> Return types (C21): every call of either implementation returns the
    kind of value its prototype declares; the destination functions return
    their destination and \<open>ms_search\<close> \<open>NULL\<close> or a pointer into the
    haystack.
  \<^item> Loop invariant (C22): at each loop head of the pointer \<open>ms_search\<close>
    the pointer is \<open>k\<close> units into the haystack and no earlier position
    matched, proved by rule induction over the runs.
  \<^item> Machine counters (C23): on memory whose blocks fit \<open>size_t\<close>
    every call of the \<open>size_t\<close>-counter model returns what \<open>run_ars\<close>
    returns, so what is proved of the array functions holds of the code
    with its machine counters.
  \<^item> The pointer code statement by statement (C24 to C26): every call
    within the header's contract reaches a return with the contract's
    memory and value, and no other return; no run of any call is infinite;
    at every loop head the moving pointers advance together, at the same
    distance into their arrays.

  \<^bold>\<open>Bounds.\<close> No fuel is used: every loop of \<open>Mystring_Ars\<close> and
  \<open>Mystring_Ptrs\<close> is a \<open>function\<close> whose
  termination measure is the number of units left in the block it reads
  or writes (\<open>remaining\<close>), since each iteration accesses one unit further
  and an access outside the block ends the run; the search loops count down
  to a bound computed before they start. Loop counters are \<open>nat\<close>; where a
  theorem compares a counter with a \<open>size_t\<close> or returns a length as one, it
  assumes \<open>size_ok m\<close> (every block shorter than \<open>2^64\<close>), which holds of
  every C object, so the counter equals its \<open>size_t\<close> value. The one loop
  whose \<open>size_t\<close> counter may wrap (the outer loop of the array
  \<open>ms_search\<close>, whose bound \<open>haystack_length - needle_length\<close> may be
  \<open>SIZE_MAX\<close>) and every loop of \<open>Ars_Counters\<close> bounded only by a
  terminator are modelled without fuel as partial functions; C23 proves
  that they return under \<open>size_ok m\<close>. Without that bound a loop of
  \<open>Ars_Counters\<close> would wrap its counter on a block of \<open>2^64\<close> units or
  more, which no C object is.

  \<^bold>\<open>Not modelled.\<close> The text \<open>printf\<close> writes in the driver (only whether
  it prints); the driver's tests are modelled (\<open>test_ms_X\<close>, \<open>main_tests\<close>)
  but no theorem is stated about their fixed inputs; the C library beyond the contracts of the eight functions the
  driver calls; concurrency, which the module does not use. The files
  \<open>src/src/mystring_ars.c\<close> and \<open>src/src/mystring_ptrs.c\<close> are the same
  code as \<open>src/mystring_ars.c\<close> and \<open>src/mystring_ptrs.c\<close> (they differ
  only in comments); the first is translated a second time with its
  \<open>size_t\<close> counters (\<open>Ars_Counters\<close>), the second statement by
  statement (\<open>Ptrs_Steps\<close>).
\<close>

end
